(* ===== verification/Prelude.thy ===== *)
theory Prelude
  imports Main "HOL-Library.Word" "HOL-Library.Sublist"
begin

text \<open>
  Shared vocabulary of the development: the machine integers of the Go code, Go strings as
  lists of 8-bit characters, byte slices as lists of 8-bit words, the conversions between the
  two, big-endian integers (package \<open>encoding/binary\<close>), slice expressions, and the generic
  lemmas on lists and words that the components share.
\<close>

unbundle bit_operations_syntax

named_theorems go_len \<open>lengths of encoded data\<close>
named_theorems go_rt \<open>round trips of encoders and decoders\<close>

type_synonym byte = "8 word"
type_synonym u16 = "16 word"
type_synonym u32 = "32 word"
type_synonym u64 = "64 word"
type_synonym bytes = "byte list"

section \<open>Slices\<close>

text \<open>The slice expression \<open>s[i:j]\<close>; every use in the model is guarded by \<open>i \<le> j \<le> len(s)\<close>.\<close>

definition slice :: "nat \<Rightarrow> nat \<Rightarrow> 'a list \<Rightarrow> 'a list" where
  "slice i j xs = take (j - i) (drop i xs)"

lemma length_slice [simp]: "j \<le> length xs \<Longrightarrow> length (slice i j xs) = j - i"
  by (simp add: slice_def)

lemma slice_append_right: "i = length xs \<Longrightarrow> j = length xs + length ys \<Longrightarrow> slice i j (xs @ ys @ zs) = ys"
  by (simp add: slice_def)

lemma slice_self [simp]: "slice i i xs = []"
  by (simp add: slice_def)

lemma slice_skip: "length xs \<le> i \<Longrightarrow> slice i j (xs @ ys) = slice (i - length xs) (j - length xs) ys"
  by (simp add: slice_def)

lemma slice_take: "length xs = j \<Longrightarrow> slice 0 j (xs @ ys) = xs"
  by (simp add: slice_def)

lemma slice_off [simp]:
  "slice (length xs) (length xs + j) (xs @ ys) = slice 0 j ys"
  "slice (length xs + i) (length xs + j) (xs @ ys) = slice i j ys"
  by (simp_all add: slice_def)

lemmas slice_simps = slice_skip slice_take

lemma nth_append_mid [simp]: "(xs @ y # ys) ! length xs = y"
  by (simp add: nth_append)

section \<open>Characters and bytes\<close>

text \<open>A Go string is a sequence of bytes; \<open>char\<close> has exactly the 256 byte values.\<close>

definition byte_of_char :: "char \<Rightarrow> byte" where
  "byte_of_char c = word_of_nat (of_char c)"

definition char_of_byte :: "byte \<Rightarrow> char" where
  "char_of_byte b = char_of (unat b)"

definition bytes_of_string :: "string \<Rightarrow> bytes" where
  "bytes_of_string = map byte_of_char"

definition string_of_bytes :: "bytes \<Rightarrow> string" where
  "string_of_bytes = map char_of_byte"

lemma char_of_byte_of_char [simp]: "char_of_byte (byte_of_char c) = c"
  by (simp add: char_of_byte_def byte_of_char_def unat_of_nat)

lemma byte_of_char_of_byte [simp]: "byte_of_char (char_of_byte b) = b"
proof -
  have "unat b < 256" using unsigned_less [of b, where 'a = nat] by simp
  then show ?thesis by (simp add: char_of_byte_def byte_of_char_def)
qed

lemma string_of_bytes_of_string [simp]: "string_of_bytes (bytes_of_string s) = s"
  by (simp add: string_of_bytes_def bytes_of_string_def o_def)

lemma bytes_of_string_of_bytes [simp]: "bytes_of_string (string_of_bytes bs) = bs"
  by (simp add: string_of_bytes_def bytes_of_string_def o_def)

lemma length_bytes_of_string [simp]: "length (bytes_of_string s) = length s"
  by (simp add: bytes_of_string_def)

lemma length_string_of_bytes [simp]: "length (string_of_bytes s) = length s"
  by (simp add: string_of_bytes_def)

lemma bytes_of_string_simps [simp]:
  "bytes_of_string [] = []"
  "bytes_of_string (c # s) = byte_of_char c # bytes_of_string s"
  "bytes_of_string (s @ t) = bytes_of_string s @ bytes_of_string t"
  by (simp_all add: bytes_of_string_def)

lemma string_of_bytes_simps [simp]:
  "string_of_bytes [] = []"
  "string_of_bytes (b # bs) = char_of_byte b # string_of_bytes bs"
  "string_of_bytes (bs @ cs) = string_of_bytes bs @ string_of_bytes cs"
  by (simp_all add: string_of_bytes_def)

section \<open>Big-endian integers\<close>

definition PutUint16 :: "u16 \<Rightarrow> bytes" where
  "PutUint16 v = [ucast (drop_bit 8 v), ucast v]"

definition PutUint32 :: "u32 \<Rightarrow> bytes" where
  "PutUint32 v = [ucast (drop_bit 24 v), ucast (drop_bit 16 v), ucast (drop_bit 8 v), ucast v]"

definition Uint16 :: "bytes \<Rightarrow> u16" where
  "Uint16 b = ucast (b ! 1) OR push_bit 8 (ucast (b ! 0))"

definition Uint32 :: "bytes \<Rightarrow> u32" where
  "Uint32 b = ucast (b ! 3) OR push_bit 8 (ucast (b ! 2)) OR
     push_bit 16 (ucast (b ! 1)) OR push_bit 24 (ucast (b ! 0))"

lemma length_PutUint16 [simp, go_len]: "length (PutUint16 v) = 2"
  by (simp add: PutUint16_def)

lemma length_PutUint32 [simp, go_len]: "length (PutUint32 v) = 4"
  by (simp add: PutUint32_def)

lemma Uint16_PutUint16 [simp, go_rt]: "Uint16 (PutUint16 v) = v"
  by (rule bit_word_eqI) (auto simp: Uint16_def PutUint16_def bit_simps)

lemma Uint32_PutUint32 [simp, go_rt]: "Uint32 (PutUint32 v) = v"
proof (rule bit_word_eqI)
  fix n :: nat
  have "24 + (n - 24) = (if n < 24 then 24 else n)" "16 + (n - 16) = (if n < 16 then 16 else n)"
    by simp_all
  then show "bit (Uint32 (PutUint32 v)) n = bit v n" if "n < LENGTH(32)"
    using that by (auto simp: Uint32_def PutUint32_def bit_simps)
qed

lemma unat_word_of_nat16: "n < 65536 \<Longrightarrow> unat (word_of_nat n :: u16) = n"
  by (simp add: unat_of_nat)

lemma unat_byte_less: "unat (b :: byte) < 256"
  using unsigned_less [of b, where 'a = nat] by simp

lemma unat_u16_less: "unat (b :: u16) < 65536"
  using unsigned_less [of b, where 'a = nat] by simp

section \<open>Lists of lists and updates\<close>

lemma set_concat_update:
  assumes "i < length xs"
  shows "set (concat (xs[i := y])) = set y \<union> (\<Union>j \<in> {..<length xs} - {i}. set (xs ! j))"
    and "set (concat xs) = set (xs ! i) \<union> (\<Union>j \<in> {..<length xs} - {i}. set (xs ! j))"
proof -
  have c: "set (concat zs) = (\<Union>j \<in> {..<length zs}. set (zs ! j))" for zs :: "'a list list"
    by (force simp: in_set_conv_nth)
  show "set (concat (xs[i := y])) = set y \<union> (\<Union>j \<in> {..<length xs} - {i}. set (xs ! j))"
    unfolding c using assms by (auto simp: nth_list_update split: if_splits)
  show "set (concat xs) = set (xs ! i) \<union> (\<Union>j \<in> {..<length xs} - {i}. set (xs ! j))"
    unfolding c using assms by auto
qed

lemma concat_update_sub:
  "i < length xs \<Longrightarrow> set (xs ! i) \<subseteq> A \<union> set y \<Longrightarrow> set (concat xs) \<subseteq> A \<union> set (concat (xs[i := y]))"
  using set_concat_update [of i xs] by fastforce

lemma map_update_same: "f y = f (xs ! i) \<Longrightarrow> map f (xs[i := y]) = map f xs"
  by (cases "i < length xs") (simp_all add: map_update list_update_same_conv list_update_beyond)

lemma set_remove1_cover: "set xs \<subseteq> {x} \<union> set (remove1 x xs)"
  by (induction xs) auto

lemma sum_list_less: "i < length xs \<Longrightarrow> (y::nat) < xs ! i \<Longrightarrow> sum_list (xs[i := y]) < sum_list xs"
  using sum_list_update [of i xs y] member_le_sum_list [of "xs ! i" xs] by fastforce

end
