(* ===== verification/Go_Strings.thy ===== *)
theory Go_Strings
  imports Prelude
begin

text \<open>
  The functions of Go's \<open>strings\<close> and \<open>strconv\<close> packages that the sources call, on strings as
  byte sequences. White space is the whole \<open>unicode.White_Space\<close> set, in its UTF-8 encodings.
  Case conversion is written out on ASCII strings; on a string with a byte above 127 the Go
  functions consult the Unicode case tables, which are a parameter of the model
  (record \<open>unicode_case\<close>).
\<close>

section \<open>Prefixes, suffixes, searching\<close>

definition HasPrefix :: "string \<Rightarrow> string \<Rightarrow> bool" where
  "HasPrefix s p = prefix p s"

definition HasSuffix :: "string \<Rightarrow> string \<Rightarrow> bool" where
  "HasSuffix s t = suffix t s"

definition TrimSuffix :: "string \<Rightarrow> string \<Rightarrow> string" where
  "TrimSuffix s t = (if HasSuffix s t then take (length s - length t) s else s)"

text \<open>\<open>strings.IndexByte\<close>, with \<open>None\<close> for the result \<open>-1\<close>.\<close>

fun IndexByte :: "string \<Rightarrow> char \<Rightarrow> nat option" where
  "IndexByte [] c = None"
| "IndexByte (x # xs) c = (if x = c then Some 0 else map_option Suc (IndexByte xs c))"

definition ContainsAny :: "string \<Rightarrow> string \<Rightarrow> bool" where
  "ContainsAny s cs = list_ex (\<lambda>c. List.member cs c) s"

fun IndexAny :: "string \<Rightarrow> string \<Rightarrow> nat option" where
  "IndexAny [] cs = None"
| "IndexAny (x # xs) cs = (if List.member cs x then Some 0 else map_option Suc (IndexAny xs cs))"

text \<open>\<open>strings.Replace(s, old, new, 1)\<close> for a one-byte \<open>old\<close> and \<open>new\<close>.\<close>

fun Replace1 :: "string \<Rightarrow> char \<Rightarrow> char \<Rightarrow> string" where
  "Replace1 [] a b = []"
| "Replace1 (x # xs) a b = (if x = a then b # xs else x # Replace1 xs a b)"

section \<open>Splitting and joining\<close>

text \<open>\<open>strings.Split\<close> with a one-byte separator, and \<open>strings.Join\<close>.\<close>

fun Split :: "string \<Rightarrow> char \<Rightarrow> string list" where
  "Split [] c = [[]]"
| "Split (x # xs) c =
     (if x = c then [] # Split xs c
      else (case Split xs c of [] \<Rightarrow> [[x]] | w # ws \<Rightarrow> (x # w) # ws))"

fun SplitN :: "string \<Rightarrow> char \<Rightarrow> nat \<Rightarrow> string list" where
  "SplitN s c 0 = []"
| "SplitN s c (Suc 0) = [s]"
| "SplitN s c (Suc (Suc n)) =
     (case IndexByte s c of None \<Rightarrow> [s]
      | Some i \<Rightarrow> take i s # SplitN (drop (Suc i) s) c (Suc n))"

fun Join :: "string list \<Rightarrow> string \<Rightarrow> string" where
  "Join [] sep = []"
| "Join [w] sep = w"
| "Join (w # v # ws) sep = w @ sep @ Join (v # ws) sep"

section \<open>White space\<close>

text \<open>The UTF-8 encodings of the characters for which \<open>unicode.IsSpace\<close> holds.\<close>

definition space_runes :: "string list" where
  "space_runes =
     [[CHR 0x20], [CHR 0x09], [CHR 0x0A], [CHR 0x0B], [CHR 0x0C], [CHR 0x0D],
      [CHR 0xC2, CHR 0x85], [CHR 0xC2, CHR 0xA0], [CHR 0xE1, CHR 0x9A, CHR 0x80],
      [CHR 0xE2, CHR 0x80, CHR 0x80], [CHR 0xE2, CHR 0x80, CHR 0x81], [CHR 0xE2, CHR 0x80, CHR 0x82],
      [CHR 0xE2, CHR 0x80, CHR 0x83], [CHR 0xE2, CHR 0x80, CHR 0x84], [CHR 0xE2, CHR 0x80, CHR 0x85],
      [CHR 0xE2, CHR 0x80, CHR 0x86], [CHR 0xE2, CHR 0x80, CHR 0x87], [CHR 0xE2, CHR 0x80, CHR 0x88],
      [CHR 0xE2, CHR 0x80, CHR 0x89], [CHR 0xE2, CHR 0x80, CHR 0x8A], [CHR 0xE2, CHR 0x80, CHR 0xA8],
      [CHR 0xE2, CHR 0x80, CHR 0xA9], [CHR 0xE2, CHR 0x80, CHR 0xAF], [CHR 0xE2, CHR 0x81, CHR 0x9F],
      [CHR 0xE3, CHR 0x80, CHR 0x80]]"

text \<open>Width of the white-space character at the front of a string, 0 when there is none.\<close>

definition front_width :: "string list \<Rightarrow> string \<Rightarrow> nat" where
  "front_width rs s = (case find (\<lambda>r. prefix r s) rs of None \<Rightarrow> 0 | Some r \<Rightarrow> length r)"

lemma front_width_le: "front_width rs s \<le> length s"
  by (auto simp: front_width_def find_Some_iff prefix_length_le split: option.splits)

function strip_front :: "string list \<Rightarrow> string \<Rightarrow> string" where
  "strip_front rs s = (let w = front_width rs s in if w = 0 then s else strip_front rs (drop w s))"
  by pat_completeness auto
termination
proof (relation "measure (\<lambda>(rs, s). length s)", goal_cases)
  case (2 rs s w)
  then show ?case using front_width_le [of rs s] by (cases s) auto
qed auto

declare strip_front.simps [simp del]

definition TrimSpace :: "string \<Rightarrow> string" where
  "TrimSpace s = rev (strip_front (map rev space_runes) (rev (strip_front space_runes s)))"

function Fields_loop :: "string \<Rightarrow> string \<Rightarrow> string list" where
  "Fields_loop cur s =
     (if s = [] then (if cur = [] then [] else [cur])
      else (let w = front_width space_runes s in
        if w = 0 then Fields_loop (cur @ [hd s]) (tl s)
        else (if cur = [] then [] else [cur]) @ Fields_loop [] (drop w s)))"
  by pat_completeness auto
termination
  by (relation "measure (\<lambda>(cur, s). length s)") auto

declare Fields_loop.simps [simp del]

definition Fields :: "string \<Rightarrow> string list" where
  "Fields s = Fields_loop [] s"

section \<open>Case conversion\<close>

record unicode_case =
  uni_lower :: "string \<Rightarrow> string"
  uni_upper :: "string \<Rightarrow> string"

definition is_ascii :: "string \<Rightarrow> bool" where
  "is_ascii s = list_all (\<lambda>c. (of_char c :: nat) < 128) s"

definition lower_char :: "char \<Rightarrow> char" where
  "lower_char c = (let n = (of_char c :: nat) in if 65 \<le> n \<and> n \<le> 90 then char_of (n + 32) else c)"

definition upper_char :: "char \<Rightarrow> char" where
  "upper_char c = (let n = (of_char c :: nat) in if 97 \<le> n \<and> n \<le> 122 then char_of (n - 32) else c)"

definition ToLower :: "unicode_case \<Rightarrow> string \<Rightarrow> string" where
  "ToLower u s = (if is_ascii s then map lower_char s else uni_lower u s)"

definition ToUpper :: "unicode_case \<Rightarrow> string \<Rightarrow> string" where
  "ToUpper u s = (if is_ascii s then map upper_char s else uni_upper u s)"

section \<open>Numbers\<close>

definition isDigit :: "char \<Rightarrow> bool" where
  "isDigit c = (let n = (of_char c :: nat) in 48 \<le> n \<and> n \<le> 57)"

definition digit_val :: "char \<Rightarrow> nat" where
  "digit_val c = of_char c - 48"

fun dec_loop :: "nat \<Rightarrow> string \<Rightarrow> nat option" where
  "dec_loop acc [] = Some acc"
| "dec_loop acc (c # cs) = (if isDigit c then dec_loop (10 * acc + digit_val c) cs else None)"

text \<open>\<open>strconv.ParseUint(s, 10, bits)\<close>; \<open>None\<close> for a syntax or a range error.\<close>

definition ParseUint :: "string \<Rightarrow> nat \<Rightarrow> nat option" where
  "ParseUint s bits =
     (if s = [] then None
      else case dec_loop 0 s of None \<Rightarrow> None | Some v \<Rightarrow> if v < 2 ^ bits then Some v else None)"

text \<open>\<open>strconv.ParseInt(s, 10, 64)\<close>, which \<open>strconv.Atoi\<close> is on 64-bit platforms.\<close>

definition ParseInt :: "string \<Rightarrow> int option" where
  "ParseInt s =
     (case s of [] \<Rightarrow> None
      | c # cs \<Rightarrow>
         (if c = CHR ''-'' then
            (case ParseUint cs 64 of None \<Rightarrow> None
             | Some v \<Rightarrow> if v \<le> 2 ^ 63 then Some (- int v) else None)
          else
            (case ParseUint (if c = CHR ''+'' then cs else s) 64 of None \<Rightarrow> None
             | Some v \<Rightarrow> if v < 2 ^ 63 then Some (int v) else None)))"

fun FormatNat :: "nat \<Rightarrow> string" where
  "FormatNat n = (if n < 10 then [char_of (48 + n)] else FormatNat (n div 10) @ [char_of (48 + n mod 10)])"

declare FormatNat.simps [simp del]

definition FormatInt :: "int \<Rightarrow> string" where
  "FormatInt i = (if i < 0 then CHR ''-'' # FormatNat (nat (- i)) else FormatNat (nat i))"

section \<open>Lemmas\<close>

lemma HasSuffix_append [simp]: "HasSuffix (s @ t) t"
  by (simp add: HasSuffix_def suffix_def)

lemma HasSuffix_iff: "HasSuffix s t \<longleftrightarrow> (\<exists>p. s = p @ t)"
  by (simp add: HasSuffix_def suffix_def)

lemma TrimSuffix_append [simp]: "TrimSuffix (s @ t) t = s"
  by (simp add: TrimSuffix_def)

lemma TrimSuffix_id: "\<not> HasSuffix s t \<Longrightarrow> TrimSuffix s t = s"
  by (simp add: TrimSuffix_def)

lemma length_TrimSuffix_le: "length (TrimSuffix s t) \<le> length s"
  by (simp add: TrimSuffix_def)

lemma HasSuffix_single: "HasSuffix s [c] \<longleftrightarrow> s \<noteq> [] \<and> last s = c"
  by (auto simp: HasSuffix_iff) (metis append_butlast_last_id)

lemma TrimSuffix_last: "s = [] \<or> last s \<noteq> c \<Longrightarrow> TrimSuffix s [c] = s"
  by (auto simp: TrimSuffix_def HasSuffix_single)

lemma IndexByte_Some: "IndexByte s c = Some i \<Longrightarrow> i < length s \<and> s ! i = c \<and> c \<notin> set (take i s)"
proof (induction s arbitrary: i)
  case (Cons x xs)
  then show ?case by (cases i) (auto split: if_splits)
qed simp

lemma IndexByte_None: "IndexByte s c = None \<longleftrightarrow> c \<notin> set s"
  by (induction s) auto

lemma IndexByte_append: "c \<notin> set a \<Longrightarrow> IndexByte (a @ c # b) c = Some (length a)"
  by (induction a) auto

lemma Split_not_Nil [simp]: "Split s c \<noteq> []"
  by (induction s) (auto split: list.splits)

lemma Split_no_sep: "c \<notin> set s \<Longrightarrow> Split s c = [s]"
  by (induction s) auto

lemma Split_append_sep: "c \<notin> set a \<Longrightarrow> Split (a @ c # s) c = a # Split s c"
  by (induction a) auto

lemma Join_Split [simp, go_rt]: "Join (Split s c) [c] = s"
proof (induction s)
  case (Cons x xs)
  then show ?case by (cases "Split xs c"; cases "tl (Split xs c)") (auto simp: Split_not_Nil)
qed simp

lemma Split_sep_free: "w \<in> set (Split s c) \<Longrightarrow> c \<notin> set w"
  by (induction s arbitrary: w) (auto split: list.splits if_splits)

lemma Split_Join: "ws \<noteq> [] \<Longrightarrow> \<forall>w\<in>set ws. c \<notin> set w \<Longrightarrow> Split (Join ws [c]) c = ws"
proof (induction ws "[c]" rule: Join.induct)
  case (2 w)
  then show ?case by (simp add: Split_no_sep)
next
  case (3 w v ws)
  then show ?case by (simp add: Split_append_sep)
qed simp

lemma set_Split: "w \<in> set (Split s c) \<Longrightarrow> set w \<subseteq> set s"
  by (induction s arbitrary: w) (fastforce split: list.splits if_splits)+

lemma length_Join: "ws \<noteq> [] \<Longrightarrow> length (Join ws [c]) + 1 = sum_list (map (\<lambda>w. length w + 1) ws)"
  by (induction ws "[c]" rule: Join.induct) auto

text \<open>A visible ASCII character is neither the first nor the last byte of any white space.\<close>

definition visible :: "char \<Rightarrow> bool" where
  "visible c = (32 < (of_char c :: nat) \<and> (of_char c :: nat) < 128)"

lemma not_visible:
  "r \<in> set space_runes \<Longrightarrow> r \<noteq> [] \<and> \<not> visible (hd r) \<and> \<not> visible (last r)"
  by (auto simp: space_runes_def visible_def)

lemma front_width_zero:
  assumes "\<And>r. r \<in> set rs \<Longrightarrow> r \<noteq> [] \<and> \<not> visible (hd r)" "s = [] \<or> visible (hd s)"
  shows "front_width rs s = 0"
proof -
  have "\<not> prefix r s" if "r \<in> set rs" for r
    using assms(1) [OF that] assms(2) by (cases r; cases s) auto
  then show ?thesis by (auto simp: front_width_def find_None_iff split: option.splits)
     (metis find_None_iff option.distinct(1))
qed

lemma TrimSpace_id: "s = [] \<or> visible (hd s) \<and> visible (last s) \<Longrightarrow> TrimSpace s = s"
proof -
  assume s: "s = [] \<or> visible (hd s) \<and> visible (last s)"
  have f: "strip_front rs t = t" if "front_width rs t = 0" for rs t
    using that by (subst strip_front.simps) simp
  have "front_width space_runes s = 0"
    by (rule front_width_zero) (use s not_visible in auto)
  moreover have "front_width (map rev space_runes) (rev s) = 0"
    by (rule front_width_zero) (use s not_visible in \<open>auto simp: hd_rev\<close>)
  ultimately show ?thesis by (simp add: TrimSpace_def f)
qed

lemma Split_snoc_sep: "Split (a @ [c]) c = Split a c @ [[]]"
  by (induction a) (auto split: list.splits)

lemma Split_last_dot: "s \<noteq> [] \<Longrightarrow> last s = c \<Longrightarrow> [] \<in> set (Split s c)"
  using Split_snoc_sep [of "butlast s" c] by (metis append_butlast_last_id in_set_conv_decomp)

lemma set_Join: "set (Join ws sep) \<subseteq> \<Union> (set ` set ws) \<union> set sep"
  by (induction ws sep rule: Join.induct) auto

end
