(* ===== verification/Dns_Message.thy ===== *)
theory Dns_Message
  imports Go_Strings
begin

text \<open>
  The DNS message format of \<open>src/internal/dns/message.go\<close>: type codes and flags, the message
  structure, the decoder (\<open>ParseMessage\<close>, \<open>ParseName\<close>) with all of its error returns, and the
  encoder (\<open>PackName\<close>, \<open>Pack\<close>, \<open>PackUDP\<close>). Byte slices are lists; the scratch buffer that
  \<open>Pack\<close> reuses for its capacity carries no data and is not modelled.
\<close>

section \<open>Constants\<close>

abbreviation (input) TypeA :: u16 where "TypeA \<equiv> 1"
abbreviation (input) TypeNS :: u16 where "TypeNS \<equiv> 2"
abbreviation (input) TypeCNAME :: u16 where "TypeCNAME \<equiv> 5"
abbreviation (input) TypeSOA :: u16 where "TypeSOA \<equiv> 6"
abbreviation (input) TypeHINFO :: u16 where "TypeHINFO \<equiv> 13"
abbreviation (input) TypePTR :: u16 where "TypePTR \<equiv> 12"
abbreviation (input) TypeMX :: u16 where "TypeMX \<equiv> 15"
abbreviation (input) TypeTXT :: u16 where "TypeTXT \<equiv> 16"
abbreviation (input) TypeAAAA :: u16 where "TypeAAAA \<equiv> 28"
abbreviation (input) TypeSRV :: u16 where "TypeSRV \<equiv> 33"
abbreviation (input) TypeNAPTR :: u16 where "TypeNAPTR \<equiv> 35"
abbreviation (input) TypeDNAME :: u16 where "TypeDNAME \<equiv> 39"
abbreviation (input) TypeOPT :: u16 where "TypeOPT \<equiv> 41"
abbreviation (input) TypeDS :: u16 where "TypeDS \<equiv> 43"
abbreviation (input) TypeSSHFP :: u16 where "TypeSSHFP \<equiv> 44"
abbreviation (input) TypeRRSIG :: u16 where "TypeRRSIG \<equiv> 46"
abbreviation (input) TypeNSEC :: u16 where "TypeNSEC \<equiv> 47"
abbreviation (input) TypeDNSKEY :: u16 where "TypeDNSKEY \<equiv> 48"
abbreviation (input) TypeNSEC3 :: u16 where "TypeNSEC3 \<equiv> 50"
abbreviation (input) TypeNSEC3PARAM :: u16 where "TypeNSEC3PARAM \<equiv> 51"
abbreviation (input) TypeTLSA :: u16 where "TypeTLSA \<equiv> 52"
abbreviation (input) TypeCAA :: u16 where "TypeCAA \<equiv> 257"
abbreviation (input) TypeAXFR :: u16 where "TypeAXFR \<equiv> 252"
abbreviation (input) TypeANY :: u16 where "TypeANY \<equiv> 255"

abbreviation (input) ClassIN :: u16 where "ClassIN \<equiv> 1"
abbreviation (input) ClassANY :: u16 where "ClassANY \<equiv> 255"

abbreviation (input) FlagQR :: u16 where "FlagQR \<equiv> 0x8000"
abbreviation (input) FlagAA :: u16 where "FlagAA \<equiv> 0x0400"
abbreviation (input) FlagTC :: u16 where "FlagTC \<equiv> 0x0200"
abbreviation (input) FlagRD :: u16 where "FlagRD \<equiv> 0x0100"

abbreviation (input) RcodeNoError :: int where "RcodeNoError \<equiv> 0"
abbreviation (input) RcodeFormatError :: int where "RcodeFormatError \<equiv> 1"
abbreviation (input) RcodeServerFailure :: int where "RcodeServerFailure \<equiv> 2"
abbreviation (input) RcodeNXDomain :: int where "RcodeNXDomain \<equiv> 3"
abbreviation (input) RcodeNotImplemented :: int where "RcodeNotImplemented \<equiv> 4"
abbreviation (input) RcodeRefused :: int where "RcodeRefused \<equiv> 5"

abbreviation (input) MaxUDPMessageSize :: nat where "MaxUDPMessageSize \<equiv> 512"
abbreviation (input) MaxEDNSUDPSize :: nat where "MaxEDNSUDPSize \<equiv> 1232"
abbreviation (input) maxNameLen :: nat where "maxNameLen \<equiv> 255"
abbreviation (input) maxLabelLen :: nat where "maxLabelLen \<equiv> 63"
abbreviation (input) maxPointerHops :: nat where "maxPointerHops \<equiv> 16"

section \<open>Type names and codes\<close>

definition typeNames :: "(u16 \<times> string) list" where
  "typeNames =
    [(TypeA, ''A''), (TypeNS, ''NS''), (TypeCNAME, ''CNAME''), (TypeSOA, ''SOA''),
     (TypeHINFO, ''HINFO''), (TypePTR, ''PTR''), (TypeMX, ''MX''), (TypeTXT, ''TXT''),
     (TypeAAAA, ''AAAA''), (TypeSRV, ''SRV''), (TypeNAPTR, ''NAPTR''), (TypeDNAME, ''DNAME''),
     (TypeOPT, ''OPT''), (TypeDS, ''DS''), (TypeSSHFP, ''SSHFP''), (TypeRRSIG, ''RRSIG''),
     (TypeNSEC, ''NSEC''), (TypeDNSKEY, ''DNSKEY''), (TypeNSEC3, ''NSEC3''),
     (TypeNSEC3PARAM, ''NSEC3PARAM''), (TypeTLSA, ''TLSA''), (TypeCAA, ''CAA''),
     (TypeAXFR, ''AXFR''), (TypeANY, ''ANY'')]"

definition typeCodes :: "string \<rightharpoonup> u16" where
  "typeCodes = (map_of (map (\<lambda>(c, n). (n, c)) typeNames))(''*'' \<mapsto> TypeANY)"

definition TypeName :: "u16 \<Rightarrow> string" where
  "TypeName t = (case map_of typeNames t of Some n \<Rightarrow> n | None \<Rightarrow> ''TYPE'' @ FormatNat (unat t))"

definition TypeCode :: "unicode_case \<Rightarrow> string \<Rightarrow> u16" where
  "TypeCode u name = (case typeCodes (ToUpper u name) of Some c \<Rightarrow> c | None \<Rightarrow> 0)"

section \<open>Messages\<close>

record header =
  ID :: u16
  Flags :: u16
  QDCount :: u16
  ANCount :: u16
  NSCount :: u16
  ARCount :: u16

record question =
  q_Name :: string
  q_Type :: u16
  q_Class :: u16

record rr =
  rr_Name :: string
  rr_Type :: u16
  rr_Class :: u16
  rr_TTL :: u32
  rr_RData :: bytes

record message = header +
  Questions :: "question list"
  Answers :: "rr list"
  Authority :: "rr list"
  Additional :: "rr list"
  EDNS0 :: bool
  EDNS0DO :: bool
  EDNS0Size :: u16

text \<open>A message with the given header word and everything else at Go's zero value.\<close>

definition zero_message :: message where
  "zero_message = \<lparr>ID = 0, Flags = 0, QDCount = 0, ANCount = 0, NSCount = 0, ARCount = 0,
     Questions = [], Answers = [], Authority = [], Additional = [],
     EDNS0 = False, EDNS0DO = False, EDNS0Size = 0\<rparr>"

definition SetEDNS0 :: "message \<Rightarrow> u16 \<Rightarrow> bool \<Rightarrow> message" where
  "SetEDNS0 m sz dobit =
     (let sz = (if sz = 0 then of_nat MaxEDNSUDPSize else sz)
      in m\<lparr>EDNS0 := True, EDNS0Size := sz, EDNS0DO := dobit\<rparr>)"

definition UDPSize :: "message \<Rightarrow> nat" where
  "UDPSize m =
     (if \<not> EDNS0 m then MaxUDPMessageSize
      else let sz = unat (EDNS0Size m) in
        if sz < MaxUDPMessageSize then MaxUDPMessageSize
        else if sz > MaxEDNSUDPSize then MaxEDNSUDPSize
        else sz)"

definition SetRcode :: "message \<Rightarrow> int \<Rightarrow> message" where
  "SetRcode m rcode = m\<lparr>Flags := (Flags m AND NOT 0x000F) OR word_of_int (rcode AND 0x0F)\<rparr>"

definition Rcode :: "message \<Rightarrow> int" where
  "Rcode m = uint (Flags m AND 0x000F)"

definition Opcode :: "message \<Rightarrow> int" where
  "Opcode m = uint (drop_bit 11 (Flags m)) AND 0x0F"

definition NewResponse :: "message \<Rightarrow> message" where
  "NewResponse req =
     (let resp = zero_message\<lparr>
            ID := ID req,
            Flags := FlagQR OR (Flags req AND FlagRD) OR (Flags req AND push_bit 11 0x0F),
            Questions := Questions req\<rparr>
      in if EDNS0 req then SetEDNS0 resp (of_nat MaxEDNSUDPSize) (EDNS0DO req) else resp)"

section \<open>Decoding\<close>

datatype name_err =
    NameOverflowsBuffer
  | LabelTooLong
  | LabelOverflowsBuffer
  | NameTooLong
  | TruncatedPointer
  | PointerLoop
  | ReservedLabelType

text \<open>The loop of \<open>ParseName\<close>; its variables are the arguments after the buffer. A label step
  raises \<open>nameLen\<close> and a pointer step raises \<open>hops\<close>, both under their bounds, so it stops on
  every input.\<close>

function ParseName_loop ::
  "bytes \<Rightarrow> string \<Rightarrow> nat \<Rightarrow> bool \<Rightarrow> nat \<Rightarrow> nat \<Rightarrow> nat \<Rightarrow> name_err + string \<times> nat" where
  "ParseName_loop buf sb nxt followed endOff hops nameLen =
    (if nxt \<ge> length buf then Inl NameOverflowsBuffer
     else let b = buf ! nxt in
       if b AND 0xC0 = 0x00 then
         (if b = 0 then
            let endOff = (if \<not> followed then nxt + 1 else endOff)
            in if sb = [] then Inr (''.'', endOff) else Inr (sb, endOff)
          else if unat b > maxLabelLen then Inl LabelTooLong
          else let start = nxt + 1; end' = start + unat b in
            if end' > length buf then Inl LabelOverflowsBuffer
            else let nameLen = nameLen + (1 + unat b) in
              if nameLen > maxNameLen then Inl NameTooLong
              else ParseName_loop buf
                ((if sb \<noteq> [] then sb @ ''.'' else sb) @ string_of_bytes (slice start end' buf))
                end' followed endOff hops nameLen)
       else if b AND 0xC0 = 0xC0 then
         (if nxt + 1 \<ge> length buf then Inl TruncatedPointer
          else let ptr = push_bit 8 (unat (b AND 0x3F)) OR unat (buf ! (nxt + 1));
                   endOff = (if \<not> followed then nxt + 2 else endOff);
                   hops = hops + 1
               in if hops > maxPointerHops then Inl PointerLoop
                  else ParseName_loop buf sb ptr True endOff hops nameLen)
       else Inl ReservedLabelType)"
  by pat_completeness auto
termination
  by (relation "measure (\<lambda>(buf, sb, nxt, followed, endOff, hops, nameLen).
    (Suc maxNameLen - nameLen) + (Suc maxPointerHops - hops))") auto

declare ParseName_loop.simps [simp del]

definition ParseName :: "bytes \<Rightarrow> nat \<Rightarrow> name_err + string \<times> nat" where
  "ParseName buf offset = ParseName_loop buf [] offset False 0 0 1"

datatype section_err =
    RecordCountExceeds
  | RecordName name_err
  | TruncatedRRHeader
  | TruncatedRDATA

fun parseRRs :: "bytes \<Rightarrow> nat \<Rightarrow> nat \<Rightarrow> section_err + rr list \<times> nat" where
  "parseRRs buf off 0 = Inr ([], off)"
| "parseRRs buf off (Suc n) =
    (case ParseName buf off of
       Inl e \<Rightarrow> Inl (RecordName e)
     | Inr (name, nxt) \<Rightarrow>
         if nxt + 10 > length buf then Inl TruncatedRRHeader
         else let typ = Uint16 (slice nxt (nxt + 2) buf);
                  cls = Uint16 (slice (nxt + 2) (nxt + 4) buf);
                  ttl = Uint32 (slice (nxt + 4) (nxt + 8) buf);
                  rdlen = unat (Uint16 (slice (nxt + 8) (nxt + 10) buf));
                  nxt = nxt + 10
              in if nxt + rdlen > length buf then Inl TruncatedRDATA
                 else let rdata = slice nxt (nxt + rdlen) buf;
                          r = \<lparr>rr_Name = name, rr_Type = typ, rr_Class = cls, rr_TTL = ttl, rr_RData = rdata\<rparr>
                      in (case parseRRs buf (nxt + rdlen) n of
                            Inl e \<Rightarrow> Inl e
                          | Inr (rs, off') \<Rightarrow> Inr (r # rs, off')))"

definition parseRRSection :: "bytes \<Rightarrow> nat \<Rightarrow> u16 \<Rightarrow> section_err + rr list \<times> nat" where
  "parseRRSection buf off count =
     (if count = 0 then Inr ([], off)
      else if int (unat count) * 11 > int (length buf) - int off then Inl RecordCountExceeds
      else parseRRs buf off (unat count))"

datatype parse_err =
    MessageTooShort
  | QuestionCountExceeds
  | QuestionName name_err
  | TruncatedQuestion
  | AnswersErr section_err
  | AuthorityErr section_err
  | AdditionalErr section_err

fun parseQuestions :: "bytes \<Rightarrow> nat \<Rightarrow> nat \<Rightarrow> parse_err + question list \<times> nat" where
  "parseQuestions buf off 0 = Inr ([], off)"
| "parseQuestions buf off (Suc n) =
    (case ParseName buf off of
       Inl e \<Rightarrow> Inl (QuestionName e)
     | Inr (name, nxt) \<Rightarrow>
         if nxt + 4 > length buf then Inl TruncatedQuestion
         else let q = \<lparr>q_Name = name, q_Type = Uint16 (slice nxt (nxt + 2) buf),
                        q_Class = Uint16 (slice (nxt + 2) (nxt + 4) buf)\<rparr>
              in (case parseQuestions buf (nxt + 4) n of
                    Inl e \<Rightarrow> Inl e
                  | Inr (qs, off') \<Rightarrow> Inr (q # qs, off')))"

text \<open>The loop that moves OPT records out of the additional section.\<close>

fun takeOPT :: "message \<Rightarrow> rr list \<Rightarrow> rr list \<Rightarrow> message" where
  "takeOPT m filtered [] = m\<lparr>Additional := filtered\<rparr>"
| "takeOPT m filtered (r # rs) =
    (if rr_Type r = TypeOPT then
       takeOPT (m\<lparr>EDNS0 := True, EDNS0Size := rr_Class r,
                  EDNS0DO := (rr_TTL r AND 0x00008000 \<noteq> 0)\<rparr>) filtered rs
     else takeOPT m (filtered @ [r]) rs)"

definition ParseMessage :: "bytes \<Rightarrow> parse_err + message" where
  "ParseMessage buf =
    (if length buf < 12 then Inl MessageTooShort
     else let m = zero_message\<lparr>
              ID := Uint16 (slice 0 2 buf), Flags := Uint16 (slice 2 4 buf),
              QDCount := Uint16 (slice 4 6 buf), ANCount := Uint16 (slice 6 8 buf),
              NSCount := Uint16 (slice 8 10 buf), ARCount := Uint16 (slice 10 12 buf)\<rparr>;
            off = 12
       in if unat (QDCount m) * 5 > length buf - off then Inl QuestionCountExceeds
          else (case parseQuestions buf off (unat (QDCount m)) of
             Inl e \<Rightarrow> Inl e
           | Inr (qs, off) \<Rightarrow>
          (case parseRRSection buf off (ANCount m) of
             Inl e \<Rightarrow> Inl (AnswersErr e)
           | Inr (an, off) \<Rightarrow>
          (case parseRRSection buf off (NSCount m) of
             Inl e \<Rightarrow> Inl (AuthorityErr e)
           | Inr (ns, off) \<Rightarrow>
          (case parseRRSection buf off (ARCount m) of
             Inl e \<Rightarrow> Inl (AdditionalErr e)
           | Inr (ar, _) \<Rightarrow>
               Inr (takeOPT (m\<lparr>Questions := qs, Answers := an, Authority := ns, Additional := ar\<rparr>) [] ar))))))"

section \<open>Encoding\<close>

datatype packname_err = PackNameTooLong | PackEmptyLabel | PackLabelTooLong

text \<open>
  \<open>PackName\<close> returns the buffer it has built so far together with its error, so both results
  are kept: callers that return the pair unchanged hand out a partly written buffer.
\<close>

function PackName_loop :: "string \<Rightarrow> nat \<Rightarrow> nat \<Rightarrow> bytes \<Rightarrow> bytes \<times> packname_err option" where
  "PackName_loop name start i buf =
    (if i > length name then (buf @ [0], None)
     else if i < length name \<and> name ! i \<noteq> CHR ''.'' then PackName_loop name start (i + 1) buf
     else let n = i - start in
       if n = 0 then (buf, Some PackEmptyLabel)
       else if n > maxLabelLen then (buf, Some PackLabelTooLong)
       else PackName_loop name (i + 1) (i + 1)
              (buf @ [word_of_nat n] @ bytes_of_string (slice start i name)))"
  by pat_completeness auto
termination
  by (relation "measure (\<lambda>(name, start, i, buf). Suc (length name) - i)") auto

declare PackName_loop.simps [simp del]

definition PackName :: "bytes \<Rightarrow> string \<Rightarrow> bytes \<times> packname_err option" where
  "PackName buf name =
    (let name = TrimSuffix name ''.'' in
       if name = [] then (buf @ [0], None)
       else if length name + 2 > maxNameLen then (buf, Some PackNameTooLong)
       else PackName_loop name 0 0 buf)"

definition AppendName :: "bytes \<Rightarrow> string \<Rightarrow> bytes" where
  "AppendName buf name = (case PackName buf name of (out, None) \<Rightarrow> out | (_, Some _) \<Rightarrow> buf @ [0])"

definition AppendOPT :: "bytes \<Rightarrow> u16 \<Rightarrow> bool \<Rightarrow> bytes" where
  "AppendOPT buf sz dobit =
    (let sz = (if sz = 0 then of_nat MaxEDNSUDPSize else sz);
         ttl = (if dobit then 0x00008000 else 0)
     in buf @ [0] @ PutUint16 TypeOPT @ PutUint16 sz @ PutUint32 ttl @ [0, 0])"

datatype pack_err = RDataTooLong

fun appendRRs :: "bytes \<Rightarrow> rr list \<Rightarrow> pack_err + bytes" where
  "appendRRs buf [] = Inr buf"
| "appendRRs buf (r # rs) =
    (let buf = AppendName buf (rr_Name r) in
       if length (rr_RData r) > 0xFFFF then Inl RDataTooLong
       else appendRRs
         (buf @ PutUint16 (rr_Type r) @ PutUint16 (rr_Class r) @ PutUint32 (rr_TTL r) @
          PutUint16 (word_of_nat (length (rr_RData r))) @ rr_RData r) rs)"

fun appendQuestions :: "bytes \<Rightarrow> question list \<Rightarrow> bytes" where
  "appendQuestions buf [] = buf"
| "appendQuestions buf (q # qs) =
     appendQuestions (AppendName buf (q_Name q) @ PutUint16 (q_Type q) @ PutUint16 (q_Class q)) qs"

text \<open>\<open>Pack\<close> writes the section counts into its receiver, so it returns the message too.\<close>

definition setCounts :: "message \<Rightarrow> message" where
  "setCounts m =
    m\<lparr>QDCount := word_of_nat (length (Questions m)), ANCount := word_of_nat (length (Answers m)),
      NSCount := word_of_nat (length (Authority m)),
      ARCount := word_of_nat (length (Additional m)) + (if EDNS0 m then 1 else 0)\<rparr>"

definition packHeader :: "message \<Rightarrow> bytes" where
  "packHeader m = PutUint16 (ID m) @ PutUint16 (Flags m) @ PutUint16 (QDCount m) @
     PutUint16 (ANCount m) @ PutUint16 (NSCount m) @ PutUint16 (ARCount m)"

definition Pack :: "message \<Rightarrow> message \<times> (pack_err + bytes)" where
  "Pack m =
    (let m = setCounts m;
         buf = appendQuestions (packHeader m) (Questions m)
     in (m, case appendRRs buf (Answers m) of
              Inl e \<Rightarrow> Inl e
            | Inr buf \<Rightarrow> (case appendRRs buf (Authority m) of
              Inl e \<Rightarrow> Inl e
            | Inr buf \<Rightarrow> (case appendRRs buf (Additional m) of
              Inl e \<Rightarrow> Inl e
            | Inr buf \<Rightarrow>
                Inr (if EDNS0 m then AppendOPT buf (EDNS0Size m) (EDNS0DO m) else buf)))))"

text \<open>The truncated reply that \<open>PackUDP\<close> falls back to: header, questions and EDNS data only.\<close>

definition truncated :: "message \<Rightarrow> message" where
  "truncated m = m\<lparr>Flags := Flags m OR FlagTC, Answers := [], Authority := [], Additional := []\<rparr>"

definition PackUDP :: "message \<Rightarrow> message \<times> (pack_err + bytes)" where
  "PackUDP m =
    (let limit = UDPSize m in
     case Pack m of
       (m, Inl e) \<Rightarrow> (m, Inl e)
     | (m, Inr out) \<Rightarrow>
         if length out \<le> limit then (m, Inr out)
         else let fallback = (m, snd (Pack (truncated m))) in
           if Additional m \<noteq> [] then
             (case snd (Pack (m\<lparr>Additional := []\<rparr>)) of
                Inl e \<Rightarrow> (m, Inl e)
              | Inr out \<Rightarrow> if length out \<le> limit then (m, Inr out) else fallback)
           else fallback)"

section \<open>Names on the wire\<close>

text \<open>The labels of a name and its wire form, as a reference for the two loops.\<close>

fun encLabels :: "bytes \<Rightarrow> string list \<Rightarrow> bytes \<times> packname_err option" where
  "encLabels buf [] = (buf @ [0], None)"
| "encLabels buf (w # ws) =
    (if w = [] then (buf, Some PackEmptyLabel)
     else if length w > maxLabelLen then (buf, Some PackLabelTooLong)
     else encLabels (buf @ word_of_nat (length w) # bytes_of_string w) ws)"

lemma PackName_loop_labels:
  assumes "start \<le> i" "i \<le> length name" "CHR ''.'' \<notin> set (slice start i name)"
  shows "PackName_loop name start i buf = encLabels buf (Split (drop start name) CHR ''.'')"
  using assms
proof (induction name start i buf rule: PackName_loop.induct)
  case (1 name start i buf)
  define s where "s = slice start i name"
  have ls: "length s = i - start" using 1(4) by (simp add: s_def)
  have dr: "drop start name = s @ drop i name"
    using 1(3,4) by (simp add: s_def slice_def) (metis append_take_drop_id drop_drop le_add_diff_inverse2)
  consider (skip) "i < length name" "name ! i \<noteq> CHR ''.''" | (dot) "i < length name" "name ! i = CHR ''.''" | (fin) "i = length name"
    using 1(4) by linarith
  then show ?case
  proof cases
    case skip
    have "slice start (i + 1) name = s @ [name ! i]"
      using skip 1(3) by (simp add: s_def slice_def Suc_diff_le take_Suc_conv_app_nth)
    then show ?thesis
      using skip 1 by (subst PackName_loop.simps) (simp add: s_def)
  next
    case dot
    then have di: "drop i name = CHR ''.'' # drop (Suc i) name"
      by (metis Cons_nth_drop_Suc)
    have sp: "Split (drop start name) CHR ''.'' = s # Split (drop (Suc i) name) CHR ''.''"
      using 1(5) by (simp add: dr di Split_append_sep s_def)
    have IH: "PackName_loop name (i + 1) (i + 1) b = encLabels b (Split (drop (i + 1) name) CHR ''.'')"
      if "i - start \<noteq> 0" "\<not> maxLabelLen < i - start" "b = buf @ [word_of_nat (i - start)] @ bytes_of_string (slice start i name)" for b
      using 1(2) [of "i - start"] dot that by simp
    show ?thesis
      using dot IH ls unfolding sp by (subst PackName_loop.simps) (auto simp: Let_def s_def [symmetric])
  next
    case fin
    have sp: "Split (drop start name) CHR ''.'' = [s]"
      using 1(5) fin by (simp add: dr Split_no_sep s_def)
    have end_eq: "PackName_loop name (i + 1) (i + 1) b = (b @ [0], None)" for b
      using fin by (subst PackName_loop.simps) simp
    have s': "slice start (length name) name = s" using fin by (simp add: s_def)
    show ?thesis
      using fin end_eq ls unfolding sp by (subst PackName_loop.simps) (auto simp: Let_def s')
  qed
qed

lemma PackName_labels:
  "PackName buf name =
    (let n = TrimSuffix name ''.'' in
      if n = [] then (buf @ [0], None)
      else if length n + 2 > maxNameLen then (buf, Some PackNameTooLong)
      else encLabels buf (Split n CHR ''.''))"
  by (simp add: PackName_def Let_def PackName_loop_labels)

definition labelBytes :: "string \<Rightarrow> bytes" where
  "labelBytes w = word_of_nat (length w) # bytes_of_string w"

definition wireLabels :: "string list \<Rightarrow> bytes" where
  "wireLabels ws = concat (map labelBytes ws) @ [0]"

definition labelOk :: "string \<Rightarrow> bool" where
  "labelOk w = (w \<noteq> [] \<and> length w \<le> maxLabelLen)"

lemma encLabels_ok: "list_all labelOk ws \<Longrightarrow> encLabels buf ws = (buf @ wireLabels ws, None)"
  by (induction ws arbitrary: buf) (auto simp: wireLabels_def labelBytes_def labelOk_def)

lemma encLabels_error: "snd (encLabels buf ws) = None \<longleftrightarrow> list_all labelOk ws"
  by (induction ws arbitrary: buf) (auto simp: labelOk_def)

lemma length_labelBytes [simp]: "length (labelBytes w) = length w + 1"
  by (simp add: labelBytes_def)

lemma length_wireLabels: "length (wireLabels ws) = sum_list (map (\<lambda>w. length w + 1) ws) + 1"
  by (simp add: wireLabels_def length_concat o_def)

text \<open>The names \<open>PackName\<close> accepts, without their optional final dot.\<close>

definition wireName :: "string \<Rightarrow> bool" where
  "wireName n = (n = [] \<or> length n \<le> 253 \<and> list_all labelOk (Split n CHR ''.''))"

definition nameLabels :: "string \<Rightarrow> string list" where
  "nameLabels n = (if n = [] then [] else Split n CHR ''.'')"

definition wireOfName :: "string \<Rightarrow> bytes" where
  "wireOfName n = wireLabels (nameLabels n)"

lemma PackName_ok_iff: "snd (PackName buf name) = None \<longleftrightarrow> wireName (TrimSuffix name ''.'')"
  by (auto simp: PackName_labels Let_def wireName_def encLabels_error)

lemma PackName_ok:
  "wireName (TrimSuffix name ''.'') \<Longrightarrow> PackName buf name = (buf @ wireOfName (TrimSuffix name ''.''), None)"
  by (auto simp: PackName_labels Let_def wireName_def encLabels_ok wireOfName_def nameLabels_def wireLabels_def)

lemma length_wireOfName: "length (wireOfName n) = (if n = [] then 1 else length n + 2)"
proof (cases "n = []")
  case False
  then have "length (Join (Split n CHR ''.'') ''.'') + 1 = sum_list (map (\<lambda>w. length w + 1) (Split n CHR ''.''))"
    by (intro length_Join) simp
  with False show ?thesis by (simp add: wireOfName_def nameLabels_def length_wireLabels)
qed (simp add: wireOfName_def nameLabels_def wireLabels_def)

lemma byte_and_C0: "(b::byte) AND 0xC0 = push_bit 6 (drop_bit 6 b)"
proof (rule bit_word_eqI)
  fix n :: nat
  assume "n < LENGTH(8)"
  then have "n \<in> {0,1,2,3,4,5,6,7}" by auto
  then show "bit (b AND 0xC0) n = bit (push_bit 6 (drop_bit 6 b)) n"
    by (auto simp: bit_simps)
qed

lemma byte_label_len: "(b::byte) AND 0xC0 = 0 \<longleftrightarrow> unat b < 64"
proof -
  have "push_bit 6 (drop_bit 6 b) = 0 \<longleftrightarrow> drop_bit 6 b = 0"
  proof
    assume "push_bit 6 (drop_bit 6 b) = 0"
    then have "drop_bit 6 (push_bit 6 (drop_bit 6 b)) = 0" by simp
    moreover have "drop_bit 6 (push_bit 6 (drop_bit 6 b)) = drop_bit 6 b"
      by (rule bit_word_eqI) (auto simp: bit_simps dest: bit_imp_le_length)
    ultimately show "drop_bit 6 b = 0" by simp
  qed simp
  moreover have "drop_bit 6 b = 0 \<longleftrightarrow> unat b < 64"
    by (simp add: word_eq_iff_unsigned [where 'a = nat] drop_bit_eq_div unat_div div_eq_0_iff)
  ultimately show ?thesis by (simp add: byte_and_C0)
qed

lemma labelOk_byte:
  assumes "labelOk w"
  shows "(word_of_nat (length w) :: byte) AND 0xC0 = 0"
    and "unat (word_of_nat (length w) :: byte) = length w"
    and "(word_of_nat (length w) :: byte) \<noteq> 0"
proof -
  show u: "unat (word_of_nat (length w) :: byte) = length w"
    using assms by (simp add: labelOk_def unat_of_nat)
  then show "(word_of_nat (length w) :: byte) AND 0xC0 = 0"
    using assms by (simp add: byte_label_len labelOk_def)
  show "(word_of_nat (length w) :: byte) \<noteq> 0"
    using u assms by (auto simp: labelOk_def)
qed

text \<open>The name that the labels \<open>ws\<close> add to what has been read so far.\<close>

definition joinTo :: "string \<Rightarrow> string list \<Rightarrow> string" where
  "joinTo sb ws = (if sb = [] then Join ws ''.'' else sb @ concat (map ((#) CHR ''.'') ws))"

lemma Join_Cons: "Join (w # ws) ''.'' = w @ concat (map ((#) CHR ''.'') ws)"
  by (induction ws arbitrary: w) auto

lemma joinTo_Cons: "w \<noteq> [] \<Longrightarrow> joinTo sb (w # ws) = joinTo ((if sb \<noteq> [] then sb @ ''.'' else sb) @ w) ws"
  by (auto simp: joinTo_def Join_Cons)

lemma ParseName_loop_zero:
  "ParseName_loop (pre @ 0 # rest) sb (length pre) followed e hops nl =
     Inr (if sb = [] then ''.'' else sb, if followed then e else length pre + 1)"
  by (subst ParseName_loop.simps) (auto simp: Let_def)

lemma ParseName_loop_label:
  assumes "labelOk w" "nl + length w + 1 \<le> maxNameLen"
  shows "ParseName_loop (pre @ labelBytes w @ rest) sb (length pre) followed e hops nl =
    ParseName_loop (pre @ labelBytes w @ rest) ((if sb \<noteq> [] then sb @ ''.'' else sb) @ w)
      (length pre + length w + 1) followed e hops (nl + length w + 1)"
proof -
  have sl: "slice (length pre + 1) (length pre + 1 + length w) (pre @ labelBytes w @ rest) = bytes_of_string w"
    using slice_append_right [of _ "pre @ [word_of_nat (length w)]" _ "bytes_of_string w" rest]
    by (simp add: labelBytes_def)
  show ?thesis
    using assms sl labelOk_byte [OF assms(1)]
    by (subst ParseName_loop.simps) (auto simp: Let_def labelBytes_def labelOk_def ac_simps)
qed

lemma ParseName_loop_wireLabels:
  assumes "list_all labelOk ws" "nl + sum_list (map (\<lambda>w. length w + 1) ws) \<le> maxNameLen"
  shows "ParseName_loop (pre @ wireLabels ws @ rest) sb (length pre) False e hops nl =
    Inr (if joinTo sb ws = [] then ''.'' else joinTo sb ws, length pre + length (wireLabels ws))"
  using assms
proof (induction ws arbitrary: pre sb nl)
  case Nil
  then show ?case by (simp add: wireLabels_def ParseName_loop_zero joinTo_def)
next
  case (Cons w ws)
  have w: "labelOk w" "w \<noteq> []" using Cons.prems by (auto simp: labelOk_def)
  have eq: "wireLabels (w # ws) = labelBytes w @ wireLabels ws" by (simp add: wireLabels_def)
  have "ParseName_loop (pre @ wireLabels (w # ws) @ rest) sb (length pre) False e hops nl =
    ParseName_loop ((pre @ labelBytes w) @ wireLabels ws @ rest) ((if sb \<noteq> [] then sb @ ''.'' else sb) @ w)
      (length (pre @ labelBytes w)) False e hops (nl + length w + 1)"
    using ParseName_loop_label [OF w(1), of nl pre "wireLabels ws @ rest"] Cons.prems(2)
    by (simp add: eq)
  also have "\<dots> = Inr (if joinTo sb (w # ws) = [] then ''.'' else joinTo sb (w # ws),
      length pre + length (wireLabels (w # ws)))"
    using Cons.prems w(2) by (subst Cons.IH) (auto simp: joinTo_Cons eq)
  finally show ?case .
qed

text \<open>The name a decoder reports: the root as a dot, any other name without its final dot.\<close>

definition canonName :: "string \<Rightarrow> string" where
  "canonName name = (let n = TrimSuffix name ''.'' in if n = [] then ''.'' else n)"

lemma ParseName_wireOfName:
  assumes "wireName n"
  shows "ParseName (pre @ wireOfName n @ rest) (length pre) =
    Inr (if n = [] then ''.'' else n, length pre + length (wireOfName n))"
proof -
  have "1 + sum_list (map (\<lambda>w. length w + 1) (nameLabels n)) \<le> maxNameLen"
    using assms length_wireLabels [of "nameLabels n"] length_wireOfName [of n]
    by (auto simp: wireOfName_def wireName_def split: if_splits)
  moreover have "list_all labelOk (nameLabels n)"
    using assms by (auto simp: wireName_def nameLabels_def)
  moreover have "joinTo [] (nameLabels n) = n"
    by (simp add: joinTo_def nameLabels_def)
  ultimately show ?thesis
    unfolding ParseName_def wireOfName_def by (subst ParseName_loop_wireLabels) auto
qed

lemma ParseName_loop_bounds:
  assumes "ParseName_loop buf sb nxt followed endOff hops nameLen = Inr (name, e)"
    and "followed \<Longrightarrow> off < endOff \<and> endOff \<le> length buf" and "\<not> followed \<Longrightarrow> off \<le> nxt"
    and "sb = [] \<or> length sb + 2 \<le> nameLen" and "0 < nameLen" and "nameLen \<le> maxNameLen"
  shows "off < e \<and> e \<le> length buf \<and> name \<noteq> [] \<and> length name \<le> 253"
  using assms
proof (induction buf sb nxt followed endOff hops nameLen rule: ParseName_loop.induct)
  case (1 buf sb nxt followed endOff hops nameLen)
  define b where "b = buf ! nxt"
  have nx: "nxt < length buf"
    using 1(3) by (subst (asm) ParseName_loop.simps) (auto split: if_splits)
  consider (zero) "b = 0" | (label) "b \<noteq> 0" "b AND 0xC0 = 0" | (ptr) "b AND 0xC0 \<noteq> 0" by blast
  then show ?case
  proof cases
    case zero
    have "b AND 0xC0 = 0" using zero by simp
    then show ?thesis
      using 1(3-) zero nx by (subst (asm) ParseName_loop.simps) (auto simp: b_def Let_def split: if_splits)
  next
    case label
    let ?sb = "(if sb \<noteq> [] then sb @ ''.'' else sb) @ string_of_bytes (slice (nxt + 1) (nxt + 1 + unat b) buf)"
    have r: "ParseName_loop buf ?sb (nxt + 1 + unat b) followed endOff hops (nameLen + (1 + unat b)) = Inr (name, e)"
      and g: "\<not> unat b > maxLabelLen" "\<not> nxt + 1 + unat b > length buf" "\<not> nameLen + (1 + unat b) > maxNameLen"
      using 1(3) label nx by (subst (asm) ParseName_loop.simps; auto simp: b_def Let_def split: if_splits)+
    have "unat b > 0" using label by (simp add: unat_gt_0)
    then have "?sb = [] \<or> length ?sb + 2 \<le> nameLen + (1 + unat b)"
      using 1(6,7) g by (auto simp: slice_def split: if_splits)
    moreover have "\<not> followed \<Longrightarrow> off \<le> nxt + 1 + unat b" using 1(5) by simp
    ultimately show ?thesis
      using 1(1) [of b "nxt + 1" "nxt + 1 + unat b" "nameLen + (1 + unat b)"] nx label r g 1(4,7)
      by (simp add: b_def not_le)
  next
    case ptr
    have c: "b AND 0xC0 = 0xC0" using 1(3) ptr nx
      by (subst (asm) ParseName_loop.simps) (auto simp: b_def Let_def split: if_splits)
    let ?ptr = "push_bit 8 (unat (b AND 0x3F)) OR unat (buf ! (nxt + 1))"
    have r: "ParseName_loop buf sb ?ptr True (if \<not> followed then nxt + 2 else endOff) (hops + 1) nameLen = Inr (name, e)"
      and g: "\<not> nxt + 1 \<ge> length buf" "\<not> hops + 1 > maxPointerHops"
      using 1(3) c nx by (subst (asm) ParseName_loop.simps; auto simp: b_def Let_def split: if_splits)+
    show ?thesis
      using 1(2) [of b ?ptr "if \<not> followed then nxt + 2 else endOff" "hops + 1"] nx c r g 1(4-)
      by (simp add: b_def split: if_splits)
  qed
qed

lemma ParseName_bounds:
  assumes "ParseName buf off = Inr (name, e)"
  shows "off < e" "e \<le> length buf" "name \<noteq> []" "length name \<le> 253"
  using ParseName_loop_bounds [OF assms [unfolded ParseName_def], of off] by auto

section \<open>Messages on the wire\<close>

text \<open>What \<open>AppendName\<close> appends: the name's wire form, or the root where the name has none.\<close>

definition nameWire :: "string \<Rightarrow> bytes" where
  "nameWire name = (let n = TrimSuffix name ''.'' in if wireName n then wireOfName n else [0])"

lemma AppendName_eq: "AppendName buf name = buf @ nameWire name"
proof (cases "wireName (TrimSuffix name ''.'')")
  case True
  then show ?thesis by (simp add: AppendName_def PackName_ok nameWire_def)
next
  case False
  then have "snd (PackName buf name) \<noteq> None" by (simp add: PackName_ok_iff)
  with False show ?thesis
    by (auto simp: AppendName_def nameWire_def split: prod.splits option.splits)
qed

lemma length_nameWire: "1 \<le> length (nameWire name)" "length (nameWire name) \<le> 255"
  by (auto simp: nameWire_def Let_def length_wireOfName wireName_def)

definition encQuestion :: "question \<Rightarrow> bytes" where
  "encQuestion q = nameWire (q_Name q) @ PutUint16 (q_Type q) @ PutUint16 (q_Class q)"

definition encRR :: "rr \<Rightarrow> bytes" where
  "encRR r = nameWire (rr_Name r) @ PutUint16 (rr_Type r) @ PutUint16 (rr_Class r) @
     PutUint32 (rr_TTL r) @ PutUint16 (word_of_nat (length (rr_RData r))) @ rr_RData r"

definition fitsRR :: "rr \<Rightarrow> bool" where
  "fitsRR r = (length (rr_RData r) \<le> 0xFFFF)"

lemma appendQuestions_eq: "appendQuestions buf qs = buf @ concat (map encQuestion qs)"
  by (induction qs arbitrary: buf) (auto simp: AppendName_eq encQuestion_def)

lemma appendRRs_eq:
  "appendRRs buf rs = (if list_all fitsRR rs then Inr (buf @ concat (map encRR rs)) else Inl RDataTooLong)"
  by (induction rs arbitrary: buf) (auto simp: AppendName_eq encRR_def fitsRR_def Let_def)

definition encOPT :: "message \<Rightarrow> bytes" where
  "encOPT m = (if EDNS0 m then AppendOPT [] (EDNS0Size m) (EDNS0DO m) else [])"

lemma AppendOPT_eq: "AppendOPT buf sz d = buf @ AppendOPT [] sz d"
  by (simp add: AppendOPT_def)

lemma length_encOPT: "length (encOPT m) = (if EDNS0 m then 11 else 0)"
  by (simp add: encOPT_def AppendOPT_def Let_def)

definition fits :: "message \<Rightarrow> bool" where
  "fits m = (list_all fitsRR (Answers m) \<and> list_all fitsRR (Authority m) \<and> list_all fitsRR (Additional m))"

definition wire :: "message \<Rightarrow> bytes" where
  "wire m = packHeader (setCounts m) @ concat (map encQuestion (Questions m)) @
     concat (map encRR (Answers m)) @ concat (map encRR (Authority m)) @
     concat (map encRR (Additional m)) @ encOPT m"

lemma setCounts_fields [simp]:
  "Questions (setCounts m) = Questions m" "Answers (setCounts m) = Answers m"
  "Authority (setCounts m) = Authority m" "Additional (setCounts m) = Additional m"
  "EDNS0 (setCounts m) = EDNS0 m" "EDNS0Size (setCounts m) = EDNS0Size m"
  "EDNS0DO (setCounts m) = EDNS0DO m" "Flags (setCounts m) = Flags m" "ID (setCounts m) = ID m"
  by (simp_all add: setCounts_def)

lemma Pack_eq: "Pack m = (setCounts m, if fits m then Inr (wire m) else Inl RDataTooLong)"
  by (auto simp: Pack_def Let_def appendQuestions_eq appendRRs_eq fits_def wire_def encOPT_def
      AppendOPT_eq [where buf = "_ @ _"])

lemma length_packHeader [simp]: "length (packHeader m) = 12"
  by (simp add: packHeader_def)

subsection \<open>Round trip of whole messages\<close>

definition wfName :: "string \<Rightarrow> bool" where
  "wfName n = (canonName n = n \<and> wireName (TrimSuffix n ''.''))"

definition wfRR :: "rr \<Rightarrow> bool" where
  "wfRR r = (wfName (rr_Name r) \<and> fitsRR r)"

definition wfMessage :: "message \<Rightarrow> bool" where
  "wfMessage m = (list_all (\<lambda>q. wfName (q_Name q)) (Questions m) \<and>
     list_all wfRR (Answers m) \<and> list_all wfRR (Authority m) \<and>
     list_all (\<lambda>r. wfRR r \<and> rr_Type r \<noteq> TypeOPT) (Additional m) \<and>
     length (Questions m) < 65536 \<and> length (Answers m) < 65536 \<and> length (Authority m) < 65536 \<and>
     length (Additional m) < 65535 \<and>
     (if EDNS0 m then EDNS0Size m \<noteq> 0 else EDNS0Size m = 0 \<and> \<not> EDNS0DO m))"

lemma ParseName_nameWire:
  "wfName n \<Longrightarrow> ParseName (pre @ nameWire n @ rest) (length pre) = Inr (n, length pre + length (nameWire n))"
  using ParseName_wireOfName [of "TrimSuffix n ''.''" pre rest]
  by (auto simp: wfName_def nameWire_def canonName_def Let_def split: if_splits)

lemma parseQuestions_enc:
  "list_all (\<lambda>q. wfName (q_Name q)) qs \<Longrightarrow>
   parseQuestions (pre @ concat (map encQuestion qs) @ rest) (length pre) (length qs) =
     Inr (qs, length pre + length (concat (map encQuestion qs)))"
proof (induction qs arbitrary: pre)
  case (Cons q qs)
  let ?p = "pre @ nameWire (q_Name q)"
  let ?r = "concat (map encQuestion qs) @ rest"
  have pn: "ParseName (?p @ PutUint16 (q_Type q) @ PutUint16 (q_Class q) @ ?r) (length pre) = Inr (q_Name q, length ?p)"
    using ParseName_nameWire [of "q_Name q" pre "PutUint16 (q_Type q) @ PutUint16 (q_Class q) @ ?r"] Cons.prems by simp
  have IH: "parseQuestions (?p @ PutUint16 (q_Type q) @ PutUint16 (q_Class q) @ ?r) (length ?p + 4) (length qs) =
     Inr (qs, length ?p + 4 + length (concat (map encQuestion qs)))"
    using Cons.IH [of "?p @ PutUint16 (q_Type q) @ PutUint16 (q_Class q)"] Cons.prems by (simp add: add.assoc)
  have "parseQuestions (?p @ PutUint16 (q_Type q) @ PutUint16 (q_Class q) @ ?r) (length pre) (Suc (length qs)) =
     Inr (q # qs, length ?p + 4 + length (concat (map encQuestion qs)))"
    unfolding parseQuestions.simps pn
    by (simp only: sum.case prod.case IH slice_off Let_def) (simp add: slice_simps)
  then show ?case by (simp add: encQuestion_def [of q] del: parseQuestions.simps)
qed simp

lemma parseRRs_enc:
  "list_all wfRR rs \<Longrightarrow>
   parseRRs (pre @ concat (map encRR rs) @ rest) (length pre) (length rs) =
     Inr (rs, length pre + length (concat (map encRR rs)))"
proof (induction rs arbitrary: pre)
  case (Cons r rs)
  let ?p = "pre @ nameWire (rr_Name r)"
  let ?h = "PutUint16 (rr_Type r) @ PutUint16 (rr_Class r) @
     PutUint32 (rr_TTL r) @ PutUint16 (word_of_nat (length (rr_RData r)))"
  let ?r = "concat (map encRR rs) @ rest"
  let ?b = "?p @ ?h @ rr_RData r @ ?r"
  have pn: "ParseName ?b (length pre) = Inr (rr_Name r, length ?p)"
    using ParseName_nameWire [of "rr_Name r" pre "?h @ rr_RData r @ ?r"] Cons.prems by (simp add: wfRR_def)
  have IH: "parseRRs ?b (length ?p + 10 + length (rr_RData r)) (length rs) =
     Inr (rs, length ?p + 10 + length (rr_RData r) + length (concat (map encRR rs)))"
    using Cons.IH [of "?p @ ?h @ rr_RData r"] Cons.prems by (simp add: algebra_simps)
  have "slice (length ?p + 8) (length ?p + 10) ?b = slice 8 10 (?h @ rr_RData r @ ?r)"
    by (rule slice_off)
  then have len: "unat (Uint16 (slice (length ?p + 8) (length ?p + 10) ?b)) = length (rr_RData r)"
    using Cons.prems by (simp add: slice_simps wfRR_def fitsRR_def unat_word_of_nat16)
  have rd: "slice (length ?p + 10) (length ?p + 10 + length (rr_RData r)) ?b = rr_RData r"
    using slice_append_right [OF refl refl, of "?p @ ?h" "rr_RData r" ?r] by (simp add: add.assoc)
  have "parseRRs ?b (length pre) (Suc (length rs)) =
     Inr (r # rs, length ?p + 10 + length (rr_RData r) + length (concat (map encRR rs)))"
    unfolding parseRRs.simps pn
    by (simp only: sum.case prod.case Let_def len rd IH, simp only: slice_off, simp add: slice_simps)
  then show ?case by (simp add: encRR_def [of r] add.assoc del: parseRRs.simps)
qed simp

lemma length_encQuestions: "5 * length qs \<le> length (concat (map encQuestion qs))"
proof (induction qs)
  case (Cons q qs)
  then show ?case using length_nameWire(1) [of "q_Name q"] by (simp add: encQuestion_def)
qed simp

lemma length_encRRs: "11 * length rs \<le> length (concat (map encRR rs))"
proof (induction rs)
  case (Cons r rs)
  then show ?case using length_nameWire(1) [of "rr_Name r"] by (simp add: encRR_def)
qed simp

lemma parseRRSection_enc:
  assumes "list_all wfRR rs" "length rs < 65536"
  shows "parseRRSection (pre @ concat (map encRR rs) @ rest) (length pre) (word_of_nat (length rs)) =
     Inr (rs, length pre + length (concat (map encRR rs)))"
proof -
  have u: "unat (word_of_nat (length rs) :: u16) = length rs" using assms(2) by (rule unat_word_of_nat16)
  have "rs = []" if "(word_of_nat (length rs) :: u16) = 0" using u that by simp
  then show ?thesis
    using parseRRs_enc [OF assms(1), of pre rest] length_encRRs [of rs] u
    by (auto simp: parseRRSection_def)
qed

text \<open>The OPT record that \<open>Pack\<close> appends for a message with EDNS data.\<close>

definition optRR :: "message \<Rightarrow> rr" where
  "optRR m = \<lparr>rr_Name = ''.'', rr_Type = TypeOPT, rr_Class = EDNS0Size m,
     rr_TTL = (if EDNS0DO m then 0x00008000 else 0), rr_RData = []\<rparr>"

definition allAdditional :: "message \<Rightarrow> rr list" where
  "allAdditional m = Additional m @ (if EDNS0 m then [optRR m] else [])"

lemma nameWire_root: "nameWire ''.'' = [0]"
  by (simp add: nameWire_def TrimSuffix_def HasSuffix_def wireName_def wireOfName_def nameLabels_def
      wireLabels_def Let_def)

lemma wfName_root: "wfName ''.''"
  by (simp add: wfName_def canonName_def TrimSuffix_def HasSuffix_def wireName_def)

lemma PutUint16_zero: "PutUint16 0 = [0, 0]"
  by (simp add: PutUint16_def)

lemma encAdditional:
  "EDNS0 m \<Longrightarrow> EDNS0Size m \<noteq> 0 \<Longrightarrow> encOPT m = encRR (optRR m)"
  by (simp add: encOPT_def AppendOPT_def encRR_def optRR_def nameWire_root PutUint16_zero)

lemma takeOPT_none:
  "list_all (\<lambda>r. rr_Type r \<noteq> TypeOPT) rs \<Longrightarrow> takeOPT m f (rs @ ss) = takeOPT m (f @ rs) ss"
  by (induction rs arbitrary: f) auto

lemma takeOPT_all:
  assumes "wfMessage m" "EDNS0 m' = False" "EDNS0DO m' = False" "EDNS0Size m' = 0"
  shows "takeOPT m' [] (allAdditional m) =
    m'\<lparr>Additional := Additional m, EDNS0 := EDNS0 m, EDNS0DO := EDNS0DO m, EDNS0Size := EDNS0Size m\<rparr>"
proof -
  have "list_all (\<lambda>r. rr_Type r \<noteq> TypeOPT) (Additional m)"
    using assms(1) by (auto simp: wfMessage_def list_all_iff)
  then show ?thesis
    using assms takeOPT_none [of "Additional m" m' "[]"]
    by (auto simp: allAdditional_def optRR_def wfMessage_def split: if_splits)
qed

lemma ParseMessage_wire:
  assumes wf: "wfMessage m"
  shows "ParseMessage (wire m) = Inr (setCounts m)"
proof -
  let ?H = "packHeader (setCounts m)"
  let ?Q = "concat (map encQuestion (Questions m))"
  let ?A = "concat (map encRR (Answers m))"
  let ?N = "concat (map encRR (Authority m))"
  let ?D = "concat (map encRR (allAdditional m))"
  have w: "wire m = ?H @ ?Q @ ?A @ ?N @ ?D"
    using wf encAdditional [of m] by (auto simp: wire_def allAdditional_def wfMessage_def encOPT_def)
  have hdr: "Uint16 (slice 0 2 (wire m)) = ID m" "Uint16 (slice 2 4 (wire m)) = Flags m"
      "Uint16 (slice 4 6 (wire m)) = QDCount (setCounts m)" "Uint16 (slice 6 8 (wire m)) = ANCount (setCounts m)"
      "Uint16 (slice 8 10 (wire m)) = NSCount (setCounts m)" "Uint16 (slice 10 12 (wire m)) = ARCount (setCounts m)"
    by (simp_all add: w packHeader_def slice_simps)
  have wfs: "list_all wfRR (allAdditional m)" "length (allAdditional m) < 65536"
    using wf by (auto simp: allAdditional_def wfMessage_def optRR_def wfRR_def wfName_root fitsRR_def list_all_iff)
  have cnt: "unat (QDCount (setCounts m)) = length (Questions m)"
      "ANCount (setCounts m) = word_of_nat (length (Answers m))"
      "NSCount (setCounts m) = word_of_nat (length (Authority m))"
      "ARCount (setCounts m) = word_of_nat (length (allAdditional m))"
    using wf by (auto simp: setCounts_def wfMessage_def unat_word_of_nat16 allAdditional_def)
  have q: "parseQuestions (wire m) 12 (length (Questions m)) = Inr (Questions m, 12 + length ?Q)"
    using parseQuestions_enc [of "Questions m" ?H "?A @ ?N @ ?D"] wf by (simp add: w wfMessage_def)
  have a: "parseRRSection (wire m) (12 + length ?Q) (word_of_nat (length (Answers m))) =
      Inr (Answers m, 12 + length ?Q + length ?A)"
    using parseRRSection_enc [of "Answers m" "?H @ ?Q" "?N @ ?D"] wf by (simp add: w wfMessage_def add.assoc)
  have n: "parseRRSection (wire m) (12 + length ?Q + length ?A) (word_of_nat (length (Authority m))) =
      Inr (Authority m, 12 + length ?Q + length ?A + length ?N)"
    using parseRRSection_enc [of "Authority m" "?H @ ?Q @ ?A" ?D] wf by (simp add: w wfMessage_def add.assoc)
  have d: "parseRRSection (wire m) (12 + length ?Q + length ?A + length ?N) (word_of_nat (length (allAdditional m))) =
      Inr (allAdditional m, 12 + length ?Q + length ?A + length ?N + length ?D)"
    using parseRRSection_enc [OF wfs, of "?H @ ?Q @ ?A @ ?N" "[]"] by (simp add: w add.assoc)
  have "\<not> length (wire m) < 12" "\<not> length (Questions m) * 5 > length (wire m) - 12"
    using length_encQuestions [of "Questions m"] by (simp_all add: w)
  then show ?thesis
    unfolding ParseMessage_def
    by (simp add: Let_def hdr q cnt a n d takeOPT_all [OF wf] zero_message_def)
qed

lemma UDPSize_bounds: "MaxUDPMessageSize \<le> UDPSize m" "UDPSize m \<le> MaxEDNSUDPSize"
  by (auto simp: UDPSize_def Let_def)

lemma fits_truncated [simp]: "fits (truncated m)"
  by (simp add: fits_def truncated_def)

lemma truncated_fields [simp]:
  "Answers (truncated m) = []" "Authority (truncated m) = []" "Additional (truncated m) = []"
  "Questions (truncated m) = Questions m" "Flags (truncated m) = Flags m OR FlagTC"
  "ID (truncated m) = ID m"
  by (simp_all add: truncated_def)

lemma setCounts_idem [simp]:
  "setCounts (setCounts m) = setCounts m"
  "setCounts (truncated (setCounts m)) = setCounts (truncated m)"
  "setCounts ((setCounts m)\<lparr>Additional := rs\<rparr>) = setCounts (m\<lparr>Additional := rs\<rparr>)"
  by (simp_all add: setCounts_def truncated_def)

lemma wire_setCounts [simp]:
  "wire (truncated (setCounts m)) = wire (truncated m)"
  "wire ((setCounts m)\<lparr>Additional := rs\<rparr>) = wire (m\<lparr>Additional := rs\<rparr>)"
  by (simp_all add: wire_def, simp_all add: truncated_def encOPT_def)

lemma PackUDP_eq:
  "snd (PackUDP m) =
    (if \<not> fits m then Inl RDataTooLong
     else if length (wire m) \<le> UDPSize m then Inr (wire m)
     else if length (wire (m\<lparr>Additional := []\<rparr>)) \<le> UDPSize m then Inr (wire (m\<lparr>Additional := []\<rparr>))
     else Inr (wire (truncated m)))"
proof (cases "Additional m = []")
  case True
  then have eq: "m\<lparr>Additional := []\<rparr> = m" by (cases m) simp
  show ?thesis by (simp add: PackUDP_def Pack_eq Let_def True eq)
next
  case False
  then show ?thesis by (auto simp: PackUDP_def Pack_eq Let_def fits_def)
qed

lemma length_wire_truncated:
  "length (Questions m) \<le> 1 \<Longrightarrow> length (wire (truncated m)) \<le> 282"
proof (cases "Questions m")
  case (Cons q qs)
  assume "length (Questions m) \<le> 1"
  then show ?thesis
    using Cons length_nameWire(2) [of "q_Name q"]
    by (simp add: wire_def truncated_def length_encOPT encQuestion_def)
qed (simp add: wire_def truncated_def length_encOPT)

subsection \<open>Flag words\<close>

lemma and_15_le: "(r::int) AND 15 = r mod 16"
  using take_bit_eq_mask [of 4 r] take_bit_eq_mod [of 4 r] by (simp add: mask_eq_exp_minus_1)

lemma Flags_SetRcode [simp]: "Flags (SetRcode m r) = (Flags m AND NOT 15) OR word_of_int (r AND 15)"
  by (simp add: SetRcode_def)

lemma low_nibble_join: "((f::u16) AND NOT 15 OR word_of_int (r AND 15)) AND 15 = word_of_int (r AND 15)"
  by (rule bit_word_eqI) (auto simp: bit_simps)

lemma high_bits_join: "((f::u16) AND NOT 15 OR word_of_int (r AND 15)) AND NOT 15 = f AND NOT 15"
  by (rule bit_word_eqI) (auto simp: bit_simps)

lemma Rcode_SetRcode: "Rcode (SetRcode m r) = r mod 16"
proof -
  have "Rcode (SetRcode m r) = uint (word_of_int (r mod 16) :: u16)"
    unfolding Rcode_def Flags_SetRcode low_nibble_join by (simp only: and_15_le)
  moreover have "0 \<le> r mod 16" "r mod 16 < 65536" using pos_mod_bound [of 16 r] by simp_all
  ultimately show ?thesis by (simp add: uint_word_of_int)
qed

lemma Opcode_eq: "Opcode m = uint (drop_bit 11 (Flags m) AND 15)"
  by (simp add: Opcode_def uint_and)

lemma parseQuestions_bounds:
  "parseQuestions buf off n = Inr (qs, off') \<Longrightarrow> off \<le> length buf \<Longrightarrow>
   length qs = n \<and> off + 5 * n \<le> off' \<and> off' \<le> length buf \<and>
   list_all (\<lambda>q. q_Name q \<noteq> [] \<and> length (q_Name q) \<le> 253) qs"
proof (induction buf off n arbitrary: qs rule: parseQuestions.induct)
  case (2 buf off n)
  obtain name nxt where pn: "ParseName buf off = Inr (name, nxt)"
    using 2(2) by (auto split: sum.splits)
  with 2(2) obtain qs' where le: "nxt + 4 \<le> length buf"
    and rec: "parseQuestions buf (nxt + 4) n = Inr (qs', off')"
    and qs: "qs = \<lparr>q_Name = name, q_Type = Uint16 (slice nxt (nxt + 2) buf),
      q_Class = Uint16 (slice (nxt + 2) (nxt + 4) buf)\<rparr> # qs'"
    by (auto simp: Let_def split: sum.splits if_splits)
  have IH: "length qs' = n \<and> nxt + 4 + 5 * n \<le> off' \<and> off' \<le> length buf \<and>
      list_all (\<lambda>q. q_Name q \<noteq> [] \<and> length (q_Name q) \<le> 253) qs'"
    using 2(1) [OF pn refl _ refl rec le] le by simp
  with ParseName_bounds [OF pn] show ?case by (simp add: qs)
qed simp

lemma parseRRs_bounds:
  "parseRRs buf off n = Inr (rs, off') \<Longrightarrow> off \<le> length buf \<Longrightarrow>
   length rs = n \<and> off + sum_list (map (\<lambda>r. 11 + length (rr_RData r)) rs) \<le> off' \<and> off' \<le> length buf \<and>
   list_all (\<lambda>r. rr_Name r \<noteq> [] \<and> length (rr_Name r) \<le> 253) rs"
proof (induction buf off n arbitrary: rs rule: parseRRs.induct)
  case (2 buf off n)
  obtain name nxt where pn: "ParseName buf off = Inr (name, nxt)"
    using 2(2) by (auto split: sum.splits)
  define rdlen where "rdlen = unat (Uint16 (slice (nxt + 8) (nxt + 10) buf))"
  from 2(2) pn obtain r rs' where le: "nxt + 10 + rdlen \<le> length buf"
    and rec: "parseRRs buf (nxt + 10 + rdlen) n = Inr (rs', off')"
    and rs: "rs = r # rs'" and r: "rr_Name r = name" "rr_RData r = slice (nxt + 10) (nxt + 10 + rdlen) buf"
    by (auto simp: Let_def rdlen_def split: sum.splits if_splits)
  have IH: "length rs' = n \<and> nxt + 10 + rdlen + sum_list (map (\<lambda>r. 11 + length (rr_RData r)) rs') \<le> off' \<and>
      off' \<le> length buf \<and> list_all (\<lambda>r. rr_Name r \<noteq> [] \<and> length (rr_Name r) \<le> 253) rs'"
    using 2(1) [OF pn refl _ refl refl refl refl refl _ refl refl, folded rdlen_def, OF _ _ rec le] le by simp
  with ParseName_bounds [OF pn] le show ?case by (simp add: rs r)
qed simp

lemma parseRRSection_bounds:
  "parseRRSection buf off c = Inr (rs, off') \<Longrightarrow> off \<le> length buf \<Longrightarrow>
   length rs = unat c \<and> off + sum_list (map (\<lambda>r. 11 + length (rr_RData r)) rs) \<le> off' \<and> off' \<le> length buf \<and>
   list_all (\<lambda>r. rr_Name r \<noteq> [] \<and> length (rr_Name r) \<le> 253) rs"
  using parseRRs_bounds [of buf off "unat c" rs off']
  by (auto simp: parseRRSection_def split: if_splits)

lemma takeOPT_fields:
  "Questions (takeOPT m f rs) = Questions m" "Answers (takeOPT m f rs) = Answers m"
  "Authority (takeOPT m f rs) = Authority m" "QDCount (takeOPT m f rs) = QDCount m"
  "ANCount (takeOPT m f rs) = ANCount m" "NSCount (takeOPT m f rs) = NSCount m"
  "ID (takeOPT m f rs) = ID m" "Flags (takeOPT m f rs) = Flags m" "ARCount (takeOPT m f rs) = ARCount m"
  "Additional (takeOPT m f rs) = f @ filter (\<lambda>r. rr_Type r \<noteq> TypeOPT) rs"
  by (induction m f rs rule: takeOPT.induct) auto

definition rrBytes :: "rr list \<Rightarrow> nat" where
  "rrBytes rs = sum_list (map (\<lambda>r. 11 + length (rr_RData r)) rs)"

lemma rrBytes_filter: "rrBytes (filter P rs) \<le> rrBytes rs"
  by (induction rs) (auto simp: rrBytes_def)

lemma ParseMessage_cases:
  assumes "ParseMessage buf = Inr m"
  obtains qs an ns ar o1 o2 o3 o4 m0 where
    "12 \<le> length buf"
    "parseQuestions buf 12 (unat (QDCount m0)) = Inr (qs, o1)"
    "parseRRSection buf o1 (ANCount m0) = Inr (an, o2)"
    "parseRRSection buf o2 (NSCount m0) = Inr (ns, o3)"
    "parseRRSection buf o3 (ARCount m0) = Inr (ar, o4)"
    "m = takeOPT (m0\<lparr>Questions := qs, Answers := an, Authority := ns, Additional := ar\<rparr>) [] ar"
    "ID m0 = Uint16 (slice 0 2 buf)" "Flags m0 = Uint16 (slice 2 4 buf)"
proof -
  define m0 where "m0 = zero_message\<lparr>
              ID := Uint16 (slice 0 2 buf), Flags := Uint16 (slice 2 4 buf),
              QDCount := Uint16 (slice 4 6 buf), ANCount := Uint16 (slice 6 8 buf),
              NSCount := Uint16 (slice 8 10 buf), ARCount := Uint16 (slice 10 12 buf)\<rparr>"
  have "ID m0 = Uint16 (slice 0 2 buf)" "Flags m0 = Uint16 (slice 2 4 buf)" by (simp_all add: m0_def)
  then show ?thesis
    using assms unfolding ParseMessage_def m0_def [symmetric] Let_def
    by (auto split: if_splits sum.splits prod.splits intro!: that)
qed

lemma ParseMessage_bounds:
  assumes "ParseMessage buf = Inr m"
  shows "12 + 5 * length (Questions m) + rrBytes (Answers m) + rrBytes (Authority m) +
      rrBytes (Additional m) \<le> length buf"
    and "length (Questions m) = unat (QDCount m)" "length (Answers m) = unat (ANCount m)"
      "length (Authority m) = unat (NSCount m)" "length (Additional m) \<le> unat (ARCount m)"
    and "list_all (\<lambda>q. q_Name q \<noteq> [] \<and> length (q_Name q) \<le> 253) (Questions m)"
proof -
  from assms obtain qs an ns ar o1 o2 o3 o4 m0 where 0: "12 \<le> length buf"
    and q: "parseQuestions buf 12 (unat (QDCount m0)) = Inr (qs, o1)"
    and a: "parseRRSection buf o1 (ANCount m0) = Inr (an, o2)"
    and n: "parseRRSection buf o2 (NSCount m0) = Inr (ns, o3)"
    and r: "parseRRSection buf o3 (ARCount m0) = Inr (ar, o4)"
    and m: "m = takeOPT (m0\<lparr>Questions := qs, Answers := an, Authority := ns, Additional := ar\<rparr>) [] ar"
    by (rule ParseMessage_cases)
  note bq = parseQuestions_bounds [OF q 0]
  then have 1: "o1 \<le> length buf" by simp
  note ba = parseRRSection_bounds [OF a 1]
  then have 2: "o2 \<le> length buf" by simp
  note bn = parseRRSection_bounds [OF n 2]
  then have 3: "o3 \<le> length buf" by simp
  note br = parseRRSection_bounds [OF r 3]
  have "rrBytes (Additional m) \<le> rrBytes ar" by (simp add: m takeOPT_fields rrBytes_filter)
  then show "12 + 5 * length (Questions m) + rrBytes (Answers m) + rrBytes (Authority m) +
      rrBytes (Additional m) \<le> length buf"
    using bq ba bn br by (simp add: m takeOPT_fields rrBytes_def)
  show "length (Questions m) = unat (QDCount m)" "length (Answers m) = unat (ANCount m)"
      "length (Authority m) = unat (NSCount m)"
    "list_all (\<lambda>q. q_Name q \<noteq> [] \<and> length (q_Name q) \<le> 253) (Questions m)"
    using bq ba bn by (simp_all add: m takeOPT_fields)
  show "length (Additional m) \<le> unat (ARCount m)"
    using br length_filter_le [of "\<lambda>r. rr_Type r \<noteq> TypeOPT" ar] by (simp add: m takeOPT_fields)
qed

lemma NewResponse_fields [simp]:
  "ID (NewResponse r) = ID r" "Questions (NewResponse r) = Questions r"
  "Answers (NewResponse r) = []" "Authority (NewResponse r) = []" "Additional (NewResponse r) = []"
  "EDNS0 (NewResponse r) = EDNS0 r"
  by (simp_all add: NewResponse_def SetEDNS0_def Let_def zero_message_def)

lemma NewResponse_Flags:
  "Flags (NewResponse r) = FlagQR OR (Flags r AND FlagRD) OR (Flags r AND push_bit 11 0x0F)"
  by (simp add: NewResponse_def SetEDNS0_def Let_def zero_message_def)

lemma NewResponse_flag_bits:
  "bit (Flags (NewResponse r)) n = (n = 15 \<or> (n = 8 \<or> 11 \<le> n \<and> n < 15) \<and> bit (Flags r) n)" if "n < 16"
proof -
  have "n \<in> {0,1,2,3,4,5,6,7,8,9,10,11,12,13,14,15}"
    unfolding insert_iff empty_iff using that by presburger
  then show ?thesis by (auto simp: NewResponse_Flags bit_simps)
qed

lemma upper_lower_char: "upper_char (lower_char c) = upper_char c"
  by (simp add: upper_char_def lower_char_def Let_def)

lemma TypeCode_case: "is_ascii s \<Longrightarrow> TypeCode u (ToLower u s) = TypeCode u s"
proof -
  assume a: "is_ascii s"
  have "is_ascii (map lower_char s)"
    using a by (auto simp: is_ascii_def list_all_iff lower_char_def Let_def)
  with a show ?thesis by (simp add: TypeCode_def ToUpper_def ToLower_def upper_lower_char o_def)
qed

lemma TypeCode_TypeName:
  "list_all (\<lambda>(c, n). TypeName c = n \<and> TypeCode u n = c) typeNames"
  by (simp add: typeNames_def TypeName_def TypeCode_def typeCodes_def ToUpper_def is_ascii_def upper_char_def)

section \<open>Properties\<close>

text \<open>Claim C25. Every well-formed message (names that have a wire form and are written the way the
  decoder writes them, section sizes and record data within 16 bits, no OPT record among the
  additional records) survives encoding and decoding: \<open>Pack\<close> succeeds, and \<open>ParseMessage\<close> of its
  output is exactly the message, with the section counts \<open>Pack\<close> has filled in and the EDNS data
  recovered from the OPT record.\<close>

theorem message_roundtrip:
  assumes "wfMessage m"
  shows "\<exists>out. snd (Pack m) = Inr out \<and> ParseMessage out = Inr (fst (Pack m))"
proof -
  have "fits m" using assms by (auto simp: wfMessage_def fits_def wfRR_def list_all_iff)
  then show ?thesis using ParseMessage_wire [OF assms] by (simp add: Pack_eq)
qed

definition example_message :: message where
  "example_message = zero_message\<lparr>ID := 0x1234, Flags := 0x8580,
     Questions := [\<lparr>q_Name = ''www.Example.com'', q_Type = TypeA, q_Class = ClassIN\<rparr>],
     Answers := [\<lparr>rr_Name = ''www.Example.com'', rr_Type = TypeA, rr_Class = ClassIN, rr_TTL = 300,
       rr_RData = [93, 184, 216, 34]\<rparr>],
     EDNS0 := True, EDNS0Size := 1232\<rparr>"

lemma wfMessage_example: "wfMessage example_message"
  by (simp add: wfMessage_def example_message_def zero_message_def wfName_def wfRR_def fitsRR_def
      canonName_def TrimSuffix_def HasSuffix_single wireName_def labelOk_def)

theorem message_roundtrip_witness:
  "wfMessage example_message \<and>
   (\<exists>out. snd (Pack example_message) = Inr out \<and> ParseMessage out = Inr (fst (Pack example_message)))"
  using message_roundtrip [OF wfMessage_example] wfMessage_example by simp

text \<open>Claim C26. Whenever \<open>PackName\<close> succeeds, \<open>ParseName\<close> started where the name was written reads
  back the same name, in the same case and without its final dot (the root as a single dot), and
  stops exactly where \<open>PackName\<close> stopped, whatever was in the buffer before and whatever follows.\<close>

theorem ParseName_PackName:
  assumes "PackName pre name = (out, None)"
  shows "ParseName (out @ rest) (length pre) = Inr (canonName name, length out)"
proof -
  have "wireName (TrimSuffix name ''.'')"
    using assms PackName_ok_iff [of pre name] by simp
  then show ?thesis
    using assms PackName_ok [of name pre] ParseName_wireOfName [of "TrimSuffix name ''.''" pre rest]
    by (auto simp: canonName_def Let_def)
qed

theorem ParseName_PackName_witness:
  "PackName [7] ''Ab.c.'' = ([7, 2, 65, 98, 1, 99, 0], None) \<and>
   ParseName ([7, 2, 65, 98, 1, 99, 0] @ [9]) (length [7 :: byte]) = Inr (canonName ''Ab.c.'', length [7 :: byte, 2, 65, 98, 1, 99, 0])"
proof -
  have "PackName [7] ''Ab.c.'' = ([7, 2, 65, 98, 1, 99, 0], None)"
    by (simp add: PackName_labels TrimSuffix_def HasSuffix_single byte_of_char_def)
  then show ?thesis using ParseName_PackName [of "[7]" "''Ab.c.''" _ "[9]"] by blast
qed

text \<open>\<open>ParseName\<close> makes progress and stays in bounds on every buffer, compression pointers
  included: a successful parse ends strictly after its start and inside the buffer, and the name it
  returns is never empty and at most 253 bytes long.\<close>

lemma ParseName_progress:
  assumes "ParseName buf off = Inr (name, next_off)"
  shows "off < next_off \<and> next_off \<le> length buf \<and> name \<noteq> [] \<and> length name \<le> 253"
  using ParseName_bounds [OF assms] by simp

lemma ParseName_progress_witness:
  "ParseName [1, 97, 0, 0xC0, 0] 3 = Inr (''a'', 5) \<and>
   (3 < (5::nat) \<and> 5 \<le> length [1, 97, 0, 0xC0, 0 :: byte] \<and> ''a'' \<noteq> [] \<and> length ''a'' \<le> 253)"
proof -
  have "ParseName [1, 97, 0, 0xC0, 0] 3 = Inr (''a'', 5)"
    by (simp add: ParseName_def ParseName_loop.simps slice_def char_of_byte_def char_of_def bit_0)
  then show ?thesis using ParseName_progress [of "[1, 97, 0, 0xC0, 0]" 3 "''a''" 5] by blast
qed

text \<open>The decoder's output is bounded by its input: the questions and records of a parsed
  message, at their minimal wire sizes, fit in the bytes that were read after the 12-byte header,
  and there are exactly as many questions, answers and authority records as the header announces.\<close>

lemma ParseMessage_bounded:
  assumes "ParseMessage buf = Inr m"
  shows "12 + 5 * length (Questions m) + rrBytes (Answers m) + rrBytes (Authority m) +
      rrBytes (Additional m) \<le> length buf \<and>
    length (Questions m) = unat (QDCount m) \<and> length (Answers m) = unat (ANCount m) \<and>
    length (Authority m) = unat (NSCount m)"
  using ParseMessage_bounds [OF assms] by simp

lemma ParseMessage_bounded_witness:
  "ParseMessage (wire example_message) = Inr (setCounts example_message) \<and>
   12 + 5 * length (Questions (setCounts example_message)) + rrBytes (Answers (setCounts example_message)) +
     rrBytes (Authority (setCounts example_message)) + rrBytes (Additional (setCounts example_message))
     \<le> length (wire example_message)"
  using ParseMessage_bounded [OF ParseMessage_wire [OF wfMessage_example]]
    ParseMessage_wire [OF wfMessage_example] by blast

text \<open>The index loop of \<open>PackName\<close> computes the label-by-label encoding: after the final
  dot is removed, the name is split at its dots, each label is checked (not empty, at most 63
  bytes) and written with its length in front, and the first bad label stops the encoding with the
  labels before it already written.\<close>

lemma PackName_labelwise:
  "PackName buf name =
    (let n = TrimSuffix name ''.'' in
      if n = [] then (buf @ [0], None)
      else if length n + 2 > maxNameLen then (buf, Some PackNameTooLong)
      else encLabels buf (Split n CHR ''.''))"
  by (rule PackName_labels)

text \<open>Claim C27. \<open>PackUDP\<close> keeps a message with at most one question within the message's own limit (512
  bytes, or its EDNS size brought between 512 and 1232), and nothing is dropped silently: what the receiver
  decodes has the same question and either all answer and authority records or the TC bit.\<close>

theorem PackUDP_truncation:
  assumes "wfMessage m" and "length (Questions m) \<le> 1"
  shows "\<exists>out m'. snd (PackUDP m) = Inr out \<and> length out \<le> UDPSize m \<and> ParseMessage out = Inr m' \<and>
    Questions m' = Questions m \<and> ID m' = ID m \<and>
    (Answers m' = Answers m \<and> Authority m' = Authority m \<and> Flags m' = Flags m \<or>
     bit (Flags m') 9 \<and> Answers m' = [] \<and> Authority m' = [])"
proof -
  have "fits m" using assms(1) by (auto simp: wfMessage_def fits_def wfRR_def list_all_iff)
  moreover have "wfMessage (m\<lparr>Additional := []\<rparr>)" "wfMessage (truncated m)"
    using assms(1) by (auto simp: wfMessage_def truncated_def)
  moreover have "length (wire (truncated m)) \<le> UDPSize m"
    using length_wire_truncated [OF assms(2)] UDPSize_bounds(1) [of m] by simp
  moreover have "bit (Flags m OR FlagTC) 9" by (simp add: bit_simps)
  ultimately show ?thesis
    using assms(1) by (auto simp: PackUDP_eq ParseMessage_wire)
qed

theorem PackUDP_truncation_witness:
  "wfMessage example_message \<and> length (Questions example_message) \<le> 1 \<and>
   (\<exists>out m'. snd (PackUDP example_message) = Inr out \<and> length out \<le> UDPSize example_message \<and>
     ParseMessage out = Inr m' \<and> Questions m' = Questions example_message)"
  using PackUDP_truncation [OF wfMessage_example] wfMessage_example
  by (auto simp: example_message_def)

text \<open>\<open>NewResponse\<close> answers the query it is given: same identifier, same questions, no
  records yet, and a flag word in which QR is set, the opcode bits (11 to 14) and RD (8) are the
  query's, and every other bit, the response code included, is clear.\<close>

lemma NewResponse_mirrors_query:
  "ID (NewResponse req) = ID req \<and> Questions (NewResponse req) = Questions req \<and>
   Answers (NewResponse req) = [] \<and> Authority (NewResponse req) = [] \<and> Additional (NewResponse req) = [] \<and>
   Opcode (NewResponse req) = Opcode req \<and> Rcode (NewResponse req) = 0 \<and>
   {n. bit (Flags (NewResponse req)) n} =
     insert 15 {n. (n = 8 \<or> n \<in> {11, 12, 13, 14}) \<and> bit (Flags req) n}"
proof -
  have le: "n < 16" if "bit (w :: u16) n" for w n using bit_imp_le_length [OF that] by simp
  have *: "bit (Flags (NewResponse req)) n = (n = 15 \<or> (n = 8 \<or> 11 \<le> n \<and> n < 15) \<and> bit (Flags req) n)" for n
    using NewResponse_flag_bits [of n req] le [of _ n] by (cases "n < 16") auto
  have b15: "w AND 15 = take_bit 4 w" for w :: u16
    by (simp add: take_bit_eq_mask mask_eq_exp_minus_1)
  have "Opcode (NewResponse req) = Opcode req"
    unfolding Opcode_eq b15
    by (rule arg_cong [where f = uint], rule bit_word_eqI)
      (auto simp: bit_take_bit_iff bit_drop_bit_eq *)
  moreover have "Flags (NewResponse req) AND 15 = 0"
    unfolding b15 by (rule bit_word_eqI) (auto simp: bit_take_bit_iff *)
  moreover have "{n. bit (Flags (NewResponse req)) n} =
     insert 15 {n. (n = 8 \<or> n \<in> {11, 12, 13, 14}) \<and> bit (Flags req) n}"
    by (auto simp: *)
  ultimately show ?thesis by (simp add: Rcode_def)
qed

text \<open>\<open>SetRcode\<close> sets the four response-code bits and nothing else: the code read back is the
  one written (modulo 16), and every other flag bit and field of the message is unchanged.\<close>

lemma SetRcode_sets:
  "Rcode (SetRcode m r) = r mod 16 \<and> Flags (SetRcode m r) AND NOT 15 = Flags m AND NOT 15 \<and>
   (SetRcode m r)\<lparr>Flags := Flags m\<rparr> = m"
  unfolding Flags_SetRcode high_bits_join by (simp add: Rcode_SetRcode, simp add: SetRcode_def)

text \<open>The type tables agree: for every type of \<open>typeNames\<close>, the name gives the code and the
  code gives the name back; and a type name is recognised in any mix of upper and lower case.\<close>

lemma TypeCode_roundtrip:
  "list_all (\<lambda>(c, n). TypeName c = n \<and> TypeCode u n = c \<and> TypeCode u (ToLower u n) = c) typeNames"
proof -
  have "list_all (\<lambda>(c, n). is_ascii n) typeNames" by (simp add: typeNames_def is_ascii_def)
  then show ?thesis
    using TypeCode_TypeName [of u] by (fastforce simp: list_all_iff TypeCode_case)
qed

end
