(* ===== verification/Dns_Names.thy ===== *)
theory Dns_Names
  imports Dns_Message
begin

text \<open>
  The host name check of \<open>src/internal/dns/names.go\<close>, with one error value per error return.
\<close>

datatype validate_err =
    EmptyName
  | NameTooLong253
  | EmptyLabel
  | LabelTooLong63
  | WildcardNotLeftmost
  | InvalidCharacter
  | HyphenAtEnds

definition validChar :: "char \<Rightarrow> bool" where
  "validChar c = (let n = (of_char c :: nat) in
     97 \<le> n \<and> n \<le> 122 \<or> 48 \<le> n \<and> n \<le> 57 \<or> c = CHR ''-'' \<or> c = CHR ''_'')"

text \<open>The body of the loop over the labels, for the label \<open>l\<close> at index \<open>i\<close>.\<close>

definition validateLabel :: "nat \<Rightarrow> string \<Rightarrow> validate_err option" where
  "validateLabel i l =
    (if l = [] then Some EmptyLabel
     else if length l > maxLabelLen then Some LabelTooLong63
     else if l = ''*'' then (if i \<noteq> 0 then Some WildcardNotLeftmost else None)
     else if \<not> list_all validChar l then Some InvalidCharacter
     else if hd l = CHR ''-'' \<or> last l = CHR ''-'' then Some HyphenAtEnds
     else None)"

fun validateLabels :: "nat \<Rightarrow> string list \<Rightarrow> validate_err option" where
  "validateLabels i [] = None"
| "validateLabels i (l # ls) =
    (case validateLabel i l of Some e \<Rightarrow> Some e | None \<Rightarrow> validateLabels (i + 1) ls)"

definition ValidateName :: "string \<Rightarrow> validate_err option" where
  "ValidateName name =
    (if name = [] then Some EmptyName
     else if length name > 253 then Some NameTooLong253
     else validateLabels 0 (Split name CHR ''.''))"

section \<open>Lemmas\<close>

text \<open>What the loop checks of the label at index \<open>i\<close>.\<close>

definition hostLabel :: "nat \<Rightarrow> string \<Rightarrow> bool" where
  "hostLabel i l = (labelOk l \<and>
     (l = ''*'' \<and> i = 0 \<or> list_all validChar l \<and> hd l \<noteq> CHR ''-'' \<and> last l \<noteq> CHR ''-''))"

lemma validChar_star: "\<not> validChar CHR ''*''"
  by (simp add: validChar_def)

lemma validateLabel_None: "validateLabel i l = None \<longleftrightarrow> hostLabel i l"
  by (auto simp: validateLabel_def hostLabel_def labelOk_def validChar_star)

lemma validateLabels_None:
  "validateLabels k ls = None \<longleftrightarrow> (\<forall>i < length ls. hostLabel (k + i) (ls ! i))"
proof (induction ls arbitrary: k)
  case (Cons l ls)
  have "validateLabels k (l # ls) = None \<longleftrightarrow> hostLabel k l \<and> validateLabels (k + 1) ls = None"
    by (auto simp: validateLabel_None [symmetric] split: option.splits)
  then show ?case by (auto simp: Cons.IH less_Suc_eq_0_disj)
qed simp

lemma ValidateName_None:
  "ValidateName n = None \<longleftrightarrow> n \<noteq> [] \<and> length n \<le> 253 \<and>
     (\<forall>i < length (Split n CHR ''.''). hostLabel i (Split n CHR ''.'' ! i))"
  by (auto simp: ValidateName_def validateLabels_None)

lemma hostLabel_labelOk: "hostLabel i l \<Longrightarrow> labelOk l"
  by (simp add: hostLabel_def)

lemma ValidateName_labels:
  "ValidateName n = None \<Longrightarrow> l \<in> set (Split n CHR ''.'') \<Longrightarrow> \<exists>i. hostLabel i l"
  by (auto simp: ValidateName_None in_set_conv_nth)

lemma ValidateName_wireName: "ValidateName n = None \<Longrightarrow> wireName n"
  by (auto simp: ValidateName_None wireName_def list_all_length intro: hostLabel_labelOk)

lemma ValidateName_no_final_dot: "ValidateName n = None \<Longrightarrow> n \<noteq> [] \<and> last n \<noteq> CHR ''.''"
  using Split_last_dot [of n "CHR ''.''"]
  by (auto simp: ValidateName_None in_set_conv_nth hostLabel_def labelOk_def)

lemma ValidateName_chars:
  assumes "ValidateName n = None" "c \<in> set n"
  shows "validChar c \<or> c = CHR ''.'' \<or> c = CHR ''*''"
proof -
  have "c = CHR ''.'' \<or> (\<exists>l \<in> set (Split n CHR ''.''). c \<in> set l)"
    using set_Join [of "Split n CHR ''.''" "''.''"] assms(2) by auto
  moreover have "validChar c \<or> c = CHR ''*''" if "l \<in> set (Split n CHR ''.'')" "c \<in> set l" for l
    using ValidateName_labels [OF assms(1) that(1)] that(2) by (auto simp: hostLabel_def list_all_iff)
  ultimately show ?thesis by blast
qed

lemma ValidateName_TrimSuffix: "ValidateName n = None \<Longrightarrow> TrimSuffix n ''.'' = n"
  using ValidateName_no_final_dot [of n] by (auto simp: TrimSuffix_last)

lemma ValidateName_wfName: "ValidateName n = None \<Longrightarrow> wfName n"
  using ValidateName_no_final_dot [of n]
  by (simp add: wfName_def canonName_def ValidateName_TrimSuffix ValidateName_wireName)

lemma validChar_lower: "validChar c \<or> c = CHR ''.'' \<or> c = CHR ''*'' \<Longrightarrow> lower_char c = c"
  by (auto simp: validChar_def lower_char_def Let_def)

lemma validChar_ascii: "validChar c \<or> c = CHR ''.'' \<or> c = CHR ''*'' \<Longrightarrow> (of_char c :: nat) < 128 \<and> 32 < (of_char c :: nat)"
  by (auto simp: validChar_def Let_def)

lemma ValidateName_lower: "ValidateName n = None \<Longrightarrow> ToLower u n = n"
  using ValidateName_chars [of n] by (auto simp: ToLower_def is_ascii_def list_all_iff validChar_lower validChar_ascii intro: map_idI)

lemma ValidateName_TrimSpace:
  assumes "ValidateName n = None" shows "TrimSpace n = n"
proof -
  have "visible c" if "c \<in> set n" for c
    using ValidateName_chars [OF assms that] by (auto simp: visible_def validChar_def Let_def)
  moreover have "n \<noteq> []" using assms by (simp add: ValidateName_None)
  ultimately show ?thesis by (intro TrimSpace_id) auto
qed

section \<open>Properties\<close>

text \<open>\<open>ValidateName\<close> accepts exactly the host names meant: non-empty, at most 253 bytes, split
  at the dots into labels of 1 to 63 bytes, each either the wildcard \<open>*\<close> in the leftmost position
  or made of lower-case letters, digits, hyphens and underscores with no hyphen at either end.\<close>

lemma ValidateName_accepts:
  "ValidateName n = None \<longleftrightarrow> n \<noteq> [] \<and> length n \<le> 253 \<and>
     (\<forall>i < length (Split n CHR ''.''). hostLabel i (Split n CHR ''.'' ! i))"
  by (rule ValidateName_None)

lemma ValidateName_accepts_witness:
  "ValidateName ''*.a-b.example'' = None \<and>
   (\<forall>i < length (Split ''*.a-b.example'' CHR ''.''). hostLabel i (Split ''*.a-b.example'' CHR ''.'' ! i)) = True"
proof -
  have "ValidateName ''*.a-b.example'' = None"
    by (simp add: ValidateName_def validateLabel_def validChar_def)
  then show ?thesis using ValidateName_accepts [of "''*.a-b.example''"] by simp
qed

text \<open>Claim C39. A validated name needs no further normalisation and can always be served: trimming,
  lower-casing (under any Unicode tables) and removing a final dot leave it unchanged, \<open>PackName\<close>
  encodes it, and the decoder reads it back unchanged.\<close>

theorem ValidateName_normal:
  assumes "ValidateName n = None"
  shows "TrimSpace n = n \<and> ToLower u n = n \<and> TrimSuffix n ''.'' = n \<and>
    snd (PackName buf n) = None \<and> ParseName (fst (PackName [] n)) 0 = Inr (n, length n + 2)"
proof -
  have w: "wireName n" using assms by (rule ValidateName_wireName)
  have n: "n \<noteq> []" using assms by (simp add: ValidateName_None)
  have "PackName b n = (b @ wireOfName n, None)" for b
    using PackName_ok [of n b] w by (simp add: ValidateName_TrimSuffix [OF assms])
  then show ?thesis
    using ParseName_wireOfName [OF w, of "[]" "[]"] n assms
    by (simp add: ValidateName_TrimSpace ValidateName_lower ValidateName_TrimSuffix length_wireOfName)
qed

theorem ValidateName_normal_witness:
  "ValidateName ''www.example.com'' = None \<and> TrimSpace ''www.example.com'' = ''www.example.com'' \<and>
   ParseName (fst (PackName [] ''www.example.com'')) 0 = Inr (''www.example.com'', length ''www.example.com'' + 2)"
proof -
  have "ValidateName ''www.example.com'' = None"
    by (simp add: ValidateName_def validateLabel_def validChar_def)
  then show ?thesis using ValidateName_normal [of "''www.example.com''"] by blast
qed

end
