(* ===== verification/Go_Encoding.thy ===== *)
theory Go_Encoding
  imports Go_Strings
begin

text \<open>
  The decoders of Go's \<open>encoding/hex\<close>, \<open>encoding/base64\<close> (\<open>StdEncoding\<close>) and \<open>net/netip\<close> that the
  record data parser calls. Every error of these functions is reported by the callers in the same
  way, so a failure is \<open>None\<close>.
\<close>

section \<open>Hexadecimal\<close>

definition hexVal :: "char \<Rightarrow> nat option" where
  "hexVal c = (let n = (of_char c :: nat) in
     if 48 \<le> n \<and> n \<le> 57 then Some (n - 48)
     else if 97 \<le> n \<and> n \<le> 102 then Some (n - 87)
     else if 65 \<le> n \<and> n \<le> 70 then Some (n - 55)
     else None)"

fun hexDecode :: "string \<Rightarrow> bytes option" where
  "hexDecode [] = Some []"
| "hexDecode [_] = None"
| "hexDecode (p # q # s) =
    (case (hexVal p, hexVal q) of
       (Some a, Some b) \<Rightarrow> map_option ((#) (word_of_nat (16 * a + b))) (hexDecode s)
     | _ \<Rightarrow> None)"

section \<open>Base64 with padding\<close>

definition b64Val :: "char \<Rightarrow> nat option" where
  "b64Val c = (let n = (of_char c :: nat) in
     if 65 \<le> n \<and> n \<le> 90 then Some (n - 65)
     else if 97 \<le> n \<and> n \<le> 122 then Some (n - 71)
     else if 48 \<le> n \<and> n \<le> 57 then Some (n + 4)
     else if c = CHR ''+'' then Some 62
     else if c = CHR ''/'' then Some 63
     else None)"

definition b64Quantum :: "nat \<Rightarrow> nat \<Rightarrow> nat \<Rightarrow> nat \<Rightarrow> bytes" where
  "b64Quantum a b c d = (let v = a * 2 ^ 18 + b * 2 ^ 12 + c * 2 ^ 6 + d in
     [word_of_nat (v div 2 ^ 16), word_of_nat (v div 2 ^ 8), word_of_nat v])"

fun b64Groups :: "string \<Rightarrow> bytes option" where
  "b64Groups [] = Some []"
| "b64Groups (p # q # r # s # t) =
    (case (b64Val p, b64Val q, b64Val r, b64Val s) of
       (Some a, Some b, Some c, Some d) \<Rightarrow> map_option ((@) (b64Quantum a b c d)) (b64Groups t)
     | (Some a, Some b, Some c, None) \<Rightarrow>
         if s = CHR ''='' \<and> t = [] then Some (take 2 (b64Quantum a b c 0)) else None
     | (Some a, Some b, None, _) \<Rightarrow>
         if r = CHR ''='' \<and> s = CHR ''='' \<and> t = [] then Some (take 1 (b64Quantum a b 0 0)) else None
     | _ \<Rightarrow> None)"
| "b64Groups _ = None"

text \<open>Line breaks inside the input are skipped.\<close>

definition b64Decode :: "string \<Rightarrow> bytes option" where
  "b64Decode s = b64Groups (filter (\<lambda>c. c \<noteq> CHR 0x0A \<and> c \<noteq> CHR 0x0D) s)"

section \<open>IP addresses\<close>

datatype netip_addr = Addr4 bytes | Addr6 bytes string

text \<open>\<open>parseIPv4Fields\<close>: the previous character, the value and digit count of the current field, and
  the fields already read.\<close>

fun parseIPv4Fields :: "char option \<Rightarrow> nat \<Rightarrow> nat \<Rightarrow> bytes \<Rightarrow> string \<Rightarrow> bytes option" where
  "parseIPv4Fields prev val digLen flds [] =
    (if length flds < 3 then None else Some (flds @ [word_of_nat val]))"
| "parseIPv4Fields prev val digLen flds (c # s) =
    (if isDigit c then
       (if digLen = 1 \<and> val = 0 then None
        else let val = val * 10 + digit_val c in
          if val > 255 then None else parseIPv4Fields (Some c) val (digLen + 1) flds s)
     else if c = CHR ''.'' then
       (if prev = None \<or> s = [] \<or> prev = Some CHR ''.'' then None
        else if length flds = 3 then None
        else parseIPv4Fields (Some c) 0 0 (flds @ [word_of_nat val]) s)
     else None)"

definition isHex :: "char \<Rightarrow> bool" where
  "isHex c = (hexVal c \<noteq> None)"

definition hexNum :: "string \<Rightarrow> nat" where
  "hexNum s = foldl (\<lambda>acc c. 16 * acc + the (hexVal c)) 0 s"

text \<open>The loop of \<open>parseIPv6\<close>: the unread text, the address bytes written so far and the position
  of the ellipsis.\<close>

function parseIPv6_loop :: "string \<Rightarrow> bytes \<Rightarrow> nat option \<Rightarrow> (string \<times> bytes \<times> nat option) option" where
  "parseIPv6_loop s ip ellipsis =
    (if length ip \<ge> 16 then Some (s, ip, ellipsis)
     else let grp = takeWhile isHex s; off = length grp in
       if off > 4 \<or> off = 0 then None
       else if off < length s \<and> s ! off = CHR ''.'' then
         (if ellipsis = None \<and> length ip \<noteq> 12 \<or> length ip + 4 > 16 then None
          else case parseIPv4Fields None 0 0 [] s of
              None \<Rightarrow> None
            | Some v4 \<Rightarrow> Some ([], ip @ v4, ellipsis))
       else let ip = ip @ PutUint16 (word_of_nat (hexNum grp)); s = drop off s in
         if s = [] then Some (s, ip, ellipsis)
         else if hd s \<noteq> CHR '':'' \<or> length s = 1 then None
         else let s = tl s in
           if hd s = CHR '':'' then
             (if ellipsis \<noteq> None then None
              else let ellipsis = Some (length ip); s = tl s in
                if s = [] then Some (s, ip, ellipsis) else parseIPv6_loop s ip ellipsis)
           else parseIPv6_loop s ip ellipsis)"
  by pat_completeness auto
termination
  by (relation "measure (\<lambda>(s, ip, ellipsis). 16 - length ip)") (auto simp: PutUint16_def)

declare parseIPv6_loop.simps [simp del]

definition parseIPv6 :: "string \<Rightarrow> netip_addr option" where
  "parseIPv6 input =
    (let (s, zone, ok) = (case IndexByte input CHR ''%'' of
           None \<Rightarrow> (input, [], True)
         | Some i \<Rightarrow> (take i input, drop (i + 1) input, drop (i + 1) input \<noteq> []))
     in if \<not> ok then None
        else if s = ''::'' then Some (Addr6 (replicate 16 0) zone)
        else let (s, ellipsis) = (if prefix ''::'' s then (drop 2 s, Some 0) else (s, None)) in
          case parseIPv6_loop s [] ellipsis of
            None \<Rightarrow> None
          | Some (s, ip, ellipsis) \<Rightarrow>
              if s \<noteq> [] then None
              else if length ip < 16 then
                (case ellipsis of
                   None \<Rightarrow> None
                 | Some e \<Rightarrow> Some (Addr6 (take e ip @ replicate (16 - length ip) 0 @ drop e ip) zone))
              else if ellipsis \<noteq> None then None
              else Some (Addr6 ip zone))"

definition ParseAddr :: "string \<Rightarrow> netip_addr option" where
  "ParseAddr s =
    (case find (\<lambda>c. c = CHR ''.'' \<or> c = CHR '':'' \<or> c = CHR ''%'') s of
       None \<Rightarrow> None
     | Some c \<Rightarrow>
         if c = CHR ''.'' then map_option Addr4 (parseIPv4Fields None 0 0 [] s)
         else if c = CHR '':'' then parseIPv6 s
         else None)"

fun Is4In6 :: "netip_addr \<Rightarrow> bool" where
  "Is4In6 (Addr4 _) = False"
| "Is4In6 (Addr6 b _) = (take 12 b = replicate 10 0 @ [0xFF, 0xFF])"

end
