(* ===== verification/Dns_Rdata.thy ===== *)
theory Dns_Rdata
  imports Dns_Names Go_Encoding
begin

text \<open>
  Record data in \<open>src/internal/dns/rdata.go\<close>: presentation text to wire format for every supported
  type (\<open>BuildRData\<close>, \<open>BuildSOA\<close>), the quoted-string reader, and the target name of wire data
  (\<open>RDataNames\<close>). Go's pair of results \<open>([]byte, error)\<close> is a pair here, because \<open>PackName\<close>
  returns a partly written buffer together with an error and \<open>BuildRData\<close> passes both on; a
  nil slice is the empty list.
\<close>

section \<open>Quoted strings\<close>

datatype quoted_err = ExpectedQuotedString | ExpectedOpeningQuote | InvalidEscape | UnterminatedString

text \<open>A backslash that is not the last character: three digits give a byte, anything else stands for
  itself. The text starts after the backslash.\<close>

definition readEscape :: "string \<Rightarrow> quoted_err + char \<times> string" where
  "readEscape s = (case s of
     d # e # f # t \<Rightarrow>
       if isDigit d \<and> isDigit e \<and> isDigit f then
         let v = 100 * digit_val d + 10 * digit_val e + digit_val f in
           if v > 255 then Inl InvalidEscape else Inr (char_of v, t)
       else Inr (d, e # f # t)
   | d # t \<Rightarrow> Inr (d, t)
   | [] \<Rightarrow> Inl UnterminatedString)"

lemma readEscape_shorter: "readEscape s = Inr (c, t) \<Longrightarrow> length t < length s"
  by (auto simp: readEscape_def Let_def split: list.splits if_splits)

text \<open>The loop of \<open>readQuoted\<close>, after the opening quote.\<close>

function readQuoted_loop :: "string \<Rightarrow> string \<Rightarrow> quoted_err + string \<times> string" where
  "readQuoted_loop sb [] = Inl UnterminatedString"
| "readQuoted_loop sb (c # s) =
    (if c = CHR 0x22 then Inr (sb, s)
     else if c = CHR 0x5C \<and> s \<noteq> [] then
       (case readEscape s of
          Inl e \<Rightarrow> Inl e
        | Inr (x, t) \<Rightarrow> readQuoted_loop (sb @ [x]) t)
     else readQuoted_loop (sb @ [c]) s)"
  by pat_completeness auto
termination
  by (relation "measure (\<lambda>(sb, s). length s)") (auto dest: readEscape_shorter)

definition readQuoted :: "string \<Rightarrow> quoted_err + string \<times> string" where
  "readQuoted s = (case s of
     [] \<Rightarrow> Inl ExpectedOpeningQuote
   | c # t \<Rightarrow> if c \<noteq> CHR 0x22 then Inl ExpectedOpeningQuote else readQuoted_loop [] t)"

lemma readQuoted_loop_shorter: "readQuoted_loop sb s = Inr (t, r) \<Longrightarrow> length r < length s"
proof (induction sb s rule: readQuoted_loop.induct)
  case (2 sb c s)
  show ?case
  proof (cases "c = CHR 0x5C \<and> s \<noteq> []")
    case True
    then obtain x t' where e: "readEscape s = Inr (x, t')" "readQuoted_loop (sb @ [x]) t' = Inr (t, r)"
      using 2(3) by (auto split: sum.splits)
    then show ?thesis using 2(1) [of "(x, t')" x t'] readEscape_shorter [of s x t'] True by simp
  next
    case False
    then show ?thesis using 2 by (auto split: if_splits)
  qed
qed simp

lemma strip_front_shorter: "length (strip_front rs s) \<le> length s"
proof (induction rs s rule: strip_front.induct)
  case (1 rs s)
  then show ?case by (subst strip_front.simps) (auto simp: Let_def intro: le_trans)
qed

lemma TrimSpace_shorter: "length (TrimSpace s) \<le> length s"
  using strip_front_shorter [of space_runes s]
    strip_front_shorter [of "map rev space_runes" "rev (strip_front space_runes s)"]
  by (simp add: TrimSpace_def)

lemma readQuoted_shorter: "readQuoted s = Inr (t, r) \<Longrightarrow> length r < length s"
  by (auto simp: readQuoted_def dest: readQuoted_loop_shorter split: list.splits if_splits)

function parseQuotedStrings_loop :: "string \<Rightarrow> quoted_err + string list" where
  "parseQuotedStrings_loop rest =
    (if rest = [] then Inr []
     else case readQuoted rest of
         Inl e \<Rightarrow> Inl e
       | Inr (s, remaining) \<Rightarrow>
           (case parseQuotedStrings_loop (TrimSpace remaining) of
              Inl e \<Rightarrow> Inl e
            | Inr out \<Rightarrow> Inr (s # out)))"
  by pat_completeness auto
termination
proof (relation "measure length", goal_cases)
  case (2 rest x s remaining)
  then show ?case using readQuoted_shorter [of rest s remaining] TrimSpace_shorter [of remaining] by simp
qed simp

declare parseQuotedStrings_loop.simps [simp del]

definition parseQuotedStrings :: "string \<Rightarrow> quoted_err + string list" where
  "parseQuotedStrings text = parseQuotedStrings_loop (TrimSpace text)"

fun takeQuoted_loop :: "nat \<Rightarrow> string \<Rightarrow> quoted_err + string list \<times> string" where
  "takeQuoted_loop 0 rest = Inr ([], rest)"
| "takeQuoted_loop (Suc n) rest =
    (if \<not> HasPrefix rest [CHR 0x22] then Inl ExpectedQuotedString
     else case readQuoted rest of
         Inl e \<Rightarrow> Inl e
       | Inr (s, remaining) \<Rightarrow>
           (case takeQuoted_loop n (TrimSpace remaining) of
              Inl e \<Rightarrow> Inl e
            | Inr (out, r) \<Rightarrow> Inr (s # out, r)))"

definition takeQuoted :: "string \<Rightarrow> nat \<Rightarrow> quoted_err + string list \<times> string" where
  "takeQuoted text n = takeQuoted_loop n (TrimSpace text)"

section \<open>Fields and character strings\<close>

definition cutField :: "string \<Rightarrow> string \<times> string" where
  "cutField s =
    (let s = TrimSpace s in
     case IndexAny s [CHR 0x20, CHR 0x09] of
       None \<Rightarrow> (s, [])
     | Some i \<Rightarrow> (take i s, TrimSpace (drop i s)))"

text \<open>The inner loop of \<open>buildTXT\<close>: one string as length-prefixed pieces of at most 255 bytes.\<close>

function txtChunks :: "string \<Rightarrow> bytes" where
  "txtChunks p =
    (if length p > 255 then 255 # bytes_of_string (take 255 p) @ txtChunks (drop 255 p)
     else word_of_nat (length p) # bytes_of_string p)"
  by pat_completeness auto
termination
  by (relation "measure length") auto

declare txtChunks.simps [simp del]

definition buildTXT :: "string \<Rightarrow> quoted_err + bytes" where
  "buildTXT text =
    (case (if HasPrefix text [CHR 0x22] then parseQuotedStrings text else Inr [text]) of
       Inl e \<Rightarrow> Inl e
     | Inr parts \<Rightarrow>
         let buf = concat (map txtChunks parts) in Inr (if buf = [] then [0] else buf))"

text \<open>The length-prefixed strings of NAPTR and HINFO; \<open>None\<close> where one is over 255 bytes.\<close>

fun charStrings :: "string list \<Rightarrow> bytes option" where
  "charStrings [] = Some []"
| "charStrings (s # ss) =
    (if length s > 255 then None
     else map_option ((@) (word_of_nat (length s) # bytes_of_string s)) (charStrings ss))"

section \<open>Record data\<close>

datatype rdata_err =
    InvalidA | InvalidAAAA | ExpectsSingleName | ExpectsMX | ExpectsSRV | ExpectsCAA
  | CAATagLength | InvalidCAAValue | NAPTRReplacement | NAPTRStringTooLong
  | ExpectsHINFO | HINFOStringTooLong | ExpectsSSHFP | InvalidSSHFP | ExpectsTLSA | InvalidTLSA
  | ExpectsDS | InvalidDS | ExpectsDNSKEY | InvalidDNSKEY
  | InvalidNumber string
  | QuotedErr quoted_err
  | NameErr packname_err
  | UnsupportedType u16

type_synonym rdata_result = "bytes \<times> rdata_err option"

abbreviation (input) fail :: "rdata_err \<Rightarrow> rdata_result" where
  "fail e \<equiv> ([], Some e)"

abbreviation (input) built :: "bytes \<Rightarrow> rdata_result" where
  "built b \<equiv> (b, None)"

text \<open>\<open>return PackName(buf, name)\<close>: the buffer is returned with the error.\<close>

definition packedName :: "bytes \<Rightarrow> string \<Rightarrow> rdata_result" where
  "packedName buf name = (case PackName buf name of (out, e) \<Rightarrow> (out, map_option NameErr e))"

definition parseUint :: "string \<Rightarrow> nat \<Rightarrow> string \<Rightarrow> rdata_err + nat" where
  "parseUint s bits what = (case ParseUint s bits of None \<Rightarrow> Inl (InvalidNumber what) | Some v \<Rightarrow> Inr v)"

text \<open>Numbers parsed in order, the first error stopping the sequence.\<close>

fun parseUints :: "(string \<times> nat \<times> string) list \<Rightarrow> rdata_err + nat list" where
  "parseUints [] = Inr []"
| "parseUints ((s, bits, what) # rest) =
    (case parseUint s bits what of
       Inl e \<Rightarrow> Inl e
     | Inr v \<Rightarrow> (case parseUints rest of Inl e \<Rightarrow> Inl e | Inr vs \<Rightarrow> Inr (v # vs)))"

definition SupportedType :: "u16 \<Rightarrow> bool" where
  "SupportedType t = (t \<in> {TypeA, TypeAAAA, TypeNS, TypeCNAME, TypeDNAME, TypePTR, TypeMX, TypeTXT,
     TypeSRV, TypeCAA, TypeNAPTR, TypeSSHFP, TypeTLSA, TypeDS, TypeDNSKEY, TypeHINFO})"

definition buildA :: "string \<Rightarrow> rdata_result" where
  "buildA text = (case ParseAddr text of Some (Addr4 b) \<Rightarrow> built b | _ \<Rightarrow> fail InvalidA)"

definition buildAAAA :: "string \<Rightarrow> rdata_result" where
  "buildAAAA text = (case ParseAddr text of
     Some (Addr6 b z) \<Rightarrow> if Is4In6 (Addr6 b z) then fail InvalidAAAA else built b
   | _ \<Rightarrow> fail InvalidAAAA)"

definition buildName :: "string \<Rightarrow> rdata_result" where
  "buildName text =
    (if text = [] \<or> ContainsAny text [CHR 0x20, CHR 0x09] then fail ExpectsSingleName
     else packedName [] text)"

definition buildMX :: "string \<Rightarrow> rdata_result" where
  "buildMX text =
    (case Fields text of
       [f0, f1] \<Rightarrow>
         (case parseUint f0 16 ''MX preference'' of
            Inl e \<Rightarrow> fail e
          | Inr pref \<Rightarrow> packedName (PutUint16 (word_of_nat pref)) f1)
     | _ \<Rightarrow> fail ExpectsMX)"

definition buildSRV :: "string \<Rightarrow> rdata_result" where
  "buildSRV text =
    (case Fields text of
       [f0, f1, f2, f3] \<Rightarrow>
         (case parseUints [(f0, 16, ''SRV priority''), (f1, 16, ''SRV weight''), (f2, 16, ''SRV port'')] of
            Inl e \<Rightarrow> fail e
          | Inr vs \<Rightarrow> packedName (concat (map (\<lambda>v. PutUint16 (word_of_nat v)) vs)) f3)
     | _ \<Rightarrow> fail ExpectsSRV)"

definition buildCAA :: "string \<Rightarrow> rdata_result" where
  "buildCAA text =
    (case SplitN text CHR 0x20 3 of
       [f0, tag, f2] \<Rightarrow>
         (case parseUint f0 8 ''CAA flags'' of
            Inl e \<Rightarrow> fail e
          | Inr flags \<Rightarrow>
              if tag = [] \<or> length tag > 255 then fail CAATagLength
              else let value = TrimSpace f2 in
                (case (if HasPrefix value [CHR 0x22]
                       then (case parseQuotedStrings value of Inr [v] \<Rightarrow> Some v | _ \<Rightarrow> None)
                       else Some value) of
                   None \<Rightarrow> fail InvalidCAAValue
                 | Some value \<Rightarrow>
                     built ([word_of_nat flags, word_of_nat (length tag)] @ bytes_of_string tag @ bytes_of_string value)))
     | _ \<Rightarrow> fail ExpectsCAA)"

definition buildNAPTR :: "string \<Rightarrow> rdata_result" where
  "buildNAPTR text =
    (let (orderStr, rest) = cutField text; (prefStr, rest) = cutField rest in
     case parseUints [(orderStr, 16, ''NAPTR order''), (prefStr, 16, ''NAPTR preference'')] of
       Inl e \<Rightarrow> fail e
     | Inr vs \<Rightarrow>
         (case takeQuoted rest 3 of
            Inl e \<Rightarrow> fail (QuotedErr e)
          | Inr (strs, remaining) \<Rightarrow>
              let repl = TrimSpace remaining in
              if repl = [] \<or> ContainsAny repl [CHR 0x20, CHR 0x09] then fail NAPTRReplacement
              else (case charStrings strs of
                      None \<Rightarrow> fail NAPTRStringTooLong
                    | Some cs \<Rightarrow> packedName (concat (map (\<lambda>v. PutUint16 (word_of_nat v)) vs) @ cs) repl)))"

definition buildHINFO :: "string \<Rightarrow> rdata_result" where
  "buildHINFO text =
    (case takeQuoted text 2 of
       Inl _ \<Rightarrow> fail ExpectsHINFO
     | Inr (strs, rest) \<Rightarrow>
         if TrimSpace rest \<noteq> [] then fail ExpectsHINFO
         else (case charStrings strs of None \<Rightarrow> fail HINFOStringTooLong | Some cs \<Rightarrow> built cs))"

text \<open>SSHFP, TLSA, DS and DNSKEY: leading numbers of 8 or 16 bits, then the remaining fields joined
  and decoded.\<close>

definition numBytes :: "nat \<Rightarrow> nat \<Rightarrow> bytes" where
  "numBytes bits v = (if bits = 16 then PutUint16 (word_of_nat v) else [word_of_nat v])"

definition buildBinary ::
  "(nat \<times> string) list \<Rightarrow> (string \<Rightarrow> bytes option) \<Rightarrow> rdata_err \<Rightarrow> rdata_err \<Rightarrow> string \<Rightarrow> rdata_result" where
  "buildBinary nums decode expects invalid text =
    (let f = Fields text; k = length nums in
     if length f < k + 1 then fail expects
     else case parseUints (map2 (\<lambda>s (bits, what). (s, bits, what)) (take k f) nums) of
         Inl e \<Rightarrow> fail e
       | Inr vs \<Rightarrow>
           (case decode (Join (drop k f) []) of
              Some data \<Rightarrow>
                if data = [] then fail invalid
                else built (concat (map2 (\<lambda>(bits, _) v. numBytes bits v) nums vs) @ data)
            | None \<Rightarrow> fail invalid))"

definition BuildRData :: "u16 \<Rightarrow> string \<Rightarrow> rdata_result" where
  "BuildRData rtype text =
    (let text = TrimSpace text in
     if rtype = TypeA then buildA text
     else if rtype = TypeAAAA then buildAAAA text
     else if rtype \<in> {TypeNS, TypeCNAME, TypeDNAME, TypePTR} then buildName text
     else if rtype = TypeMX then buildMX text
     else if rtype = TypeTXT then
       (case buildTXT text of Inl e \<Rightarrow> fail (QuotedErr e) | Inr b \<Rightarrow> built b)
     else if rtype = TypeSRV then buildSRV text
     else if rtype = TypeCAA then buildCAA text
     else if rtype = TypeNAPTR then buildNAPTR text
     else if rtype = TypeHINFO then buildHINFO text
     else if rtype = TypeSSHFP then
       buildBinary [(8, ''SSHFP algorithm''), (8, ''SSHFP fingerprint type'')] hexDecode ExpectsSSHFP InvalidSSHFP text
     else if rtype = TypeTLSA then
       buildBinary [(8, ''TLSA usage''), (8, ''TLSA selector''), (8, ''TLSA matching type'')]
         hexDecode ExpectsTLSA InvalidTLSA text
     else if rtype = TypeDS then
       buildBinary [(16, ''DS key tag''), (8, ''DS algorithm''), (8, ''DS digest type'')]
         hexDecode ExpectsDS InvalidDS text
     else if rtype = TypeDNSKEY then
       buildBinary [(16, ''DNSKEY flags''), (8, ''DNSKEY protocol''), (8, ''DNSKEY algorithm'')]
         b64Decode ExpectsDNSKEY InvalidDNSKEY text
     else fail (UnsupportedType rtype))"

definition BuildSOA ::
  "string \<Rightarrow> string \<Rightarrow> u32 \<Rightarrow> u32 \<Rightarrow> u32 \<Rightarrow> u32 \<Rightarrow> u32 \<Rightarrow> packname_err + bytes" where
  "BuildSOA primary admin serial refresh retry expire minimum =
    (case PackName [] primary of
       (_, Some e) \<Rightarrow> Inl e
     | (buf, None) \<Rightarrow>
         (case PackName buf admin of
            (_, Some e) \<Rightarrow> Inl e
          | (buf, None) \<Rightarrow>
              Inr (buf @ concat (map PutUint32 [serial, refresh, retry, expire, minimum]))))"

text \<open>The domain name that wire data points to, the empty string when there is none.\<close>

definition RDataNames :: "u16 \<Rightarrow> bytes \<Rightarrow> string" where
  "RDataNames rtype rdata =
    (let at = (\<lambda>off. case ParseName rdata off of Inr (name, _) \<Rightarrow> name | Inl _ \<Rightarrow> []) in
     if rtype \<in> {TypeNS, TypeCNAME, TypeDNAME, TypePTR} then at 0
     else if rtype = TypeMX then (if length rdata > 2 then at 2 else [])
     else if rtype = TypeSRV then (if length rdata > 6 then at 6 else [])
     else [])"

section \<open>Lemmas\<close>

lemma SupportedType_BuildRData:
  "SupportedType t \<longleftrightarrow> snd (BuildRData t text) \<noteq> Some (UnsupportedType t)"
proof -
  have q: "snd (case x of Inl e \<Rightarrow> fail (QuotedErr e) | Inr b \<Rightarrow> built b) \<noteq> Some (UnsupportedType t')" for x t'
    by (cases x) auto
  have pn: "snd (packedName b n) \<noteq> Some (UnsupportedType t')" for b n t'
    by (auto simp: packedName_def split: prod.splits)
  have pu: "parseUint s bits w = Inl e \<Longrightarrow> e \<noteq> UnsupportedType t'" for s bits w e t'
    by (auto simp: parseUint_def split: option.splits)
  have pus: "parseUints xs = Inl e \<Longrightarrow> e \<noteq> UnsupportedType t'" for xs e t'
    by (induction xs rule: parseUints.induct) (auto dest: pu split: sum.splits)
  have a: "snd (buildA x) \<noteq> Some (UnsupportedType t')" "snd (buildAAAA x) \<noteq> Some (UnsupportedType t')"
    "snd (buildName x) \<noteq> Some (UnsupportedType t')" for x t'
    by (auto simp: buildA_def buildAAAA_def buildName_def pn split: option.splits netip_addr.splits)
  have b: "snd (buildMX x) \<noteq> Some (UnsupportedType t')" for x t'
    by (auto simp: buildMX_def pn dest: pu split: list.splits sum.splits)
  have c: "snd (buildSRV x) \<noteq> Some (UnsupportedType t')" for x t'
    by (auto simp del: parseUints.simps simp: buildSRV_def pn dest: pus split: list.splits sum.splits)
  have d: "snd (buildCAA x) \<noteq> Some (UnsupportedType t')" for x t'
    by (auto simp: buildCAA_def Let_def dest: pu split: list.splits sum.splits option.splits)
  have e: "snd (buildNAPTR x) \<noteq> Some (UnsupportedType t')" for x t'
    by (auto simp del: parseUints.simps simp: buildNAPTR_def Let_def pn dest: pus split: prod.splits sum.splits option.splits)
  have f: "snd (buildHINFO x) \<noteq> Some (UnsupportedType t')" for x t'
    by (auto simp: buildHINFO_def split: prod.splits sum.splits option.splits)
  have g: "e1 \<noteq> UnsupportedType t' \<Longrightarrow> e2 \<noteq> UnsupportedType t' \<Longrightarrow>
     snd (buildBinary ns dec e1 e2 x) \<noteq> Some (UnsupportedType t')" for ns dec e1 e2 x t'
    by (auto simp: buildBinary_def Let_def dest: pus split: sum.splits option.splits)
  show ?thesis
    unfolding SupportedType_def BuildRData_def Let_def
    using a b c d e f g q by (simp del: split_paired_All) 
qed

subsection \<open>Names in record data\<close>

lemma RDataNames_at:
  assumes "PackName pre n = (out, None)"
  shows "RDataNames TypeCNAME (fst (PackName [] n)) = canonName n"
    and "length pre = 2 \<Longrightarrow> RDataNames TypeMX out = canonName n"
    and "length pre = 6 \<Longrightarrow> RDataNames TypeSRV out = canonName n"
proof -
  have w: "wireName (TrimSuffix n ''.'')" using assms PackName_ok_iff [of pre n] by simp
  have out: "out = pre @ wireOfName (TrimSuffix n ''.'')" using assms PackName_ok [OF w, of pre] by simp
  have l: "0 < length (wireOfName (TrimSuffix n ''.''))" by (simp add: length_wireOfName)
  note at = ParseName_wireOfName [OF w, of _ "[]", simplified]
  show "RDataNames TypeCNAME (fst (PackName [] n)) = canonName n"
    using PackName_ok [OF w, of "[]"] at [of "[]"] by (simp add: RDataNames_def canonName_def Let_def)
  show "length pre = 2 \<Longrightarrow> RDataNames TypeMX out = canonName n"
    using at [of pre] l by (simp add: RDataNames_def canonName_def Let_def out)
  show "length pre = 6 \<Longrightarrow> RDataNames TypeSRV out = canonName n"
    using at [of pre] l by (simp add: RDataNames_def canonName_def Let_def out)
qed

lemma RDataNames_name_types:
  "t \<in> {TypeNS, TypeCNAME, TypeDNAME, TypePTR} \<Longrightarrow> RDataNames t b = RDataNames TypeCNAME b"
  by (auto simp: RDataNames_def)

lemma packedName_ok: "packedName b n = (out, None) \<Longrightarrow> PackName b n = (out, None)"
  by (auto simp: packedName_def split: prod.splits)

lemma length_PutUint16s: "length (concat (map (\<lambda>v. PutUint16 (word_of_nat v)) vs)) = 2 * length vs"
  by (induction vs) auto

lemma length_parseUints: "parseUints xs = Inr vs \<Longrightarrow> length vs = length xs"
  by (induction xs arbitrary: vs rule: parseUints.induct) (auto split: sum.splits)

text \<open>The target a name-valued record is written with: the whole text, the second field of an MX, the
  fourth of an SRV.\<close>

definition targetText :: "u16 \<Rightarrow> string \<Rightarrow> string" where
  "targetText t text =
    (if t = TypeMX then Fields (TrimSpace text) ! 1
     else if t = TypeSRV then Fields (TrimSpace text) ! 3
     else TrimSpace text)"

lemma RDataNames_BuildRData:
  assumes "t \<in> {TypeNS, TypeCNAME, TypeDNAME, TypePTR, TypeMX, TypeSRV}" and "BuildRData t text = (b, None)"
  shows "RDataNames t b = canonName (targetText t text)"
proof -
  let ?x = "TrimSpace text"
  consider (name) "t \<in> {TypeNS, TypeCNAME, TypeDNAME, TypePTR}" | (mx) "t = TypeMX" | (srv) "t = TypeSRV"
    using assms(1) by blast
  then show ?thesis
  proof cases
    case name
    then have "BuildRData t text = buildName ?x" by (auto simp: BuildRData_def)
    then have "packedName [] ?x = (b, None)"
      using assms(2) by (auto simp: buildName_def split: if_splits)
    moreover have "targetText t text = ?x" using name by (auto simp: targetText_def)
    ultimately show ?thesis
      using RDataNames_at(1) [of "[]" ?x b] packedName_ok [of "[]" ?x b] RDataNames_name_types [OF name] by simp
  next
    case mx
    then have "buildMX ?x = (b, None)" using assms(2) by (simp add: BuildRData_def)
    then obtain f0 f1 p where "Fields ?x = [f0, f1]" "packedName (PutUint16 p) f1 = (b, None)"
      by (auto simp: buildMX_def split: list.splits sum.splits)
    then show ?thesis
      using RDataNames_at(2) [of "PutUint16 p" f1 b] packedName_ok [of "PutUint16 p" f1 b] mx
      by (simp add: targetText_def)
  next
    case srv
    then have "buildSRV ?x = (b, None)" using assms(2) by (simp add: BuildRData_def)
    then obtain f0 f1 f2 f3 vs where f: "Fields ?x = [f0, f1, f2, f3]"
      and vs: "parseUints [(f0, 16, ''SRV priority''), (f1, 16, ''SRV weight''), (f2, 16, ''SRV port'')] = Inr vs"
      and p: "packedName (concat (map (\<lambda>v. PutUint16 (word_of_nat v)) vs)) f3 = (b, None)"
      by (auto simp del: parseUints.simps simp: buildSRV_def split: list.splits sum.splits)
    have "length (concat (map (\<lambda>v. PutUint16 (word_of_nat v)) vs)) = 6"
      using length_parseUints [OF vs] length_PutUint16s [of vs] by simp
    then show ?thesis
      using RDataNames_at(3) [OF packedName_ok [OF p]] srv f by (simp add: targetText_def)
  qed
qed

subsection \<open>Quoting\<close>

text \<open>The standard presentation of a character string: quotes around it, a backslash before every
  quote and backslash, and three decimal digits for every byte outside the visible range.\<close>

definition escapeChar :: "char \<Rightarrow> string" where
  "escapeChar c =
    (let n = (of_char c :: nat) in
     if n < 32 \<or> 126 < n then CHR 0x5C # map char_of [48 + n div 100, 48 + n div 10 mod 10, 48 + n mod 10]
     else if c = CHR 0x22 \<or> c = CHR 0x5C then [CHR 0x5C, c]
     else [c])"

definition quoteString :: "string \<Rightarrow> string" where
  "quoteString s = CHR 0x22 # concat (map escapeChar s) @ [CHR 0x22]"

lemma isDigit_char_of: "n < 10 \<Longrightarrow> isDigit (char_of (48 + n)) \<and> digit_val (char_of (48 + n)) = n"
  by (simp add: isDigit_def digit_val_def)

lemma digits_decompose: "100 * (n div 100) + 10 * (n div 10 mod 10) + n mod 10 = (n :: nat)"
proof -
  have "n div 100 = n div 10 div 10" using div_mult2_eq [of n 10 10] by simp
  then show ?thesis
    using div_mult_mod_eq [of "n div 10" 10] div_mult_mod_eq [of n 10] by linarith
qed

lemma readEscape_ddd:
  assumes "(n::nat) < 256"
  shows "readEscape (map char_of [48 + n div 100, 48 + n div 10 mod 10, 48 + n mod 10] @ s) = Inr (char_of n, s)"
proof -
  have "n div 100 < 10" "n div 10 mod 10 < 10" "n mod 10 < 10" using assms by auto
  then show ?thesis
    using digits_decompose [of n] assms by (simp add: readEscape_def isDigit_char_of Let_def)
qed

lemma readEscape_self: "\<not> isDigit c \<Longrightarrow> readEscape (c # s) = Inr (c, s)"
  by (auto simp: readEscape_def split: list.splits)

lemma readQuoted_loop_escape:
  "readQuoted_loop sb (escapeChar c @ s) = readQuoted_loop (sb @ [c]) s"
proof -
  define n where "n = (of_char c :: nat)"
  have n: "n < 256" and c: "c = char_of n" by (simp_all add: n_def)
  consider (ddd) "n < 32 \<or> 126 < n" | (esc) "\<not> (n < 32 \<or> 126 < n)" "c = CHR 0x22 \<or> c = CHR 0x5C"
    | (plain) "\<not> (n < 32 \<or> 126 < n)" "c \<noteq> CHR 0x22" "c \<noteq> CHR 0x5C"
    by blast
  then show ?thesis
  proof cases
    case ddd
    then have "escapeChar c = CHR 0x5C # map char_of [48 + n div 100, 48 + n div 10 mod 10, 48 + n mod 10]"
      by (simp add: escapeChar_def n_def Let_def)
    then show ?thesis using readEscape_ddd [OF n, of s] c by simp
  next
    case esc
    then have "escapeChar c = [CHR 0x5C, c]" by (auto simp: escapeChar_def n_def Let_def)
    moreover have "\<not> isDigit c" using esc by (auto simp: isDigit_def)
    ultimately show ?thesis using readEscape_self [of c s] by simp
  next
    case plain
    then have "escapeChar c = [c]" by (auto simp: escapeChar_def n_def Let_def)
    then show ?thesis using plain by simp
  qed
qed

lemma readQuoted_loop_quote:
  "readQuoted_loop sb (concat (map escapeChar s) @ CHR 0x22 # rest) = Inr (sb @ s, rest)"
  by (induction s arbitrary: sb) (simp_all add: readQuoted_loop_escape)

lemma readQuoted_quoteString: "readQuoted (quoteString s @ rest) = Inr (s, rest)"
  by (simp add: readQuoted_def quoteString_def readQuoted_loop_quote)

lemma visible_quote: "visible CHR 0x22"
  by (simp add: visible_def)

lemma TrimSpace_quoted: "TrimSpace (quoteString s @ t) = quoteString s @ t"
  if "t = [] \<or> visible (last t)"
  using that by (intro TrimSpace_id) (auto simp: quoteString_def visible_quote)

lemma front_width_space: "front_width space_runes (CHR 0x20 # s) = 1"
  by (simp add: front_width_def space_runes_def)

lemma TrimSpace_space_quoted:
  "TrimSpace (CHR 0x20 # quoteString s @ t) = quoteString s @ t" if "t = [] \<or> visible (last t)"
proof -
  have "strip_front space_runes (CHR 0x20 # quoteString s @ t) = strip_front space_runes (quoteString s @ t)"
    by (subst strip_front.simps) (simp add: front_width_space)
  then have "TrimSpace (CHR 0x20 # quoteString s @ t) = TrimSpace (quoteString s @ t)"
    by (simp add: TrimSpace_def)
  then show ?thesis using TrimSpace_quoted [OF that] by simp
qed

lemma Join_quoted_ends:
  "ws \<noteq> [] \<Longrightarrow> Join (map quoteString ws) '' '' \<noteq> [] \<and>
    hd (Join (map quoteString ws) '' '') = CHR 0x22 \<and> last (Join (map quoteString ws) '' '') = CHR 0x22"
  by (induction ws rule: induct_list012) (auto simp: quoteString_def)

lemma parseQuotedStrings_quote:
  "parseQuotedStrings (Join (map quoteString ws) '' '') = Inr ws"
proof -
  have vis: "visible (last (Join (map quoteString ws) '' ''))" if "ws \<noteq> []" for ws
    using Join_quoted_ends [OF that] visible_quote by simp
  have "parseQuotedStrings_loop (Join (map quoteString ws) '' '') = Inr ws"
  proof (induction ws rule: induct_list012)
    case 1
    then show ?case by (simp add: parseQuotedStrings_loop.simps)
  next
    case (2 w)
    have "quoteString w \<noteq> []" "readQuoted (quoteString w) = Inr (w, [])"
      using readQuoted_quoteString [of w "[]"] by (simp_all add: quoteString_def)
    then show ?case by (simp add: parseQuotedStrings_loop.simps [of "quoteString w"] TrimSpace_id parseQuotedStrings_loop.simps [of "[]"])
  next
    case (3 w v ws)
    let ?r = "Join (map quoteString (v # ws)) '' ''"
    have "TrimSpace ('' '' @ ?r) = ?r"
    proof (cases ws)
      case Nil
      then show ?thesis using TrimSpace_space_quoted [of "[]" v] by simp
    next
      case (Cons x xs)
      then have "?r = quoteString v @ ('' '' @ Join (map quoteString (x # xs)) '' '')" by simp
      then show ?thesis
        using TrimSpace_space_quoted [of "'' '' @ Join (map quoteString (x # xs)) '' ''" v] vis [of "x # xs"]
          Join_quoted_ends [of "x # xs"] by simp
    qed
    moreover have "quoteString w @ '' '' @ ?r \<noteq> []" by (simp add: quoteString_def)
    ultimately have "parseQuotedStrings_loop (quoteString w @ '' '' @ ?r) = Inr (w # v # ws)"
      using 3 readQuoted_quoteString [of w "'' '' @ ?r"] by (subst parseQuotedStrings_loop.simps) simp
    then show ?case by simp
  qed
  moreover have "TrimSpace (Join (map quoteString ws) '' '') = Join (map quoteString ws) '' ''"
    using Join_quoted_ends [of ws] visible_quote by (intro TrimSpace_id) (cases "ws = []", auto)
  ultimately show ?thesis by (simp add: parseQuotedStrings_def)
qed

subsection \<open>Character strings\<close>

text \<open>A reader of length-prefixed strings, and the pieces a long string is cut into.\<close>

function decodeCharStrings :: "bytes \<Rightarrow> string list option" where
  "decodeCharStrings [] = Some []"
| "decodeCharStrings (n # r) =
    (if unat n \<le> length r then
       map_option ((#) (string_of_bytes (take (unat n) r))) (decodeCharStrings (drop (unat n) r))
     else None)"
  by pat_completeness auto
termination
  by (relation "measure length") auto

function pieces :: "string \<Rightarrow> string list" where
  "pieces p = (if length p > 255 then take 255 p # pieces (drop 255 p) else [p])"
  by pat_completeness auto
termination
  by (relation "measure length") auto

declare pieces.simps [simp del]

lemma decodeCharStrings_one:
  "length s \<le> 255 \<Longrightarrow> decodeCharStrings (word_of_nat (length s) # bytes_of_string s @ rest) =
     map_option ((#) s) (decodeCharStrings rest)"
  by (simp add: unat_of_nat)

lemma decodeCharStrings_chunks:
  "decodeCharStrings (txtChunks p @ rest) = map_option ((@) (pieces p)) (decodeCharStrings rest)"
proof (induction p rule: txtChunks.induct)
  case (1 p)
  show ?case
  proof (cases "length p > 255")
    case True
    have "decodeCharStrings (txtChunks p @ rest) =
        decodeCharStrings (word_of_nat (length (take 255 p)) # bytes_of_string (take 255 p) @ (txtChunks (drop 255 p) @ rest))"
      using True by (simp add: txtChunks.simps [of p])
    also have "\<dots> = map_option ((#) (take 255 p)) (decodeCharStrings (txtChunks (drop 255 p) @ rest))"
      by (rule decodeCharStrings_one) simp
    also have "\<dots> = map_option ((@) (pieces p)) (decodeCharStrings rest)"
      using True 1 by (cases "decodeCharStrings rest") (simp_all add: pieces.simps [of p])
    finally show ?thesis .
  next
    case False
    then show ?thesis
      using decodeCharStrings_one [of p rest] by (simp add: txtChunks.simps [of p] pieces.simps [of p] del: decodeCharStrings.simps)
  qed
qed

lemma concat_pieces: "concat (pieces p) = p"
proof (induction p rule: pieces.induct)
  case (1 p)
  then show ?case by (subst pieces.simps) simp
qed

lemma pieces_short: "length p \<le> 255 \<Longrightarrow> pieces p = [p]"
  by (simp add: pieces.simps)

lemma pieces_le: "w \<in> set (pieces p) \<Longrightarrow> length w \<le> 255"
proof (induction p rule: pieces.induct)
  case (1 p)
  then show ?case by (subst (asm) pieces.simps) (auto split: if_splits)
qed

lemma decodeCharStrings_txt:
  "decodeCharStrings (concat (map txtChunks ps)) = Some (concat (map pieces ps))"
  by (induction ps) (simp_all add: decodeCharStrings_chunks)

lemma txtChunks_not_Nil: "txtChunks p \<noteq> []"
  by (subst txtChunks.simps) simp

lemma buildTXT_parts:
  "buildTXT text = Inr b \<Longrightarrow>
    \<exists>ps. (if HasPrefix text [CHR 0x22] then parseQuotedStrings text else Inr [text]) = Inr ps \<and>
      (ps \<noteq> [] \<longrightarrow> b = concat (map txtChunks ps))"
  by (auto simp: buildTXT_def Let_def txtChunks_not_Nil split: sum.splits if_splits)

subsection \<open>Addresses\<close>

definition dotted :: "byte \<Rightarrow> byte \<Rightarrow> byte \<Rightarrow> byte \<Rightarrow> string" where
  "dotted a b c d = Join (map (\<lambda>x. FormatNat (unat x)) [a, b, c, d]) ''.''"

lemma FormatNat_octet:
  assumes "n < 256"
  shows "FormatNat n = (if n < 10 then [char_of (48 + n)]
    else if n < 100 then [char_of (48 + n div 10), char_of (48 + n mod 10)]
    else [char_of (48 + n div 100), char_of (48 + n div 10 mod 10), char_of (48 + n mod 10)])"
proof -
  have "n div 10 div 10 = n div 100" by (simp add: div_mult2_eq [symmetric])
  moreover have "n div 100 < 10" using assms by simp
  moreover have "n div 10 < 10 \<longleftrightarrow> n < 100" by auto
  moreover have "n div 10 < 10 \<Longrightarrow> n div 10 mod 10 = n div 10" by simp
  ultimately show ?thesis
    by (auto simp: FormatNat.simps [of n] FormatNat.simps [of "n div 10"] FormatNat.simps [of "n div 100"])
qed

lemma parseIPv4Fields_digit:
  "d < 10 \<Longrightarrow> \<not> (k = 1 \<and> v = 0) \<Longrightarrow> v * 10 + d \<le> 255 \<Longrightarrow>
   parseIPv4Fields p v k fs (char_of (48 + d) # s) = parseIPv4Fields (Some (char_of (48 + d))) (v * 10 + d) (k + 1) fs s"
  using isDigit_char_of [of d] by auto

lemma parseIPv4Fields_octet:
  assumes "n < 256"
  shows "\<exists>k c. c \<noteq> CHR ''.'' \<and> parseIPv4Fields p 0 0 fs (FormatNat n @ s) = parseIPv4Fields (Some c) n k fs s"
proof -
  have dot: "d < 10 \<Longrightarrow> char_of (48 + d) \<noteq> CHR ''.''" for d :: nat
  proof -
    assume "d < 10"
    then have "isDigit (char_of (48 + d))" by (simp add: isDigit_char_of)
    moreover have "\<not> isDigit CHR ''.''" by (simp add: isDigit_def)
    ultimately show ?thesis by metis
  qed
  have h: "n div 100 < 10" "n div 10 mod 10 < 10" "n mod 10 < 10" using assms by auto
  have dec: "(n div 100 * 10 + n div 10 mod 10) * 10 + n mod 10 = n" using digits_decompose [of n] by simp
  have dec2: "n div 10 * 10 + n mod 10 = n" by simp
  consider (a) "n < 10" | (b) "10 \<le> n" "n < 100" | (c) "100 \<le> n" by linarith
  then show ?thesis
  proof cases
    case a
    then show ?thesis
      using dot [of n] parseIPv4Fields_digit [of n 0 0 p fs s] FormatNat_octet [OF assms] by auto
  next
    case b
    then have "n div 10 < 10" "n div 10 \<noteq> 0" by auto
    then show ?thesis
      using b dot [of "n mod 10"] parseIPv4Fields_digit [of "n div 10" 0 0 p fs "char_of (48 + n mod 10) # s"]
        parseIPv4Fields_digit [of "n mod 10" 1 "n div 10" "Some (char_of (48 + n div 10))" fs s] FormatNat_octet [OF assms] dec2 assms
      by auto
  next
    case c
    then have "n div 100 \<noteq> 0" by auto
    moreover have "n div 100 * 10 + n div 10 mod 10 \<le> 255" using dec assms by linarith
    ultimately show ?thesis
      using c h dot [of "n mod 10"] dec assms FormatNat_octet [OF assms]
        parseIPv4Fields_digit [of "n div 100" 0 0 p fs "char_of (48 + n div 10 mod 10) # char_of (48 + n mod 10) # s"]
        parseIPv4Fields_digit [of "n div 10 mod 10" 1 "n div 100" "Some (char_of (48 + n div 100))" fs "char_of (48 + n mod 10) # s"]
        parseIPv4Fields_digit [of "n mod 10" 2 "n div 100 * 10 + n div 10 mod 10" "Some (char_of (48 + n div 10 mod 10))" fs s]
      by (intro exI [of _ 3] exI [of _ "char_of (48 + n mod 10)"])
        (simp del: parseIPv4Fields.simps add: numeral_3_eq_3 numeral_2_eq_2)
  qed
qed

lemma ParseAddr_dotted: "ParseAddr (dotted a b c d) = Some (Addr4 [a, b, c, d])"
proof -
  have u: "unat x < 256" for x :: byte by (rule unat_byte_less)
  have step: "parseIPv4Fields p 0 0 fs (FormatNat (unat x) @ CHR ''.'' # s) = parseIPv4Fields (Some CHR ''.'') 0 0 (fs @ [x]) s"
    if "s \<noteq> []" "length fs \<noteq> 3" for p fs x s
    using parseIPv4Fields_octet [OF u [of x], of p fs "CHR ''.'' # s"] that
    by (auto simp: isDigit_def split: if_splits)
  have fin: "parseIPv4Fields p 0 0 fs (FormatNat (unat x)) = Some (fs @ [x])" if "length fs = 3" for p fs x
    using parseIPv4Fields_octet [OF u [of x], of p fs "[]"] that by auto
  have ne: "FormatNat n \<noteq> []" for n by (subst FormatNat.simps) simp
  have "parseIPv4Fields None 0 0 [] (dotted a b c d) = Some [a, b, c, d]"
    by (simp add: dotted_def step fin ne)
  moreover have "find (\<lambda>c. c = CHR ''.'' \<or> c = CHR '':'' \<or> c = CHR ''%'') (dotted a b c d) = Some CHR ''.''"
  proof -
    have dig: "isDigit x" if "x \<in> set (FormatNat n)" for x n
      using that
    proof (induction n rule: FormatNat.induct)
      case (1 n)
      then show ?case
        using isDigit_char_of [of n] isDigit_char_of [of "n mod 10"]
        by (subst (asm) FormatNat.simps) (auto split: if_splits)
    qed
    have skip: "(\<And>x. x \<in> set xs \<Longrightarrow> \<not> P x) \<Longrightarrow> find P (xs @ ys) = find P ys" for P and xs ys :: string
      by (induction xs) auto
    show ?thesis
      unfolding dotted_def
      by (simp, subst skip) (auto dest!: dig simp: isDigit_def)
  qed
  ultimately show ?thesis by (simp add: ParseAddr_def)
qed

lemma FormatNat_digits: "FormatNat n \<noteq> [] \<and> list_all isDigit (FormatNat n)"
proof (induction n rule: FormatNat.induct)
  case (1 n)
  then show ?case
    using isDigit_char_of [of n] isDigit_char_of [of "n mod 10"] unfolding FormatNat.simps [of n] by auto
qed

lemma isDigit_visible: "isDigit c \<Longrightarrow> visible c"
  by (auto simp: isDigit_def visible_def Let_def)

lemma TrimSpace_dotted: "TrimSpace (dotted a b c d) = dotted a b c d"
proof -
  have "visible (hd (FormatNat n)) \<and> visible (last (FormatNat n)) \<and> FormatNat n \<noteq> []" for n
    using FormatNat_digits [of n] by (auto simp: list_all_iff isDigit_visible)
  then show ?thesis by (intro TrimSpace_id) (simp add: dotted_def hd_append)
qed

subsection \<open>Record data is not empty\<close>

lemma parseIPv4Fields_nonempty: "parseIPv4Fields prev v d flds s = Some b \<Longrightarrow> b \<noteq> []"
  by (induction prev v d flds s rule: parseIPv4Fields.induct) (auto simp: Let_def split: if_splits)

lemma PackName_nonempty: "PackName buf n = (b, None) \<Longrightarrow> b \<noteq> []"
  using PackName_ok [of n buf] PackName_ok_iff [of buf n] length_wireOfName [of "TrimSuffix n ''.''"] by (auto split: if_splits)

lemma packedName_nonempty: "packedName buf n = (b, None) \<Longrightarrow> b \<noteq> []"
  by (auto dest!: packedName_ok PackName_nonempty)

lemma takeQuoted_loop_length: "takeQuoted_loop n rest = Inr (ss, r) \<Longrightarrow> length ss = n"
  by (induction n rest arbitrary: ss rule: takeQuoted_loop.induct) (auto split: if_splits sum.splits)

lemma charStrings_nonempty: "charStrings ss = Some b \<Longrightarrow> ss \<noteq> [] \<Longrightarrow> b \<noteq> []"
  by (cases ss) (auto split: if_splits)

lemma parseIPv6_nonempty: "parseIPv6 x = Some (Addr6 b z) \<Longrightarrow> b \<noteq> []"
  by (auto simp: parseIPv6_def Let_def split: if_splits option.splits prod.splits)

lemma ParseAddr_nonempty: "ParseAddr x = Some (Addr4 b) \<Longrightarrow> b \<noteq> []" "ParseAddr x = Some (Addr6 b z) \<Longrightarrow> b \<noteq> []"
  by (auto simp: ParseAddr_def parseIPv6_def Let_def dest: parseIPv4Fields_nonempty parseIPv6_nonempty split: option.splits if_splits prod.splits)

lemma build_nonempty:
  "buildA x = (b, None) \<Longrightarrow> b \<noteq> []" "buildAAAA x = (b, None) \<Longrightarrow> b \<noteq> []" "buildName x = (b, None) \<Longrightarrow> b \<noteq> []"
  "buildMX x = (b, None) \<Longrightarrow> b \<noteq> []" "buildTXT x = Inr b \<Longrightarrow> b \<noteq> []" "buildHINFO x = (b, None) \<Longrightarrow> b \<noteq> []"
  by (auto simp: buildA_def buildAAAA_def buildName_def buildMX_def buildTXT_def buildHINFO_def takeQuoted_def Let_def
      dest!: ParseAddr_nonempty packedName_nonempty takeQuoted_loop_length charStrings_nonempty
      split: option.splits netip_addr.splits if_splits list.splits sum.splits prod.splits)

lemma build_nonempty':
  "buildSRV x = (b, None) \<Longrightarrow> b \<noteq> []" "buildCAA x = (b, None) \<Longrightarrow> b \<noteq> []" "buildNAPTR x = (b, None) \<Longrightarrow> b \<noteq> []"
  "buildBinary nums dec e e' x = (b, None) \<Longrightarrow> b \<noteq> []"
  by (auto simp del: parseUints.simps simp: buildSRV_def buildCAA_def buildNAPTR_def buildBinary_def Let_def
      dest!: packedName_nonempty split: option.splits if_splits list.splits sum.splits prod.splits)

lemma BuildRData_nonempty: "BuildRData t x = (b, None) \<Longrightarrow> b \<noteq> []"
  unfolding BuildRData_def Let_def
  by (auto dest: build_nonempty build_nonempty' split: if_splits sum.splits)

section \<open>Properties\<close>

text \<open>Record data built for a type that carries a domain name (NS, CNAME, DNAME, PTR, MX,
  SRV) points where its text says: \<open>RDataNames\<close> of the wire data is the target name written in the
  text (its second field for MX, its fourth for SRV), without the final dot.\<close>

lemma RDataNames_target:
  assumes "t \<in> {TypeNS, TypeCNAME, TypeDNAME, TypePTR, TypeMX, TypeSRV}" and "BuildRData t text = (b, None)"
  shows "RDataNames t b = canonName (targetText t text)"
  using assms by (rule RDataNames_BuildRData)

lemma RDataNames_target_witness:
  "BuildRData TypeCNAME ''www.a.'' = ([3, 119, 119, 119, 1, 97, 0], None) \<and>
   RDataNames TypeCNAME [3, 119, 119, 119, 1, 97, 0] = canonName (targetText TypeCNAME ''www.a.'')"
proof -
  have "TrimSpace ''www.a.'' = ''www.a.''" by (rule TrimSpace_id) (simp add: visible_def)
  then have b: "BuildRData TypeCNAME ''www.a.'' = ([3, 119, 119, 119, 1, 97, 0], None)"
    by (simp add: BuildRData_def buildName_def ContainsAny_def packedName_def PackName_labels TrimSuffix_def
        HasSuffix_single byte_of_char_def)
  then show ?thesis using RDataNames_target [of TypeCNAME "''www.a.''"] by blast
qed

text \<open>An IPv4 address written as four decimal numbers becomes exactly its four bytes.\<close>

lemma BuildRData_A_dotted: "BuildRData TypeA (dotted a b c d) = ([a, b, c, d], None)"
  by (simp add: BuildRData_def buildA_def TrimSpace_dotted ParseAddr_dotted)

text \<open>TXT data survives: text made of quoted strings (quotes, backslashes and non-printable
  bytes escaped) is accepted, the length-prefixed strings of the wire data decode without error,
  their concatenation is the concatenation of the strings, and strings of at most 255 bytes come
  back one by one.\<close>

lemma BuildRData_TXT_roundtrip:
  assumes "ws \<noteq> []"
  shows "\<exists>b ss. BuildRData TypeTXT (Join (map quoteString ws) '' '') = (b, None) \<and>
    decodeCharStrings b = Some ss \<and> concat ss = concat ws \<and>
    (list_all (\<lambda>w. length w \<le> 255) ws \<longrightarrow> ss = ws)"
proof -
  let ?t = "Join (map quoteString ws) '' ''"
  have e: "?t \<noteq> []" "hd ?t = CHR 0x22" "last ?t = CHR 0x22" using Join_quoted_ends [OF assms] by auto
  then have "TrimSpace ?t = ?t" by (intro TrimSpace_id) (simp add: visible_quote)
  moreover have "HasPrefix ?t [CHR 0x22]" using e by (cases ?t) (auto simp: HasPrefix_def)
  moreover have "concat (map txtChunks ws) \<noteq> []" using assms txtChunks_not_Nil by (cases ws) auto
  ultimately have "BuildRData TypeTXT ?t = (concat (map txtChunks ws), None)"
    by (auto simp: BuildRData_def buildTXT_def parseQuotedStrings_quote)
  moreover have "concat (concat (map pieces ws)) = concat ws" by (induction ws) (simp_all add: concat_pieces)
  moreover have "concat (map pieces ws) = ws" if "list_all (\<lambda>w. length w \<le> 255) ws"
    using that by (induction ws) (auto simp: pieces_short)
  ultimately show ?thesis by (auto simp: decodeCharStrings_txt)
qed

lemma BuildRData_TXT_roundtrip_witness:
  "[''v=spf1 -all'', ''b''] \<noteq> [] \<and>
   (\<exists>b ss. BuildRData TypeTXT (Join (map quoteString [''v=spf1 -all'', ''b'']) '' '') = (b, None) \<and>
     decodeCharStrings b = Some ss \<and> ss = [''v=spf1 -all'', ''b''])"
  using BuildRData_TXT_roundtrip [of "[''v=spf1 -all'', ''b'']"] by auto

text \<open>The list of supported types is the list of types the encoder handles: \<open>BuildRData\<close>
  reports an unsupported type exactly for the types \<open>SupportedType\<close> rejects.\<close>

lemma SupportedType_matches:
  "SupportedType t \<longleftrightarrow> snd (BuildRData t text) \<noteq> Some (UnsupportedType t)"
  by (rule SupportedType_BuildRData)

text \<open>SOA data is the two names followed by the five counters: decoding the output of
  \<open>BuildSOA\<close> name by name gives back the primary server and the mailbox, and the 20 bytes after
  them are serial, refresh, retry, expire and minimum, in this order.\<close>

lemma BuildSOA_decodes:
  assumes "BuildSOA primary admin serial refresh retry expire minimum = Inr b"
  shows "\<exists>i j. ParseName b 0 = Inr (canonName primary, i) \<and> ParseName b i = Inr (canonName admin, j) \<and>
    drop j b = concat (map PutUint32 [serial, refresh, retry, expire, minimum]) \<and> length b = j + 20"
proof -
  let ?n = "concat (map PutUint32 [serial, refresh, retry, expire, minimum])"
  let ?p = "wireOfName (TrimSuffix primary ''.'')" and ?a = "wireOfName (TrimSuffix admin ''.'')"
  have "snd (PackName [] primary) = None" "snd (PackName (fst (PackName [] primary)) admin) = None"
    using assms by (auto simp: BuildSOA_def split: prod.splits option.splits)
  then have w: "wireName (TrimSuffix primary ''.'')" "wireName (TrimSuffix admin ''.'')"
    by (simp_all add: PackName_ok_iff)
  then have b: "b = ?p @ ?a @ ?n"
    using assms PackName_ok [OF w(1), of "[]"] PackName_ok [OF w(2), of ?p] by (simp add: BuildSOA_def)
  have "ParseName b 0 = Inr (canonName primary, length ?p)"
    using ParseName_wireOfName [OF w(1), of "[]" "?a @ ?n"] by (auto simp: b canonName_def Let_def)
  moreover have "ParseName b (length ?p) = Inr (canonName admin, length (?p @ ?a))"
    using ParseName_wireOfName [OF w(2), of ?p ?n] by (auto simp: b canonName_def Let_def)
  moreover have "drop (length (?p @ ?a)) b = ?n" by (simp add: b)
  moreover have "length b = length (?p @ ?a) + 20" by (simp add: b)
  ultimately show ?thesis by blast
qed

lemma BuildSOA_decodes_witness:
  "\<exists>b i j. BuildSOA ''ns.a'' ''h.a'' 7 1 2 3 4 = Inr b \<and> ParseName b 0 = Inr (canonName ''ns.a'', i) \<and>
    ParseName b i = Inr (canonName ''h.a'', j) \<and> length b = j + 20"
proof -
  obtain b where b: "BuildSOA ''ns.a'' ''h.a'' 7 1 2 3 4 = Inr b"
    by (simp add: BuildSOA_def PackName_labels TrimSuffix_def HasSuffix_single)
  show ?thesis using BuildSOA_decodes [OF b] b by blast
qed



end
