(* ===== verification/Store.thy ===== *)
theory Store
  imports Dns_Rdata "HOL-Library.List_Lexorder" "HOL-Library.Char_ord" "HOL-Library.Multiset"
begin

text \<open>
  The store of \<open>src/internal/store/{store,zone,record}.go\<close> over the tables of \<open>src/db/schema.sql\<close>.
  The two tables are lists of rows and every SQL statement the code issues is written out on them.
  What PostgreSQL decides is an argument \<open>pg\<close> of the operations: the clock, the digest \<open>md5\<close>, the order of
  text under the database's collation, the order of the rows of a query that asks for none, and whether
  the n-th statement of the operation fails (and with which error). A failed statement of a transaction
  rolls it back; when the statement that makes a change permanent fails, \<open>pg_applied\<close> tells whether the
  server had applied it all the same.
\<close>

section \<open>Data\<close>

record zone =
  z_Name :: string
  z_PrimaryNS :: string
  z_AdminEmail :: string
  z_Serial :: int
  z_Refresh :: int
  z_Retry :: int
  z_Expire :: int
  z_MinTTL :: int
  z_CreatedAt :: int
  z_UpdatedAt :: int

record srecord =
  r_ID :: int
  r_Zone :: string
  r_Name :: string
  r_Type :: string
  r_TTL :: int
  r_RData :: string
  r_CreatedAt :: int
  r_Wire :: bytes
  r_WireErr :: "rdata_err option"

record name_set =
  n_Records :: "srecord list"
  n_HasChildren :: bool

definition Exists :: "name_set \<Rightarrow> bool" where
  "Exists n = (0 < length (n_Records n) \<or> n_HasChildren n)"

datatype db_error = PgError string | Canceled | DeadlineExceeded | OtherError

datatype conflict = ZoneExists | CnameAtApex | CnameNotAlone | HasCname

datatype store_err =
    ErrNotFound
  | ErrConflict conflict
  | ZoneNameRequired
  | InvalidPageToken
  | DbErr db_error

definition isPgCode :: "db_error \<Rightarrow> string \<Rightarrow> bool" where
  "isPgCode err code = (case err of PgError c \<Rightarrow> c = code | _ \<Rightarrow> False)"

type_synonym encoder = "string \<Rightarrow> string \<Rightarrow> bytes \<times> rdata_err option"

text \<open>The rows of \<open>records\<close>, and the two tables with the identity sequence of \<open>records\<close>.\<close>

record srow =
  w_id :: int
  w_zone :: string
  w_name :: string
  w_name_rev :: string
  w_type :: string
  w_ttl :: int
  w_rdata :: string
  w_created :: int

record db =
  d_zones :: "zone list"
  d_records :: "srow list"
  d_next :: int

record pgenv =
  pg_epoch :: int
  pg_now :: int
  pg_md5 :: "string \<Rightarrow> string"
  pg_less :: "string \<Rightarrow> string \<Rightarrow> bool"
  pg_rows :: "srow list \<Rightarrow> srow list"
  pg_fault :: "nat \<Rightarrow> db_error option"
  pg_applied :: bool

section \<open>Names\<close>

definition NormalizeZone :: "unicode_case \<Rightarrow> string \<Rightarrow> string" where
  "NormalizeZone u name = TrimSuffix (ToLower u (TrimSpace name)) ''.''"

definition NormalizeName :: "unicode_case \<Rightarrow> string \<Rightarrow> string \<Rightarrow> string" where
  "NormalizeName u zone name =
    (let name = TrimSuffix (ToLower u (TrimSpace name)) ''.''
     in if name = [] \<or> name = ''@'' \<or> name = zone then zone
        else if HasSuffix name (''.'' @ zone) then name
        else name @ ''.'' @ zone)"

definition NormalizeType :: "unicode_case \<Rightarrow> string \<Rightarrow> string" where
  "NormalizeType u t = ToUpper u (TrimSpace t)"

text \<open>The swap loop of \<open>reverseName\<close>; \<open>j\<close> is one more than in the code, so that it stays a natural number.\<close>

function reverse_loop :: "'a list \<Rightarrow> nat \<Rightarrow> nat \<Rightarrow> 'a list" where
  "reverse_loop labels i j =
    (if i + 1 < j then reverse_loop (labels[i := labels ! (j - 1), j - 1 := labels ! i]) (i + 1) (j - 1) else labels)"
  by pat_completeness auto
termination by (relation "measure (\<lambda>(labels, i, j). j - i)") auto

declare reverse_loop.simps [simp del]

definition reverseName :: "string \<Rightarrow> string" where
  "reverseName name =
    (let labels = Split name CHR ''.'' in Join (reverse_loop labels 0 (length labels)) ''.'')"

section \<open>Statements\<close>

text \<open>A read fails or gives its result.\<close>

definition onFault :: "pgenv \<Rightarrow> nat \<Rightarrow> db \<Rightarrow> (store_err + 'a) \<times> db \<Rightarrow> (store_err + 'a) \<times> db" where
  "onFault pg n rollback k = (case pg_fault pg n of Some e \<Rightarrow> (Inl (DbErr e), rollback) | None \<Rightarrow> k)"

definition query :: "pgenv \<Rightarrow> nat \<Rightarrow> store_err + 'a \<Rightarrow> store_err + 'a" where
  "query pg n r = (case pg_fault pg n of Some e \<Rightarrow> Inl (DbErr e) | None \<Rightarrow> r)"

text \<open>A statement on its own, or the commit of a transaction: on success \<open>r\<close> is the result and \<open>db'\<close> the
  new database, on failure the database is \<open>db\<close>, or \<open>db'\<close> if only the answer was lost.\<close>

definition commitTo :: "pgenv \<Rightarrow> nat \<Rightarrow> db \<Rightarrow> db \<Rightarrow> 'a \<Rightarrow> (store_err + 'a) \<times> db" where
  "commitTo pg n db db' r =
    (case pg_fault pg n of Some e \<Rightarrow> (Inl (DbErr e), if pg_applied pg then db' else db) | None \<Rightarrow> (Inr r, db'))"

text \<open>\<open>SET serial = GREATEST(serial + 1, extract(epoch from now())::bigint), updated_at = now()\<close>; the
  addition of a \<open>bigint\<close> fails out of range.\<close>

definition bumpSerial :: "pgenv \<Rightarrow> zone \<Rightarrow> zone option" where
  "bumpSerial pg z =
    (if z_Serial z + 1 \<ge> 2 ^ 63 then None
     else Some (z\<lparr>z_Serial := max (z_Serial z + 1) (pg_epoch pg), z_UpdatedAt := pg_now pg\<rparr>))"

definition zoneNamed :: "db \<Rightarrow> string \<Rightarrow> zone option" where
  "zoneNamed db name = find (\<lambda>z. z_Name z = name) (d_zones db)"

definition putZone :: "zone \<Rightarrow> db \<Rightarrow> db" where
  "putZone z db = db\<lparr>d_zones := map (\<lambda>z'. if z_Name z' = z_Name z then z else z') (d_zones db)\<rparr>"

section \<open>Zones\<close>

text \<open>\<open>scanZone\<close> of a query that yields at most one row.\<close>

definition scanZone :: "zone option \<Rightarrow> store_err + zone" where
  "scanZone row = (case row of Some z \<Rightarrow> Inr z | None \<Rightarrow> Inl ErrNotFound)"

definition CreateZone :: "unicode_case \<Rightarrow> pgenv \<Rightarrow> db \<Rightarrow> zone \<Rightarrow> (store_err + zone) \<times> db" where
  "CreateZone u pg db z =
    (let name = NormalizeZone u (z_Name z);
         row = z\<lparr>z_Name := name, z_Serial := pg_epoch pg, z_CreatedAt := pg_now pg, z_UpdatedAt := pg_now pg\<rparr>
     in if name = [] then (Inl ZoneNameRequired, db)
        else let (out, db') = (if zoneNamed db name \<noteq> None then onFault pg 0 db (Inl (DbErr (PgError ''23505'')), db)
                               else commitTo pg 0 db (db\<lparr>d_zones := d_zones db @ [row]\<rparr>) row)
             in case out of
                  Inl (DbErr err) \<Rightarrow> (if isPgCode err ''23505'' then Inl (ErrConflict ZoneExists) else out, db')
                | _ \<Rightarrow> (out, db'))"

definition GetZone :: "unicode_case \<Rightarrow> pgenv \<Rightarrow> db \<Rightarrow> string \<Rightarrow> store_err + zone" where
  "GetZone u pg db name = query pg 0 (scanZone (zoneNamed db (NormalizeZone u name)))"

definition UpdateZone :: "unicode_case \<Rightarrow> pgenv \<Rightarrow> db \<Rightarrow> zone \<Rightarrow> (store_err + zone) \<times> db" where
  "UpdateZone u pg db z =
    (case zoneNamed db (NormalizeZone u (z_Name z)) of
       None \<Rightarrow> onFault pg 0 db (Inl ErrNotFound, db)
     | Some old \<Rightarrow>
         (case bumpSerial pg (old\<lparr>z_PrimaryNS := z_PrimaryNS z, z_AdminEmail := z_AdminEmail z,
              z_Refresh := z_Refresh z, z_Retry := z_Retry z, z_Expire := z_Expire z, z_MinTTL := z_MinTTL z\<rparr>) of
            None \<Rightarrow> onFault pg 0 db (Inl (DbErr (PgError ''22003'')), db)
          | Some new \<Rightarrow> commitTo pg 0 db (putZone new db) new))"

text \<open>\<open>ON DELETE CASCADE\<close> removes the zone's records.\<close>

definition DeleteZone :: "unicode_case \<Rightarrow> pgenv \<Rightarrow> db \<Rightarrow> string \<Rightarrow> (store_err + unit) \<times> db" where
  "DeleteZone u pg db name =
    (let name = NormalizeZone u name
     in if zoneNamed db name = None then onFault pg 0 db (Inl ErrNotFound, db)
        else commitTo pg 0 db
          (db\<lparr>d_zones := filter (\<lambda>z. z_Name z \<noteq> name) (d_zones db),
              d_records := filter (\<lambda>r. w_zone r \<noteq> name) (d_records db)\<rparr>) ())"

text \<open>\<open>ORDER BY\<close> a text column.\<close>

fun insertBy :: "('a \<Rightarrow> 'a \<Rightarrow> bool) \<Rightarrow> 'a \<Rightarrow> 'a list \<Rightarrow> 'a list" where
  "insertBy lt x [] = [x]"
| "insertBy lt x (y # ys) = (if lt y x then y # insertBy lt x ys else x # y # ys)"

definition sortBy :: "('a \<Rightarrow> 'a \<Rightarrow> bool) \<Rightarrow> 'a list \<Rightarrow> 'a list" where
  "sortBy lt xs = foldr (insertBy lt) xs []"

definition ListZones :: "pgenv \<Rightarrow> db \<Rightarrow> nat \<Rightarrow> string \<Rightarrow> store_err + (zone list \<times> string)" where
  "ListZones pg db limit after =
    query pg 0
      (let zones = take (limit + 1) (sortBy (\<lambda>a b. pg_less pg (z_Name a) (z_Name b))
                     (filter (\<lambda>z. pg_less pg after (z_Name z)) (d_zones db)))
       in if length zones > limit
          then let zones = take limit zones in Inr (zones, z_Name (zones ! (limit - 1)))
          else Inr (zones, []))"

text \<open>The loop that collects a name and its ancestors.\<close>

function candidates :: "string \<Rightarrow> string list" where
  "candidates name =
    (if name = [] then []
     else name # (case IndexByte name CHR ''.'' of None \<Rightarrow> [] | Some i \<Rightarrow> candidates (drop (i + 1) name)))"
  by pat_completeness auto
termination by (relation "measure length") (auto dest: IndexByte_Some)

declare candidates.simps [simp del]

text \<open>\<open>ORDER BY length(name) DESC LIMIT 1\<close>: no row of the table matching, or a longest one. The names
  that can match are all suffixes of one another, so characters and bytes order them alike.\<close>

fun longest :: "zone list \<Rightarrow> zone option" where
  "longest [] = None"
| "longest (z # zs) =
    (case longest zs of None \<Rightarrow> Some z
     | Some z' \<Rightarrow> if length (z_Name z) < length (z_Name z') then Some z' else Some z)"

definition FindZone :: "unicode_case \<Rightarrow> pgenv \<Rightarrow> db \<Rightarrow> string \<Rightarrow> store_err + zone" where
  "FindZone u pg db qname =
    (let cands = candidates (NormalizeZone u qname)
     in if cands = [] then Inl ErrNotFound
        else query pg 0 (scanZone (longest (filter (\<lambda>z. z_Name z \<in> set cands) (d_zones db)))))"

section \<open>Records\<close>

definition scanRecord :: "encoder option \<Rightarrow> srow \<Rightarrow> srecord" where
  "scanRecord enc w =
    (let (wire, werr) = (case enc of None \<Rightarrow> ([], None) | Some encode \<Rightarrow> encode (w_type w) (w_rdata w))
     in \<lparr>r_ID = w_id w, r_Zone = w_zone w, r_Name = w_name w, r_Type = w_type w, r_TTL = w_ttl w,
         r_RData = w_rdata w, r_CreatedAt = w_created w, r_Wire = wire, r_WireErr = werr\<rparr>)"

definition collectRecords :: "encoder option \<Rightarrow> srow list \<Rightarrow> srecord list" where
  "collectRecords enc rows = map (scanRecord enc) rows"

text \<open>The key of the unique index, and the \<open>INSERT ... ON CONFLICT ... DO UPDATE SET ttl = EXCLUDED.ttl
  RETURNING ...\<close>, which takes a number of the sequence whether or not it inserts.\<close>

definition rrKey :: "pgenv \<Rightarrow> srow \<Rightarrow> string \<times> string \<times> string \<times> string" where
  "rrKey pg w = (w_zone w, w_name w, w_type w, pg_md5 pg (w_rdata w))"

definition upsert :: "pgenv \<Rightarrow> srow \<Rightarrow> db \<Rightarrow> srow \<times> db" where
  "upsert pg w db =
    (let w = w\<lparr>w_id := d_next db\<rparr>; db = db\<lparr>d_next := d_next db + 1\<rparr>
     in case find (\<lambda>x. rrKey pg x = rrKey pg w) (d_records db) of
          Some old \<Rightarrow> (old\<lparr>w_ttl := w_ttl w\<rparr>,
            db\<lparr>d_records := map (\<lambda>x. if rrKey pg x = rrKey pg w then x\<lparr>w_ttl := w_ttl w\<rparr> else x) (d_records db)\<rparr>)
        | None \<Rightarrow> (w, db\<lparr>d_records := d_records db @ [w]\<rparr>))"

definition setTTL :: "string \<Rightarrow> string \<Rightarrow> string \<Rightarrow> int \<Rightarrow> db \<Rightarrow> db" where
  "setTTL zone name rtype ttl db =
    db\<lparr>d_records := map (\<lambda>x. if w_zone x = zone \<and> w_name x = name \<and> w_type x = rtype \<and> w_ttl x \<noteq> ttl
                              then x\<lparr>w_ttl := ttl\<rparr> else x) (d_records db)\<rparr>"

text \<open>The two \<open>EXISTS\<close> queries that keep a CNAME alone at its name.\<close>

definition cnameConflict :: "pgenv \<Rightarrow> db \<Rightarrow> string \<Rightarrow> string \<Rightarrow> string \<Rightarrow> string \<Rightarrow> conflict option" where
  "cnameConflict pg db zone name rtype rdata =
    (if rtype = ''CNAME'' then
       if list_ex (\<lambda>x. w_zone x = zone \<and> w_name x = name \<and>
            (w_type x \<noteq> ''CNAME'' \<or> pg_md5 pg (w_rdata x) \<noteq> pg_md5 pg rdata)) (d_records db)
       then Some CnameNotAlone else None
     else
       if list_ex (\<lambda>x. w_zone x = zone \<and> w_name x = name \<and> w_type x = ''CNAME'') (d_records db)
       then Some HasCname else None)"

definition CreateRecord ::
  "unicode_case \<Rightarrow> pgenv \<Rightarrow> encoder option \<Rightarrow> db \<Rightarrow> srecord \<Rightarrow> (store_err + srecord) \<times> db" where
  "CreateRecord u pg enc db r =
    (let zone = NormalizeZone u (r_Zone r);
         name = NormalizeName u zone (r_Name r);
         rtype = NormalizeType u (r_Type r)
     in onFault pg 0 db
       (case zoneNamed db zone of
          None \<Rightarrow> onFault pg 1 db (Inl ErrNotFound, db)
        | Some z \<Rightarrow>
          (case bumpSerial pg z of
             None \<Rightarrow> onFault pg 1 db (Inl (DbErr (PgError ''22003'')), db)
           | Some z' \<Rightarrow> onFault pg 1 db
              (if rtype = ''CNAME'' \<and> name = zone then (Inl (ErrConflict CnameAtApex), db)
               else onFault pg 2 db
                 (case cnameConflict pg db zone name rtype (r_RData r) of
                    Some c \<Rightarrow> (Inl (ErrConflict c), db)
                  | None \<Rightarrow>
                     let (w, db1) = upsert pg \<lparr>w_id = 0, w_zone = zone, w_name = name, w_name_rev = reverseName name,
                            w_type = rtype, w_ttl = r_TTL r, w_rdata = r_RData r, w_created = pg_now pg\<rparr> (putZone z' db);
                         out = scanRecord enc w;
                         rolledBack = db\<lparr>d_next := d_next db1\<rparr>;
                         db2 = setTTL zone name rtype (r_TTL r) db1
                     in onFault pg 3 rolledBack
                       (onFault pg 4 rolledBack
                         (commitTo pg 5 rolledBack db2 out)))))))"

definition DeleteRecord ::
  "unicode_case \<Rightarrow> pgenv \<Rightarrow> db \<Rightarrow> string \<Rightarrow> string \<Rightarrow> string \<Rightarrow> string \<Rightarrow> (store_err + unit) \<times> db" where
  "DeleteRecord u pg db zone name rtype rdata =
    (let zone = NormalizeZone u zone;
         name = NormalizeName u zone name;
         hit = (\<lambda>x. w_zone x = zone \<and> w_name x = name \<and> w_type x = NormalizeType u rtype \<and>
                     pg_md5 pg (w_rdata x) = pg_md5 pg rdata);
         db1 = db\<lparr>d_records := filter (\<lambda>x. \<not> hit x) (d_records db)\<rparr>
     in onFault pg 0 db
       (onFault pg 1 db
         (if \<not> list_ex hit (d_records db) then (Inl ErrNotFound, db)
          else case zoneNamed db1 zone of
              None \<Rightarrow> onFault pg 2 db (commitTo pg 3 db db1 ())
            | Some z \<Rightarrow>
               (case bumpSerial pg z of
                  None \<Rightarrow> onFault pg 2 db (Inl (DbErr (PgError ''22003'')), db)
                | Some z' \<Rightarrow> onFault pg 2 db (commitTo pg 3 db (putZone z' db1) ())))))"

definition ListRecords ::
  "unicode_case \<Rightarrow> pgenv \<Rightarrow> encoder option \<Rightarrow> db \<Rightarrow> string \<Rightarrow> nat \<Rightarrow> string \<Rightarrow> store_err + (srecord list \<times> string)" where
  "ListRecords u pg enc db zone limit after =
    (case (if after = [] then Some 0 else ParseInt after) of
       None \<Rightarrow> Inl InvalidPageToken
     | Some afterID \<Rightarrow>
        if afterID < 0 then Inl InvalidPageToken
        else query pg 0
          (let records = collectRecords enc (take (limit + 1) (sort_key w_id
                 (filter (\<lambda>w. w_zone w = NormalizeZone u zone \<and> w_id w > afterID) (d_records db))))
           in if length records > limit
              then let records = take limit records in Inr (records, FormatInt (r_ID (records ! (limit - 1))))
              else Inr (records, [])))"

definition GetRecords ::
  "unicode_case \<Rightarrow> pgenv \<Rightarrow> encoder option \<Rightarrow> db \<Rightarrow> string \<Rightarrow> string \<Rightarrow> string \<Rightarrow> store_err + srecord list" where
  "GetRecords u pg enc db zone name rtype =
    (let zone = NormalizeZone u zone
     in query pg 0 (Inr (collectRecords enc (sort_key w_id
          (filter (\<lambda>w. w_zone w = zone \<and> w_name w = NormalizeName u zone name \<and> w_type w = NormalizeType u rtype)
            (d_records db))))))"

text \<open>The first query of \<open>LookupName\<close>, and the second, a range of \<open>name_rev\<close> in the byte order of
  the collation \<open>C\<close>.\<close>

definition recordsAt :: "pgenv \<Rightarrow> encoder option \<Rightarrow> db \<Rightarrow> string \<Rightarrow> string \<Rightarrow> srecord list" where
  "recordsAt pg enc db zone name =
    collectRecords enc (pg_rows pg (filter (\<lambda>w. w_zone w = zone \<and> w_name w = name) (d_records db)))"

definition childrenOf :: "db \<Rightarrow> string \<Rightarrow> string \<Rightarrow> bool" where
  "childrenOf db zone name =
    (let prefix = reverseName name @ ''.''
     in list_ex (\<lambda>w. w_zone w = zone \<and> w_name_rev w \<ge> prefix \<and>
          w_name_rev w < take (length prefix - 1) prefix @ ''/'') (d_records db))"

definition LookupName :: "pgenv \<Rightarrow> encoder option \<Rightarrow> db \<Rightarrow> string \<Rightarrow> string \<Rightarrow> store_err + name_set" where
  "LookupName pg enc db zone name =
    query pg 0
      (let records = recordsAt pg enc db zone name
       in if 0 < length records then Inr \<lparr>n_Records = records, n_HasChildren = False\<rparr>
          else query pg 1 (Inr \<lparr>n_Records = [], n_HasChildren = childrenOf db zone name\<rparr>))"

end
