(* ===== verification/Store_Invariant.thy ===== *)
theory Store_Invariant
  imports Store
begin

text \<open>
  Lemmas on the store: reversed names and the byte range that selects the names below a name, the
  enclosing zones of a name, what each statement does to the tables, the invariant of the database, and
  that every operation keeps it, whichever of its statements fail.
\<close>

section \<open>Reversed names\<close>

lemma reverse_loop_nth:
  assumes "j \<le> length xs" "k < length xs"
  shows "length (reverse_loop xs i j) = length xs \<and>
    reverse_loop xs i j ! k = (if i \<le> k \<and> k < j then xs ! (i + j - 1 - k) else xs ! k)"
  using assms
proof (induction xs i j rule: reverse_loop.induct)
  case (1 xs i j)
  let ?xs = "xs[i := xs ! (j - 1), j - 1 := xs ! i]"
  show ?case
  proof (cases "i + 1 < j")
    case True
    then have IH: "length (reverse_loop ?xs (i + 1) (j - 1)) = length ?xs"
      "reverse_loop ?xs (i + 1) (j - 1) ! k =
        (if i + 1 \<le> k \<and> k < j - 1 then ?xs ! (i + 1 + (j - 1) - 1 - k) else ?xs ! k)"
      using 1 by auto
    have eq: "reverse_loop xs i j = reverse_loop ?xs (i + 1) (j - 1)"
      by (subst reverse_loop.simps) (simp only: True if_True)
    have ij: "i < length xs" "j - 1 < length xs" "i \<noteq> j - 1" using True 1(2) by auto
    have at: "?xs ! m = (if m = j - 1 then xs ! i else if m = i then xs ! (j - 1) else xs ! m)" if "m < length xs" for m
      using ij that by (simp add: nth_list_update)
    have "reverse_loop ?xs (i + 1) (j - 1) ! k = (if i \<le> k \<and> k < j then xs ! (i + j - 1 - k) else xs ! k)"
    proof (cases "i + 1 \<le> k \<and> k < j - 1")
      case mid: True
      then have "i + j - 1 - k < length xs" "i + j - 1 - k \<noteq> i" "i + j - 1 - k \<noteq> j - 1" "k < j" using 1(2,3) by auto
      then show ?thesis unfolding IH(2) using at [of "i + j - 1 - k"] mid by simp
    next
      case False
      then have "k = i \<or> k = j - 1 \<or> \<not> (i \<le> k \<and> k < j)" using True by linarith
      then show ?thesis unfolding IH(2) using at [OF 1(3)] False True by auto
    qed
    then show ?thesis unfolding eq using IH(1) by (simp only: length_list_update)
  next
    case False
    have "i \<le> k \<and> k < j \<Longrightarrow> i + j - 1 - k = k" using False by auto
    then show ?thesis using False by (simp add: reverse_loop.simps [of xs i j])
  qed
qed

lemma reverse_loop_rev: "reverse_loop xs 0 (length xs) = rev xs"
proof (cases xs)
  case Nil
  then show ?thesis by (simp add: reverse_loop.simps)
next
  case Cons
  then have "length (reverse_loop xs 0 (length xs)) = length xs"
    using reverse_loop_nth [of "length xs" xs 0 0] by simp
  then show ?thesis using reverse_loop_nth [OF order_refl, of _ xs 0]
    by (intro nth_equalityI) (simp_all add: rev_nth)
qed

lemma reverseName_eq: "reverseName name = Join (rev (Split name CHR ''.'')) ''.''"
  by (simp add: reverseName_def Let_def reverse_loop_rev)

lemma Split_reverseName: "Split (reverseName name) CHR ''.'' = rev (Split name CHR ''.'')"
  unfolding reverseName_eq by (rule Split_Join) (auto dest: Split_sep_free)

lemma reverseName_reverseName [simp]: "reverseName (reverseName name) = name"
  by (simp add: reverseName_eq [of "reverseName name"] Split_reverseName)

lemma Split_inj: "Split s c = Split t c \<longleftrightarrow> s = t"
  by (metis Join_Split)

lemma Split_append: "Split (a @ c # b) c = Split a c @ Split b c"
  by (induction a) (auto split: list.splits)

lemma HasSuffix_Split:
  "HasSuffix n (c # m) \<longleftrightarrow> (\<exists>ls. ls \<noteq> [] \<and> Split n c = ls @ Split m c)"
proof
  assume "HasSuffix n (c # m)"
  then show "\<exists>ls. ls \<noteq> [] \<and> Split n c = ls @ Split m c" by (auto simp: HasSuffix_iff Split_append)
next
  assume "\<exists>ls. ls \<noteq> [] \<and> Split n c = ls @ Split m c"
  then obtain ls where ls: "ls \<noteq> []" "Split n c = ls @ Split m c" by blast
  then have "\<forall>w \<in> set ls. c \<notin> set w" using Split_sep_free [of _ n c] by auto
  then have "Split (Join ls [c]) c = ls" using ls(1) by (intro Split_Join)
  then have "Split (Join ls [c] @ c # m) c = Split n c" by (simp add: Split_append ls(2))
  then show "HasSuffix n (c # m)" unfolding HasSuffix_iff Split_inj by blast
qed

lemma HasPrefix_Split:
  "HasPrefix n (m @ [c]) \<longleftrightarrow> (\<exists>ls. ls \<noteq> [] \<and> Split n c = Split m c @ ls)"
proof
  assume "HasPrefix n (m @ [c])"
  then obtain r where "n = m @ c # r" by (auto simp: HasPrefix_def elim: prefixE)
  then show "\<exists>ls. ls \<noteq> [] \<and> Split n c = Split m c @ ls" by (auto simp: Split_append)
next
  assume "\<exists>ls. ls \<noteq> [] \<and> Split n c = Split m c @ ls"
  then obtain ls where ls: "ls \<noteq> []" "Split n c = Split m c @ ls" by blast
  then have "\<forall>w \<in> set ls. c \<notin> set w" using Split_sep_free [of _ n c] by auto
  then have "Split (Join ls [c]) c = ls" using ls(1) by (intro Split_Join)
  then have "Split (m @ c # Join ls [c]) c = Split n c" by (simp add: Split_append ls(2))
  then show "HasPrefix n (m @ [c])" unfolding Split_inj by (auto simp: HasPrefix_def)
qed

text \<open>Below a name in the tree means below its reverse as a prefix.\<close>

lemma HasPrefix_reverseName:
  "HasPrefix (reverseName n) (reverseName m @ ''.'') \<longleftrightarrow> HasSuffix n (''.'' @ m)"
proof -
  have "(\<exists>ls. ls \<noteq> [] \<and> rev (Split n CHR ''.'') = rev (Split m CHR ''.'') @ ls) \<longleftrightarrow>
        (\<exists>ls. ls \<noteq> [] \<and> Split n CHR ''.'' = ls @ Split m CHR ''.'')"
    by (metis rev_append rev_is_Nil_conv rev_rev_ident)
  then show ?thesis by (simp add: HasPrefix_Split HasSuffix_Split Split_reverseName)
qed

text \<open>The range of \<open>LookupName\<close>: the bytes of '.' and '/' are neighbours.\<close>

lemma dot_slash: "CHR ''.'' \<le> c \<and> c < CHR ''/'' \<longleftrightarrow> c = CHR ''.''"
proof -
  have "(of_char c :: nat) = of_char CHR ''.'' \<longleftrightarrow> c = CHR ''.''" by (simp only: of_char_eq_iff)
  then show ?thesis by (auto simp: less_char_def less_eq_char_def)
qed

lemma prefix_range: "p @ ''.'' \<le> s \<and> s < p @ ''/'' \<longleftrightarrow> HasPrefix s (p @ ''.'')"
proof (induction p arbitrary: s)
  case Nil
  show ?case
  proof (cases s)
    case (Cons c cs)
    then show ?thesis using dot_slash [of c] by (auto simp: HasPrefix_def)
  qed (simp add: HasPrefix_def)
next
  case (Cons a p)
  show ?case
  proof (cases s)
    case (Cons c cs)
    then show ?thesis using Cons.IH [of cs] by (auto simp: HasPrefix_def)
  qed (simp add: HasPrefix_def)
qed

section \<open>Enclosing names\<close>

text \<open>A name lies within another if it is that name or ends in a dot and that name.\<close>

definition within :: "string \<Rightarrow> string \<Rightarrow> bool" where
  "within name zone = (name = zone \<or> HasSuffix name (''.'' @ zone))"

lemma within_refl [simp]: "within n n"
  by (simp add: within_def)

lemma within_suffix: "within n z \<Longrightarrow> \<exists>p. n = p @ z"
  by (auto simp: within_def HasSuffix_iff)

lemma within_eqI: "within n z \<Longrightarrow> within n z' \<Longrightarrow> length z = length z' \<Longrightarrow> z = z'"
  using within_suffix [of n z] within_suffix [of n z'] by auto

lemma HasSuffix_first_dot:
  "CHR ''.'' \<notin> set a \<Longrightarrow>
   HasSuffix (a @ CHR ''.'' # r) (CHR ''.'' # s) \<longleftrightarrow> r = s \<or> HasSuffix r (CHR ''.'' # s)"
  by (induction a) (auto simp: HasSuffix_def suffix_Cons)

lemma IndexByte_Some_split: "IndexByte s c = Some i \<Longrightarrow> s = take i s @ c # drop (i + 1) s \<and> c \<notin> set (take i s)"
  using IndexByte_Some [of s c i] id_take_nth_drop [of i s] by auto

lemma candidates_iff: "s \<in> set (candidates q) \<longleftrightarrow> s \<noteq> [] \<and> within q s"
proof (induction q rule: candidates.induct)
  case (1 q)
  show ?case
  proof (cases "IndexByte q CHR ''.''")
    case None
    then have "\<not> HasSuffix q (''.'' @ s)" by (auto simp: IndexByte_None HasSuffix_iff)
    then show ?thesis using None by (subst candidates.simps) (auto simp: within_def)
  next
    case (Some i)
    define a r where "a = take i q" and "r = drop (i + 1) q"
    have q: "q = a @ CHR ''.'' # r" "CHR ''.'' \<notin> set a"
      using IndexByte_Some_split [OF Some] by (auto simp: a_def r_def)
    have ne: "q \<noteq> []" using Some by (cases q) simp_all
    then have "candidates q = q # candidates r" unfolding candidates.simps [of q] by (simp add: Some r_def)
    moreover have "s \<in> set (candidates r) \<longleftrightarrow> s \<noteq> [] \<and> within r s"
      using 1 [OF ne Some] by (simp add: r_def)
    moreover have "HasSuffix q (CHR ''.'' # s) \<longleftrightarrow> r = s \<or> HasSuffix r (CHR ''.'' # s)"
      unfolding q(1) by (rule HasSuffix_first_dot [OF q(2)])
    ultimately show ?thesis using ne by (auto simp: within_def)
  qed
qed

lemma candidates_Nil_iff: "candidates q = [] \<longleftrightarrow> q = []"
  by (subst candidates.simps) simp

lemma longest_None: "longest zs = None \<longleftrightarrow> zs = []"
  by (induction zs) (auto split: option.splits)

lemma longest_Some:
  "longest zs = Some z \<Longrightarrow> z \<in> set zs \<and> (\<forall>z' \<in> set zs. length (z_Name z') \<le> length (z_Name z))"
proof (induction zs arbitrary: z)
  case (Cons a zs)
  show ?case
  proof (cases "longest zs")
    case None
    then show ?thesis using Cons.prems by (simp add: longest_None)
  next
    case (Some y)
    then show ?thesis using Cons.IH [OF Some] Cons.prems by (auto split: if_splits)
  qed
qed simp

text \<open>The zones that enclose a name.\<close>

definition enclosing :: "db \<Rightarrow> string \<Rightarrow> zone set" where
  "enclosing db q = {z \<in> set (d_zones db). z_Name z \<noteq> [] \<and> within q (z_Name z)}"

lemma FindZone_enclosing:
  assumes "pg_fault pg 0 = None"
  shows "FindZone u pg db q = scanZone (longest (filter (\<lambda>z. z \<in> enclosing db (NormalizeZone u q)) (d_zones db)))"
proof (cases "NormalizeZone u q = []")
  case True
  then have "enclosing db (NormalizeZone u q) = {}"
    by (auto simp: enclosing_def within_def HasSuffix_iff)
  with True show ?thesis by (simp add: FindZone_def candidates_Nil_iff scanZone_def)
next
  case False
  have "filter (\<lambda>z. z_Name z \<in> set (candidates (NormalizeZone u q))) (d_zones db) =
        filter (\<lambda>z. z \<in> enclosing db (NormalizeZone u q)) (d_zones db)"
    by (rule filter_cong) (auto simp: candidates_iff enclosing_def)
  then show ?thesis using False assms by (simp add: FindZone_def candidates_Nil_iff query_def)
qed

section \<open>Names below a name\<close>

lemma childrenOf_iff:
  assumes "\<And>w. w \<in> set (d_records db) \<Longrightarrow> w_name_rev w = reverseName (w_name w)"
  shows "childrenOf db zone name \<longleftrightarrow> (\<exists>w \<in> set (d_records db). w_zone w = zone \<and> HasSuffix (w_name w) (''.'' @ name))"
proof -
  have "childrenOf db zone name \<longleftrightarrow>
    (\<exists>w \<in> set (d_records db). w_zone w = zone \<and> HasPrefix (w_name_rev w) (reverseName name @ ''.''))"
    using prefix_range [of "reverseName name"] by (auto simp: childrenOf_def Let_def list_ex_iff)
  then show ?thesis using assms HasPrefix_reverseName by auto
qed

section \<open>The invariant of the database\<close>

definition rowKey :: "(string \<Rightarrow> string) \<Rightarrow> srow \<Rightarrow> string \<times> string \<times> string \<times> string" where
  "rowKey md5 w = (w_zone w, w_name w, w_type w, md5 (w_rdata w))"

definition sameName :: "srow \<Rightarrow> srow \<Rightarrow> bool" where
  "sameName w w' = (w_zone w = w_zone w' \<and> w_name w = w_name w')"

definition rowOk :: "db \<Rightarrow> srow \<Rightarrow> bool" where
  "rowOk db w = (w_zone w \<in> z_Name ` set (d_zones db) \<and> within (w_name w) (w_zone w) \<and>
     w_name_rev w = reverseName (w_name w) \<and> w_id w < d_next db)"

text \<open>CNAME records stand alone at their name and never at the top of a zone; the records of one name
  and type have one TTL.\<close>

definition cnameAlone :: "srow list \<Rightarrow> bool" where
  "cnameAlone ws = (\<forall>w \<in> set ws. w_type w = ''CNAME'' \<longrightarrow>
     w_name w \<noteq> w_zone w \<and> (\<forall>w' \<in> set ws. sameName w' w \<longrightarrow> w' = w))"

definition ttlAgree :: "srow list \<Rightarrow> bool" where
  "ttlAgree ws = (\<forall>w \<in> set ws. \<forall>w' \<in> set ws. sameName w w' \<and> w_type w = w_type w' \<longrightarrow> w_ttl w = w_ttl w')"

definition dbInv :: "(string \<Rightarrow> string) \<Rightarrow> db \<Rightarrow> bool" where
  "dbInv md5 db =
    (distinct (map z_Name (d_zones db)) \<and> [] \<notin> z_Name ` set (d_zones db) \<and>
     (\<forall>w \<in> set (d_records db). rowOk db w) \<and> distinct (map w_id (d_records db)) \<and>
     distinct (map (rowKey md5) (d_records db)) \<and> cnameAlone (d_records db) \<and> ttlAgree (d_records db))"

lemma rrKey_rowKey [simp]: "rrKey pg = rowKey (pg_md5 pg)"
  by (simp add: rrKey_def rowKey_def fun_eq_iff)

lemma NormalizeName_within: "within (NormalizeName u zone name) zone"
  by (auto simp: NormalizeName_def Let_def within_def HasSuffix_iff)

section \<open>What the statements do to the tables\<close>

definition retime :: "string \<Rightarrow> string \<Rightarrow> string \<Rightarrow> int \<Rightarrow> srow \<Rightarrow> srow" where
  "retime zone name rtype ttl x =
    (if w_zone x = zone \<and> w_name x = name \<and> w_type x = rtype then x\<lparr>w_ttl := ttl\<rparr> else x)"

lemma retime_fields [simp]:
  "w_id (retime zone name rtype ttl x) = w_id x" "w_zone (retime zone name rtype ttl x) = w_zone x"
  "w_name (retime zone name rtype ttl x) = w_name x" "w_name_rev (retime zone name rtype ttl x) = w_name_rev x"
  "w_type (retime zone name rtype ttl x) = w_type x" "w_rdata (retime zone name rtype ttl x) = w_rdata x"
  by (simp_all add: retime_def)

lemma retime_key [simp]:
  "rowKey md5 (retime zone name rtype ttl x) = rowKey md5 x" "sameName (retime zone name rtype ttl x) y = sameName x y"
  "sameName y (retime zone name rtype ttl x) = sameName y x" "rowOk db (retime zone name rtype ttl x) = rowOk db x"
  by (simp_all add: rowKey_def sameName_def rowOk_def)

lemma setTTL_eq: "setTTL zone name rtype ttl db = db\<lparr>d_records := map (retime zone name rtype ttl) (d_records db)\<rparr>"
  by (auto simp: setTTL_def retime_def intro!: arg_cong [where f = "\<lambda>ws. db\<lparr>d_records := ws\<rparr>"])

lemma putZone_fields [simp]:
  "d_records (putZone z db) = d_records db" "d_next (putZone z db) = d_next db"
  "map z_Name (d_zones (putZone z db)) = map z_Name (d_zones db)"
  by (auto simp: putZone_def)

lemma putZone_names [simp]: "z_Name ` set (d_zones (putZone z db)) = z_Name ` set (d_zones db)"
  by (metis list.set_map putZone_fields(3))

lemma bumpSerial_Some:
  "bumpSerial pg z = Some z' \<Longrightarrow> z_Name z' = z_Name z \<and> z_Serial z < z_Serial z' \<and> pg_epoch pg \<le> z_Serial z'"
  by (auto simp: bumpSerial_def split: if_splits)

lemma zoneNamed_Some: "zoneNamed db name = Some z \<Longrightarrow> z \<in> set (d_zones db) \<and> z_Name z = name"
  by (auto simp: zoneNamed_def find_Some_iff)

lemma zoneNamed_None: "zoneNamed db name = None \<longleftrightarrow> name \<notin> z_Name ` set (d_zones db)"
  by (auto simp: zoneNamed_def find_None_iff)

lemma zoneNamed_in:
  "distinct (map z_Name (d_zones db)) \<Longrightarrow> z \<in> set (d_zones db) \<Longrightarrow> zoneNamed db (z_Name z) = Some z"
  by (metis inj_onD distinct_map imageI not_None_eq zoneNamed_None zoneNamed_Some)

subsection \<open>Upsert\<close>

abbreviation recordRow :: "unicode_case \<Rightarrow> pgenv \<Rightarrow> srecord \<Rightarrow> srow" where
  "recordRow u pg r \<equiv>
    \<lparr>w_id = 0, w_zone = NormalizeZone u (r_Zone r), w_name = NormalizeName u (NormalizeZone u (r_Zone r)) (r_Name r),
     w_name_rev = reverseName (NormalizeName u (NormalizeZone u (r_Zone r)) (r_Name r)),
     w_type = NormalizeType u (r_Type r), w_ttl = r_TTL r, w_rdata = r_RData r, w_created = pg_now pg\<rparr>"

lemma upsert_setTTL:
  "setTTL (w_zone w) (w_name w) (w_type w) (w_ttl w) (snd (upsert pg w db)) =
    db\<lparr>d_next := d_next db + 1, d_records := map (retime (w_zone w) (w_name w) (w_type w) (w_ttl w))
      (d_records db @ (if \<exists>x \<in> set (d_records db). rowKey (pg_md5 pg) x = rowKey (pg_md5 pg) w
                       then [] else [w\<lparr>w_id := d_next db\<rparr>]))\<rparr>"
proof -
  let ?f = "retime (w_zone w) (w_name w) (w_type w) (w_ttl w)"
  have key: "rowKey (pg_md5 pg) (w\<lparr>w_id := i\<rparr>) = rowKey (pg_md5 pg) w" for i by (simp add: rowKey_def)
  have f: "?f (if rowKey (pg_md5 pg) x = rowKey (pg_md5 pg) w then x\<lparr>w_ttl := w_ttl w\<rparr> else x) = ?f x" for x
    by (auto simp: retime_def rowKey_def)
  show ?thesis
  proof (cases "find (\<lambda>x. rowKey (pg_md5 pg) x = rowKey (pg_md5 pg) w) (d_records db)")
    case None
    then have "\<not> (\<exists>x \<in> set (d_records db). rowKey (pg_md5 pg) x = rowKey (pg_md5 pg) w)" by (simp add: find_None_iff)
    with None show ?thesis by (simp add: upsert_def Let_def setTTL_eq key)
  next
    case (Some old)
    then have "\<exists>x \<in> set (d_records db). rowKey (pg_md5 pg) x = rowKey (pg_md5 pg) w" by (auto simp: find_Some_iff)
    with Some show ?thesis by (simp add: upsert_def Let_def setTTL_eq key f comp_def cong: if_cong)
  qed
qed

subsection \<open>Create and delete a record\<close>

definition mayCreate :: "unicode_case \<Rightarrow> pgenv \<Rightarrow> db \<Rightarrow> srecord \<Rightarrow> zone \<Rightarrow> bool" where
  "mayCreate u pg db r z' =
    (let w = recordRow u pg r
     in (\<exists>z. zoneNamed db (w_zone w) = Some z \<and> bumpSerial pg z = Some z') \<and>
        \<not> (w_type w = ''CNAME'' \<and> w_name w = w_zone w) \<and>
        cnameConflict pg db (w_zone w) (w_name w) (w_type w) (w_rdata w) = None)"

definition createdDb :: "unicode_case \<Rightarrow> pgenv \<Rightarrow> srecord \<Rightarrow> zone \<Rightarrow> db \<Rightarrow> db" where
  "createdDb u pg r z' db =
    (let w = recordRow u pg r
     in setTTL (w_zone w) (w_name w) (w_type w) (w_ttl w) (snd (upsert pg w (putZone z' db))))"

definition createdRecord :: "unicode_case \<Rightarrow> pgenv \<Rightarrow> encoder option \<Rightarrow> srecord \<Rightarrow> zone \<Rightarrow> db \<Rightarrow> srecord" where
  "createdRecord u pg enc r z' db = scanRecord enc (fst (upsert pg (recordRow u pg r) (putZone z' db)))"

lemma d_next_upsert: "d_next (snd (upsert pg w db)) = d_next db + 1"
  by (simp add: upsert_def Let_def split: option.splits)

lemma CreateRecord_outcome:
  assumes "CreateRecord u pg enc db r = (out, db')"
  shows "((\<exists>e. out = Inl e) \<and> (db' = db \<or> db' = db\<lparr>d_next := d_next db + 1\<rparr>))
       \<or> (\<exists>z'. mayCreate u pg db r z' \<and> db' = createdDb u pg r z' db \<and>
            ((\<exists>e. out = Inl (DbErr e)) \<or> out = Inr (createdRecord u pg enc r z' db)))"
  using assms unfolding CreateRecord_def Let_def onFault_def commitTo_def mayCreate_def createdDb_def createdRecord_def
  by (auto split: option.splits if_splits simp: case_prod_beta d_next_upsert)

lemma CreateRecord_ok:
  assumes "mayCreate u pg db r z'" "\<And>n. pg_fault pg n = None"
  shows "CreateRecord u pg enc db r = (Inr (createdRecord u pg enc r z' db), createdDb u pg r z' db)"
  using assms unfolding CreateRecord_def Let_def onFault_def commitTo_def mayCreate_def createdDb_def createdRecord_def
  by (auto split: option.splits if_splits simp: case_prod_beta)

definition hits :: "unicode_case \<Rightarrow> pgenv \<Rightarrow> string \<Rightarrow> string \<Rightarrow> string \<Rightarrow> string \<Rightarrow> srow \<Rightarrow> bool" where
  "hits u pg zone name rtype rdata x =
    (w_zone x = NormalizeZone u zone \<and> w_name x = NormalizeName u (NormalizeZone u zone) name \<and>
     w_type x = NormalizeType u rtype \<and> pg_md5 pg (w_rdata x) = pg_md5 pg rdata)"

definition deletedDb :: "unicode_case \<Rightarrow> pgenv \<Rightarrow> string \<Rightarrow> string \<Rightarrow> string \<Rightarrow> string \<Rightarrow> db \<Rightarrow> db" where
  "deletedDb u pg zone name rtype rdata db =
    (let db1 = db\<lparr>d_records := filter (\<lambda>x. \<not> hits u pg zone name rtype rdata x) (d_records db)\<rparr>
     in case zoneNamed db (NormalizeZone u zone) of None \<Rightarrow> db1
        | Some z \<Rightarrow> (case bumpSerial pg z of None \<Rightarrow> db | Some z' \<Rightarrow> putZone z' db1))"

lemma zoneNamed_records [simp]: "zoneNamed (db\<lparr>d_records := ws\<rparr>) name = zoneNamed db name"
  by (simp add: zoneNamed_def)

lemma DeleteRecord_outcome:
  assumes "DeleteRecord u pg db zone name rtype rdata = (out, db')"
  shows "((\<exists>e. out = Inl e) \<and> db' = db)
       \<or> (list_ex (hits u pg zone name rtype rdata) (d_records db) \<and> db' = deletedDb u pg zone name rtype rdata db \<and>
          ((\<exists>e. out = Inl (DbErr e)) \<or> out = Inr ()))"
  using assms unfolding DeleteRecord_def Let_def onFault_def commitTo_def deletedDb_def hits_def
  by (auto split: option.splits if_splits)

section \<open>The operations keep the invariant\<close>

lemma dbInvD:
  assumes "dbInv md5 db"
  shows "distinct (map z_Name (d_zones db))" "[] \<notin> z_Name ` set (d_zones db)"
    "w \<in> set (d_records db) \<Longrightarrow> rowOk db w" "distinct (map w_id (d_records db))"
    "distinct (map (rowKey md5) (d_records db))" "cnameAlone (d_records db)" "ttlAgree (d_records db)"
  using assms by (simp_all add: dbInv_def)

text \<open>The conditions on the rows are kept when rows are removed, and when the TTL of one record set changes.\<close>

definition rowsInv :: "(string \<Rightarrow> string) \<Rightarrow> srow list \<Rightarrow> bool" where
  "rowsInv md5 ws = (distinct (map w_id ws) \<and> distinct (map (rowKey md5) ws) \<and> cnameAlone ws \<and> ttlAgree ws)"

lemma dbInv_rows:
  "dbInv md5 db \<longleftrightarrow> distinct (map z_Name (d_zones db)) \<and> [] \<notin> z_Name ` set (d_zones db) \<and>
     (\<forall>w \<in> set (d_records db). rowOk db w) \<and> rowsInv md5 (d_records db)"
  by (auto simp: dbInv_def rowsInv_def)

lemma rowsInv_filter: "rowsInv md5 ws \<Longrightarrow> rowsInv md5 (filter P ws)"
  by (auto simp: rowsInv_def cnameAlone_def ttlAgree_def distinct_map_filter)

lemma cnameAlone_map:
  assumes "cnameAlone ws" "\<And>x y. sameName (f x) (f y) = sameName x y" "\<And>x. w_type (f x) = w_type x"
    "\<And>x. w_name (f x) = w_name x" "\<And>x. w_zone (f x) = w_zone x"
  shows "cnameAlone (map f ws)"
  using assms unfolding cnameAlone_def by fastforce

lemma cnameAlone_snoc:
  assumes "cnameAlone ws" "\<And>x. x \<in> set ws \<Longrightarrow> sameName x w \<Longrightarrow> w_type x \<noteq> ''CNAME'' \<and> w_type w \<noteq> ''CNAME''"
    and "w_type w = ''CNAME'' \<Longrightarrow> w_name w \<noteq> w_zone w"
  shows "cnameAlone (ws @ [w])"
  using assms by (auto simp: cnameAlone_def sameName_def)

lemma retime_ttl:
  "w_ttl (retime zone name rtype ttl x) =
    (if w_zone x = zone \<and> w_name x = name \<and> w_type x = rtype then ttl else w_ttl x)"
  by (simp add: retime_def)

lemma ttlAgree_map_retime:
  assumes "\<And>x y. x \<in> set ws \<Longrightarrow> y \<in> set ws \<Longrightarrow> sameName x y \<Longrightarrow> w_type x = w_type y \<Longrightarrow>
    \<not> (w_zone x = zone \<and> w_name x = name \<and> w_type x = rtype) \<Longrightarrow> w_ttl x = w_ttl y"
  shows "ttlAgree (map (retime zone name rtype ttl) ws)"
  unfolding ttlAgree_def
proof (intro ballI impI)
  fix w w' assume "w \<in> set (map (retime zone name rtype ttl) ws)" "w' \<in> set (map (retime zone name rtype ttl) ws)"
    and same: "sameName w w' \<and> w_type w = w_type w'"
  then obtain x y where xy: "x \<in> set ws" "w = retime zone name rtype ttl x" "y \<in> set ws" "w' = retime zone name rtype ttl y"
    by auto
  then show "w_ttl w = w_ttl w'"
    using assms [OF xy(1,3)] same by (cases "w_zone x = zone \<and> w_name x = name \<and> w_type x = rtype")
      (auto simp: retime_ttl sameName_def)
qed

lemma ttlAgree_retime: "ttlAgree ws \<Longrightarrow> ttlAgree (map (retime zone name rtype ttl) ws)"
  by (rule ttlAgree_map_retime) (auto simp: ttlAgree_def)

lemma ttlAgree_snoc_retime:
  assumes "ttlAgree ws"
  shows "ttlAgree (map (retime (w_zone w) (w_name w) (w_type w) ttl) (ws @ [w]))"
proof (rule ttlAgree_map_retime)
  fix x y assume a: "x \<in> set (ws @ [w])" "y \<in> set (ws @ [w])" "sameName x y" "w_type x = w_type y"
    "\<not> (w_zone x = w_zone w \<and> w_name x = w_name w \<and> w_type x = w_type w)"
  have "x \<noteq> w" using a(5) by blast
  moreover have "y \<noteq> w" using a(3-5) unfolding sameName_def by metis
  ultimately show "w_ttl x = w_ttl y" using a(1-4) assms unfolding ttlAgree_def by simp
qed

lemma rowsInv_retime: "rowsInv md5 ws \<Longrightarrow> rowsInv md5 (map (retime zone name rtype ttl) ws)"
  by (auto simp: rowsInv_def comp_def ttlAgree_retime intro: cnameAlone_map)

lemma rowsInv_add:
  assumes "rowsInv md5 ws" "w_id w \<notin> w_id ` set ws" "rowKey md5 w \<notin> rowKey md5 ` set ws"
    and "\<And>x. x \<in> set ws \<Longrightarrow> sameName x w \<Longrightarrow> w_type x \<noteq> ''CNAME'' \<and> w_type w \<noteq> ''CNAME''"
    and "w_type w = ''CNAME'' \<Longrightarrow> w_name w \<noteq> w_zone w"
  shows "rowsInv md5 (map (retime (w_zone w) (w_name w) (w_type w) ttl) (ws @ [w]))"
proof -
  have "cnameAlone (ws @ [w])" using assms by (intro cnameAlone_snoc) (auto simp: rowsInv_def)
  then have "cnameAlone (map (retime (w_zone w) (w_name w) (w_type w) ttl) (ws @ [w]))"
    by (rule cnameAlone_map) simp_all
  moreover have "distinct (map w_id (ws @ [w]))" "distinct (map (rowKey md5) (ws @ [w]))"
    using assms(1-3) by (auto simp: rowsInv_def)
  ultimately show ?thesis
    using assms(1) ttlAgree_snoc_retime [of ws w ttl] by (auto simp: rowsInv_def comp_def)
qed

lemma cnameConflict_None:
  assumes "cnameConflict pg db zone name rtype rdata = None" "x \<in> set (d_records db)" "w_zone x = zone" "w_name x = name"
  shows "(rtype = ''CNAME'' \<and> w_type x = ''CNAME'' \<and> pg_md5 pg (w_rdata x) = pg_md5 pg rdata)
       \<or> (rtype \<noteq> ''CNAME'' \<and> w_type x \<noteq> ''CNAME'')"
  using assms by (auto simp: cnameConflict_def list_ex_iff split: if_splits)

lemma createdDb_fields:
  shows "d_records (createdDb u pg r z' db) =
      map (retime (w_zone (recordRow u pg r)) (w_name (recordRow u pg r)) (w_type (recordRow u pg r)) (r_TTL r))
        (d_records db @ (if \<exists>x \<in> set (d_records db). rowKey (pg_md5 pg) x = rowKey (pg_md5 pg) (recordRow u pg r)
                         then [] else [(recordRow u pg r)\<lparr>w_id := d_next db\<rparr>]))"
    and "d_next (createdDb u pg r z' db) = d_next db + 1"
    and "d_zones (createdDb u pg r z' db) = d_zones (putZone z' db)"
  by (simp_all add: createdDb_def Let_def upsert_setTTL [of "recordRow u pg r", simplified])

lemma dbInv_createdDb:
  assumes inv: "dbInv (pg_md5 pg) db" and may: "mayCreate u pg db r z'"
  shows "dbInv (pg_md5 pg) (createdDb u pg r z' db)"
proof -
  let ?w = "recordRow u pg r" and ?md5 = "pg_md5 pg" and ?ws = "d_records db"
  let ?v = "?w\<lparr>w_id := d_next db\<rparr>"
  have rows: "\<And>w. w \<in> set ?ws \<Longrightarrow> rowOk db w" and ri: "rowsInv ?md5 ?ws" using inv by (auto simp: dbInv_rows)
  have "zoneNamed db (w_zone ?w) \<noteq> None" using may unfolding mayCreate_def Let_def by force
  then have zone: "w_zone ?w \<in> z_Name ` set (d_zones db)" unfolding zoneNamed_None by blast
  have none: "cnameConflict pg db (w_zone ?w) (w_name ?w) (w_type ?w) (w_rdata ?w) = None"
    and apex: "\<not> (w_type ?w = ''CNAME'' \<and> w_name ?w = w_zone ?w)"
    using may unfolding mayCreate_def Let_def by blast+
  have new: "rowsInv ?md5 (map (retime (w_zone ?v) (w_name ?v) (w_type ?v) (w_ttl ?v)) (?ws @ [?v]))"
    if "\<not> (\<exists>x \<in> set ?ws. rowKey ?md5 x = rowKey ?md5 ?w)"
  proof (rule rowsInv_add [OF ri])
    show "w_id ?v \<notin> w_id ` set ?ws" using rows unfolding rowOk_def by force
    show "rowKey ?md5 ?v \<notin> rowKey ?md5 ` set ?ws" using that by (auto simp: rowKey_def)
    show "w_type x \<noteq> ''CNAME'' \<and> w_type ?v \<noteq> ''CNAME''" if x: "x \<in> set ?ws" "sameName x ?v" for x
      using cnameConflict_None [OF none x(1)] x(2) x(1) \<open>\<not> (\<exists>x \<in> set ?ws. _ x)\<close>
      by (auto simp: sameName_def rowKey_def)
    show "w_type ?v = ''CNAME'' \<Longrightarrow> w_name ?v \<noteq> w_zone ?v" using apex by simp
  qed
  have ri': "rowsInv ?md5 (d_records (createdDb u pg r z' db))"
  proof (cases "\<exists>x \<in> set ?ws. rowKey ?md5 x = rowKey ?md5 ?w")
    case True
    then show ?thesis unfolding createdDb_fields(1) if_P [OF True] append_Nil2 by (intro rowsInv_retime ri)
  next
    case False
    show ?thesis unfolding createdDb_fields(1) if_not_P [OF False] using new [OF False] by (simp only: srow.simps)
  qed
  have "rowOk (createdDb u pg r z' db) w" if mem: "w \<in> set (d_records (createdDb u pg r z' db))" for w
  proof -
    obtain x where x: "x \<in> set ?ws \<or> x = ?v" and w: "w = retime (w_zone ?w) (w_name ?w) (w_type ?w) (r_TTL r) x"
      using mem unfolding createdDb_fields(1) set_map set_append image_Un by (cases "\<exists>x \<in> set ?ws. rowKey ?md5 x = rowKey ?md5 ?w") (simp_all only: if_True if_False, auto)
    have "rowOk (createdDb u pg r z' db) x"
    proof (cases "x \<in> set ?ws")
      case True
      then show ?thesis using rows [OF True] by (simp add: rowOk_def createdDb_fields(2,3))
    next
      case False
      then show ?thesis using x zone NormalizeName_within by (simp add: rowOk_def createdDb_fields(2,3))
    qed
    then show ?thesis by (simp add: w)
  qed
  then show ?thesis
    using inv ri' by (simp add: dbInv_rows createdDb_fields(3))
qed

lemma dbInv_next: "dbInv md5 db \<Longrightarrow> dbInv md5 (db\<lparr>d_next := d_next db + 1\<rparr>)"
  by (auto simp: dbInv_rows rowOk_def)

lemma dbInv_putZone: "dbInv md5 db \<Longrightarrow> dbInv md5 (putZone z db)"
  by (simp add: dbInv_rows rowOk_def)

lemma dbInv_filter: "dbInv md5 db \<Longrightarrow> dbInv md5 (db\<lparr>d_records := filter P (d_records db)\<rparr>)"
  by (simp add: dbInv_rows rowsInv_filter rowOk_def)

lemma dbInv_CreateRecord:
  assumes "dbInv (pg_md5 pg) db"
  shows "dbInv (pg_md5 pg) (snd (CreateRecord u pg enc db r))"
  using CreateRecord_outcome [of u pg enc db r "fst (CreateRecord u pg enc db r)" "snd (CreateRecord u pg enc db r)"]
    dbInv_next [OF assms] dbInv_createdDb [OF assms, of u r] assms
  by (metis prod.collapse)

lemma dbInv_DeleteRecord:
  assumes "dbInv (pg_md5 pg) db"
  shows "dbInv (pg_md5 pg) (snd (DeleteRecord u pg db zone name rtype rdata))"
proof -
  have "dbInv (pg_md5 pg) (deletedDb u pg zone name rtype rdata db)"
    using dbInv_filter [OF assms] dbInv_putZone assms
    by (simp add: deletedDb_def Let_def split: option.splits)
  then show ?thesis
    using DeleteRecord_outcome [of u pg db zone name rtype rdata
        "fst (DeleteRecord u pg db zone name rtype rdata)" "snd (DeleteRecord u pg db zone name rtype rdata)"] assms
    by (metis prod.collapse)
qed

lemma snd_onFault: "snd (onFault pg n db k) = (if pg_fault pg n = None then snd k else db)"
  by (simp add: onFault_def split: option.splits)

lemma snd_commitTo: "snd (commitTo pg n db db' r) = (if pg_fault pg n = None \<or> pg_applied pg then db' else db)"
  by (simp add: commitTo_def split: option.splits)

lemma snd_CreateZone:
  "snd (CreateZone u pg db z) =
    (let name = NormalizeZone u (z_Name z);
         row = z\<lparr>z_Name := name, z_Serial := pg_epoch pg, z_CreatedAt := pg_now pg, z_UpdatedAt := pg_now pg\<rparr>
     in if name \<noteq> [] \<and> zoneNamed db name = None \<and> (pg_fault pg 0 = None \<or> pg_applied pg)
        then db\<lparr>d_zones := d_zones db @ [row]\<rparr> else db)"
  by (auto simp: CreateZone_def Let_def onFault_def commitTo_def split: option.splits sum.splits store_err.splits)

lemma dbInv_CreateZone:
  assumes "dbInv md5 db"
  shows "dbInv md5 (snd (CreateZone u pg db z))"
  using assms unfolding snd_CreateZone Let_def
  by (auto simp: dbInv_rows rowOk_def zoneNamed_None)

lemma dbInv_UpdateZone:
  assumes "dbInv md5 db"
  shows "dbInv md5 (snd (UpdateZone u pg db z))"
  using assms by (auto simp: UpdateZone_def snd_onFault snd_commitTo dbInv_putZone split: option.splits)

lemma dbInv_DeleteZone:
  assumes "dbInv md5 db"
  shows "dbInv md5 (snd (DeleteZone u pg db name))"
proof -
  let ?n = "NormalizeZone u name"
  let ?db = "db\<lparr>d_zones := filter (\<lambda>z. z_Name z \<noteq> ?n) (d_zones db), d_records := filter (\<lambda>r. w_zone r \<noteq> ?n) (d_records db)\<rparr>"
  have "dbInv md5 ?db"
    using assms by (auto simp: dbInv_rows rowsInv_filter rowOk_def distinct_map_filter)
  then show ?thesis using assms by (simp add: DeleteZone_def Let_def snd_onFault snd_commitTo)
qed

section \<open>Sequences of store operations\<close>

datatype store_op =
    CreateZoneOp zone
  | UpdateZoneOp zone
  | DeleteZoneOp string
  | CreateRecordOp srecord
  | DeleteRecordOp string string string string

fun storeStep :: "unicode_case \<Rightarrow> encoder option \<Rightarrow> db \<Rightarrow> pgenv \<times> store_op \<Rightarrow> db" where
  "storeStep u enc db (pg, CreateZoneOp z) = snd (CreateZone u pg db z)"
| "storeStep u enc db (pg, UpdateZoneOp z) = snd (UpdateZone u pg db z)"
| "storeStep u enc db (pg, DeleteZoneOp n) = snd (DeleteZone u pg db n)"
| "storeStep u enc db (pg, CreateRecordOp r) = snd (CreateRecord u pg enc db r)"
| "storeStep u enc db (pg, DeleteRecordOp z n t d) = snd (DeleteRecord u pg db z n t d)"

abbreviation emptyDb :: db where
  "emptyDb \<equiv> \<lparr>d_zones = [], d_records = [], d_next = 1\<rparr>"

lemma dbInv_storeStep: "dbInv md5 db \<Longrightarrow> pg_md5 (fst op) = md5 \<Longrightarrow> dbInv md5 (storeStep u enc db op)"
  by (cases "(u, enc, db, op)" rule: storeStep.cases)
     (auto simp: dbInv_CreateZone dbInv_UpdateZone dbInv_DeleteZone dbInv_CreateRecord dbInv_DeleteRecord)

lemma dbInv_run:
  "dbInv md5 db \<Longrightarrow> list_all (\<lambda>op. pg_md5 (fst op) = md5) ops \<Longrightarrow> dbInv md5 (foldl (storeStep u enc) db ops)"
  by (induction ops arbitrary: db) (auto simp: dbInv_storeStep)

lemma dbInv_empty: "dbInv md5 emptyDb"
  by (simp add: dbInv_def cnameAlone_def ttlAgree_def)

end
