(* ===== verification/Store_Props.thy ===== *)
theory Store_Props
  imports Store_Invariant
begin

text \<open>
  The properties of the store: the invariant along sequences of operations, the closest enclosing zone,
  exact lookup, the branches and effects of creating and deleting records, atomicity, paging, and the
  serial.
\<close>

section \<open>Properties of the store\<close>

text \<open>Claim C22. The database stays consistent: whatever sequence of store operations runs on an empty
  database, whichever of their statements fail, zone names stay unique and non-empty; every record lies
  within an existing zone and carries its reversed name; record identifiers and (zone, name, type,
  data digest) stay unique; a CNAME record is alone at its name and never at the top of a zone; and the
  records of one name and type all have one TTL.\<close>

theorem store_invariant:
  assumes "list_all (\<lambda>op. pg_md5 (fst op) = md5) ops"
  shows "dbInv md5 (foldl (storeStep u enc) emptyDb ops)"
  using dbInv_run [OF dbInv_empty assms] .

definition quietPg :: pgenv where
  "quietPg = \<lparr>pg_epoch = 1000, pg_now = 1000, pg_md5 = \<lambda>s. s, pg_less = (<), pg_rows = \<lambda>ws. ws,
     pg_fault = \<lambda>_. None, pg_applied = False\<rparr>"

definition asciiCase :: unicode_case where
  "asciiCase = \<lparr>uni_lower = \<lambda>s. s, uni_upper = \<lambda>s. s\<rparr>"

definition exampleZone :: zone where
  "exampleZone = \<lparr>z_Name = ''a.b'', z_PrimaryNS = ''n.a.b'', z_AdminEmail = ''h.a.b'', z_Serial = 0, z_Refresh = 1,
     z_Retry = 2, z_Expire = 3, z_MinTTL = 4, z_CreatedAt = 0, z_UpdatedAt = 0\<rparr>"

definition exampleRecord :: srecord where
  "exampleRecord = \<lparr>r_ID = 0, r_Zone = ''a.b'', r_Name = ''w'', r_Type = ''A'', r_TTL = 60, r_RData = ''1.2.3.4'',
     r_CreatedAt = 0, r_Wire = [], r_WireErr = None\<rparr>"

theorem store_invariant_witness:
  "dbInv (\<lambda>s. s) (foldl (storeStep asciiCase None) emptyDb
     [(quietPg, CreateZoneOp exampleZone), (quietPg, CreateRecordOp exampleRecord)])"
  using store_invariant [of "\<lambda>s. s" "[(quietPg, CreateZoneOp exampleZone), (quietPg, CreateRecordOp exampleRecord)]"]
  by (simp add: quietPg_def)

text \<open>Claim C23. \<open>FindZone\<close> returns the closest enclosing zone: a zone that the normalised name equals or lies
  below, with the longest name of all such zones; it reports not-found exactly if there is none.\<close>

theorem FindZone_closest:
  assumes "dbInv md5 db" "pg_fault pg 0 = None"
  shows "(FindZone u pg db q = Inr z \<longleftrightarrow>
           z \<in> enclosing db (NormalizeZone u q) \<and>
           (\<forall>z' \<in> enclosing db (NormalizeZone u q). length (z_Name z') \<le> length (z_Name z)))
       \<and> (FindZone u pg db q = Inl ErrNotFound \<longleftrightarrow> enclosing db (NormalizeZone u q) = {})"
proof -
  let ?E = "enclosing db (NormalizeZone u q)" and ?L = "longest (filter (\<lambda>z. z \<in> enclosing db (NormalizeZone u q)) (d_zones db))"
  have sub: "?E \<subseteq> set (d_zones db)" by (auto simp: enclosing_def)
  have uniq: "z1 = z2" if "z1 \<in> ?E" "z2 \<in> ?E" "length (z_Name z1) = length (z_Name z2)" for z1 z2
  proof -
    have "z_Name z1 = z_Name z2" using that within_eqI by (auto simp: enclosing_def)
    then show ?thesis using dbInvD(1) [OF assms(1)] that(1,2) sub by (metis distinct_map inj_onD subsetD)
  qed
  show ?thesis
  proof (cases ?L)
    case None
    then have "?E = {}" using sub by (auto simp: longest_None filter_empty_conv)
    then show ?thesis using None FindZone_enclosing [OF assms(2)] by (simp add: scanZone_def)
  next
    case (Some y)
    then have y: "y \<in> ?E" "\<forall>z' \<in> ?E. length (z_Name z') \<le> length (z_Name y)"
      using longest_Some [OF Some] sub by auto
    then have "z = y \<longleftrightarrow> z \<in> ?E \<and> (\<forall>z' \<in> ?E. length (z_Name z') \<le> length (z_Name z))"
      using uniq by (metis le_antisym)
    then show ?thesis using Some y(1) FindZone_enclosing [OF assms(2)] by (auto simp: scanZone_def)
  qed
qed

text \<open>Claim C24. \<open>LookupName\<close> returns the records of exactly the zone and name asked for, and, if there
  are none, whether any record of the zone lies strictly below the name: the range over the reversed
  names in byte order selects exactly the subdomains.\<close>

theorem LookupName_exact:
  assumes "dbInv md5 db" "pg_fault pg 0 = None" "pg_fault pg 1 = None" "\<And>ws. mset (pg_rows pg ws) = mset ws"
    and "here = filter (\<lambda>w. w_zone w = zone \<and> w_name w = name) (d_records db)"
  shows "\<exists>set. LookupName pg enc db zone name = Inr set \<and>
     mset (n_Records set) = image_mset (scanRecord enc) (mset here) \<and>
     (n_HasChildren set \<longleftrightarrow> here = [] \<and> (\<exists>w \<in> set_mset (mset (d_records db)). w_zone w = zone \<and> HasSuffix (w_name w) (''.'' @ name)))"
proof -
  have rec: "mset (recordsAt pg enc db zone name) = image_mset (scanRecord enc) (mset here)"
    using assms(4,5) by (simp add: recordsAt_def collectRecords_def)
  have empty: "recordsAt pg enc db zone name = [] \<longleftrightarrow> here = []" using rec by (metis image_mset_is_empty_iff mset_zero_iff)
  have "childrenOf db zone name \<longleftrightarrow> (\<exists>w \<in> set (d_records db). w_zone w = zone \<and> HasSuffix (w_name w) (''.'' @ name))"
    using dbInvD(3) [OF assms(1)] by (intro childrenOf_iff) (auto simp: rowOk_def)
  then show ?thesis using assms(2,3) rec empty by (auto simp: LookupName_def query_def Let_def)
qed

definition exampleRow :: srow where
  "exampleRow = \<lparr>w_id = 1, w_zone = ''a.b'', w_name = ''w.a.b'', w_name_rev = reverseName ''w.a.b'', w_type = ''A'',
     w_ttl = 60, w_rdata = ''1.2.3.4'', w_created = 0\<rparr>"

definition exampleDb :: db where
  "exampleDb = \<lparr>d_zones = [exampleZone], d_records = [exampleRow], d_next = 2\<rparr>"

lemma exampleDb_inv: "dbInv (\<lambda>s. s) exampleDb"
  by (simp add: dbInv_def exampleDb_def exampleZone_def exampleRow_def rowOk_def cnameAlone_def ttlAgree_def
      within_def HasSuffix_iff)

lemma quietPg_simps [simp]:
  "pg_fault quietPg n = None" "pg_md5 quietPg s = s" "pg_rows quietPg ws = ws" "pg_epoch quietPg = 1000" "pg_now quietPg = 1000"
  by (simp_all add: quietPg_def)

lemma NormalizeZone_example:
  "NormalizeZone asciiCase ''w.a.b'' = ''w.a.b''" "NormalizeZone asciiCase ''a.b'' = ''a.b''"
  by (simp_all add: NormalizeZone_def TrimSpace_id visible_def ToLower_def is_ascii_def lower_char_def
      TrimSuffix_def HasSuffix_single)

theorem FindZone_closest_witness:
  "dbInv (\<lambda>s. s) exampleDb \<and> FindZone asciiCase quietPg exampleDb ''w.a.b'' = Inr exampleZone"
proof -
  have "enclosing exampleDb ''w.a.b'' = {exampleZone}"
    by (auto simp: enclosing_def exampleDb_def exampleZone_def within_def HasSuffix_iff)
  then show ?thesis
    using FindZone_closest [OF exampleDb_inv, of quietPg asciiCase "''w.a.b''" exampleZone] exampleDb_inv
    by (simp add: NormalizeZone_example)
qed

theorem LookupName_exact_witness:
  "\<exists>set. LookupName quietPg None exampleDb ''a.b'' ''a.b'' = Inr set \<and> n_Records set = [] \<and> n_HasChildren set"
  using LookupName_exact [OF exampleDb_inv, of quietPg "[]" "''a.b''" "''a.b''" None]
  by (simp add: exampleDb_def exampleRow_def HasSuffix_iff)

text \<open>Every branch of \<open>CreateRecord\<close> when no statement fails: an unknown zone is not found, a
  CNAME at the top of the zone, a CNAME beside other data and any record beside a CNAME are conflicts,
  and none of these changes the tables; otherwise the record is created.\<close>

lemma CreateRecord_branches:
  fixes u pg r
  assumes "\<And>n. pg_fault pg n = None" "\<And>z. z \<in> set (d_zones db) \<Longrightarrow> z_Serial z + 1 < 2 ^ 63"
    and "zone = NormalizeZone u (r_Zone r)" "name = NormalizeName u zone (r_Name r)" "rtype = NormalizeType u (r_Type r)"
    and "here = filter (\<lambda>w. w_zone w = zone \<and> w_name w = name) (d_records db)"
  shows "CreateRecord u pg enc db r =
    (if zone \<notin> z_Name ` set (d_zones db) then (Inl ErrNotFound, db)
     else if rtype = ''CNAME'' \<and> name = zone then (Inl (ErrConflict CnameAtApex), db)
     else if rtype = ''CNAME'' \<and> \<not> list_all (\<lambda>w. w_type w = ''CNAME'' \<and> pg_md5 pg (w_rdata w) = pg_md5 pg (r_RData r)) here
       then (Inl (ErrConflict CnameNotAlone), db)
     else if rtype \<noteq> ''CNAME'' \<and> list_ex (\<lambda>w. w_type w = ''CNAME'') here then (Inl (ErrConflict HasCname), db)
     else (let z' = the (bumpSerial pg (the (zoneNamed db zone)))
           in (Inr (createdRecord u pg enc r z' db), createdDb u pg r z' db)))"
proof (cases "zoneNamed db zone")
  case None
  then show ?thesis using assms by (simp add: CreateRecord_def Let_def onFault_def flip: zoneNamed_None)
next
  case (Some z)
  then obtain z' where z': "bumpSerial pg z = Some z'"
    using assms(2) zoneNamed_Some [OF Some] by (fastforce simp: bumpSerial_def)
  have mem: "zone \<in> z_Name ` set (d_zones db)" using Some zoneNamed_None [of db zone] by auto
  have conf: "cnameConflict pg db zone name rtype (r_RData r) =
      (if rtype = ''CNAME'' then if list_all (\<lambda>w. w_type w = ''CNAME'' \<and> pg_md5 pg (w_rdata w) = pg_md5 pg (r_RData r)) here
         then None else Some CnameNotAlone
       else if list_ex (\<lambda>w. w_type w = ''CNAME'') here then Some HasCname else None)"
    by (auto simp: cnameConflict_def assms(6) list_ex_iff list_all_iff)
  show ?thesis
    using Some z' mem assms(1) conf
    unfolding CreateRecord_def Let_def onFault_def commitTo_def createdDb_def createdRecord_def
    by (simp add: assms(3-5) [symmetric] case_prod_beta split: if_splits)
qed

lemma find_map_put:
  "find (\<lambda>z. z_Name z = n) (map (\<lambda>x. if z_Name x = z_Name z' then z' else x) zs) =
    (if n = z_Name z' then map_option (\<lambda>_. z') (find (\<lambda>z. z_Name z = n) zs) else find (\<lambda>z. z_Name z = n) zs)"
  by (induction zs) auto

lemma zoneNamed_putZone:
  "zoneNamed (putZone z' db) n = (if n = z_Name z' then map_option (\<lambda>_. z') (zoneNamed db n) else zoneNamed db n)"
  unfolding zoneNamed_def putZone_def by (simp add: find_map_put)

lemma zoneNamed_cong: "d_zones db = d_zones db' \<Longrightarrow> zoneNamed db = zoneNamed db'"
  by (simp add: zoneNamed_def fun_eq_iff)





lemma Normalize_example:
  "NormalizeName asciiCase ''a.b'' ''w'' = ''w.a.b''" "NormalizeType asciiCase ''A'' = ''A''"
  by (simp_all add: NormalizeName_def NormalizeType_def Let_def TrimSpace_id visible_def ToLower_def ToUpper_def is_ascii_def
      lower_char_def upper_char_def TrimSuffix_def HasSuffix_single HasSuffix_def suffix_Cons)


lemma CreateRecord_branches_witness:
  "CreateRecord asciiCase quietPg None (exampleDb\<lparr>d_zones := []\<rparr>) exampleRecord = (Inl ErrNotFound, exampleDb\<lparr>d_zones := []\<rparr>)"
  using CreateRecord_branches [where pg = quietPg and db = "exampleDb\<lparr>d_zones := []\<rparr>" and u = asciiCase and r = exampleRecord
      and enc = None, OF _ _ refl refl refl refl]
  by simp


text \<open>What \<open>DeleteRecord\<close> does when no statement fails: if no record of the zone, name and type has
  data with the same digest it reports not-found and changes nothing; otherwise it removes exactly
  those records and the zone's serial strictly increases.\<close>

lemma DeleteRecord_effect:
  assumes "dbInv (pg_md5 pg) db" "\<And>n. pg_fault pg n = None" "\<And>z. z \<in> set (d_zones db) \<Longrightarrow> z_Serial z + 1 < 2 ^ 63"
    and "DeleteRecord u pg db zone name rtype rdata = (out, db')"
  shows "if list_ex (hits u pg zone name rtype rdata) (d_records db)
     then out = Inr () \<and> d_records db' = filter (\<lambda>w. \<not> hits u pg zone name rtype rdata w) (d_records db) \<and>
       (\<exists>z z'. zoneNamed db (NormalizeZone u zone) = Some z \<and> zoneNamed db' (NormalizeZone u zone) = Some z' \<and> z_Serial z < z_Serial z')
     else out = Inl ErrNotFound \<and> db' = db"
proof (cases "list_ex (hits u pg zone name rtype rdata) (d_records db)")
  case True
  then obtain w where "w \<in> set (d_records db)" "w_zone w = NormalizeZone u zone" by (auto simp: list_ex_iff hits_def)
  then have "NormalizeZone u zone \<in> z_Name ` set (d_zones db)" using dbInvD(3) [OF assms(1)] unfolding rowOk_def by force
  then obtain z where z: "zoneNamed db (NormalizeZone u zone) = Some z" using zoneNamed_None [of db] by (meson not_None_eq)
  moreover obtain z' where z': "bumpSerial pg z = Some z'"
    using assms(3) [of z] zoneNamed_Some [OF z] by (auto simp: bumpSerial_def)
  ultimately have "(out, db') = (Inr (), putZone z' (db\<lparr>d_records := filter (\<lambda>w. \<not> hits u pg zone name rtype rdata w) (d_records db)\<rparr>))"
    using assms(4) [symmetric] True assms(2) by (simp add: DeleteRecord_def Let_def onFault_def commitTo_def flip: hits_def)
  moreover have "z_Name z' = NormalizeZone u zone" "z_Serial z < z_Serial z'"
    using bumpSerial_Some [OF z'] zoneNamed_Some [OF z] by auto
  ultimately show ?thesis using True z by (simp add: zoneNamed_putZone)
next
  case False
  then show ?thesis using assms(2,4) by (auto simp: DeleteRecord_def Let_def onFault_def simp flip: hits_def)
qed

lemma DeleteRecord_effect_witness:
  "fst (DeleteRecord asciiCase quietPg exampleDb ''a.b'' ''w'' ''A'' ''1.2.3.4'') = Inr () \<and>
   d_records (snd (DeleteRecord asciiCase quietPg exampleDb ''a.b'' ''w'' ''A'' ''1.2.3.4'')) = []"
proof -
  have "hits asciiCase quietPg ''a.b'' ''w'' ''A'' ''1.2.3.4'' exampleRow"
    by (simp add: hits_def exampleRow_def NormalizeZone_example Normalize_example)
  then show ?thesis
    using DeleteRecord_effect [of quietPg exampleDb asciiCase "''a.b''" "''w''" "''A''" "''1.2.3.4''"
        "fst (DeleteRecord asciiCase quietPg exampleDb ''a.b'' ''w'' ''A'' ''1.2.3.4'')"
        "snd (DeleteRecord asciiCase quietPg exampleDb ''a.b'' ''w'' ''A'' ''1.2.3.4'')"] exampleDb_inv
    by (simp add: exampleDb_def exampleZone_def quietPg_def)
qed









section \<open>Pages\<close>

text \<open>In a list that increases strictly in a key, the elements beyond one of them are those after it.\<close>

lemma sorted_beyond:
  fixes f :: "'a \<Rightarrow> 'b"
  assumes "sorted_wrt (\<lambda>x y. lt (f x) (f y)) xs" "k < length xs" "\<And>a. \<not> lt a a" "\<And>a b. lt a b \<Longrightarrow> \<not> lt b a"
  shows "filter (\<lambda>x. lt (f (xs ! k)) (f x)) xs = drop (k + 1) xs"
  using assms(1,2)
proof (induction xs arbitrary: k)
  case (Cons x xs)
  show ?case
  proof (cases k)
    case 0
    then show ?thesis using Cons.prems assms(3) by (simp add: filter_id_conv)
  next
    case (Suc j)
    then have j: "j < length xs" and lt: "lt (f x) (f (xs ! j))" using Cons.prems by auto
    have "filter (\<lambda>y. lt (f (xs ! j)) (f y)) xs = drop (j + 1) xs" using Cons.IH Cons.prems j by simp
    then show ?thesis using Suc assms(4) [OF lt] by simp
  qed
qed simp

lemma filter_beyond:
  assumes "\<And>a b c. lt a b \<Longrightarrow> lt b c \<Longrightarrow> lt a c" "xs = filter (\<lambda>x. lt a (f x)) ys" "k < length xs"
  shows "filter (\<lambda>x. lt (f (xs ! k)) (f x)) ys = filter (\<lambda>x. lt (f (xs ! k)) (f x)) xs"
proof -
  have "lt a (f (xs ! k))" using assms(2,3) nth_mem [of k xs] by auto
  then show ?thesis unfolding assms(2) filter_filter by (intro filter_cong) (auto intro: assms(1))
qed

text \<open>One page: the records of the zone beyond the token, in the order of their identifiers.\<close>

definition recordsAfter :: "db \<Rightarrow> string \<Rightarrow> int \<Rightarrow> srow list" where
  "recordsAfter db zone a = sort_key w_id (filter (\<lambda>w. w_zone w = zone \<and> w_id w > a) (d_records db))"

lemma recordsAfter_filter: "recordsAfter db zone a = filter (\<lambda>w. w_id w > a) (sort_key w_id (filter (\<lambda>w. w_zone w = zone) (d_records db)))"
  by (simp add: recordsAfter_def filter_sort conj_commute)

lemma recordsAfter_sorted:
  assumes "dbInv md5 db"
  shows "sorted_wrt (\<lambda>x y. w_id x < w_id y) (recordsAfter db zone a)"
proof -
  let ?L = "recordsAfter db zone a"
  have "distinct (map w_id ?L)"
    using dbInvD(4) [OF assms] by (simp add: recordsAfter_def distinct_map_filter distinct_map inj_on_def)
  then have "sorted_wrt (<) (map w_id ?L)"
    unfolding strict_sorted_iff by (simp add: recordsAfter_def)
  then show ?thesis by (simp add: sorted_wrt_map)
qed

lemma recordsAfter_next:
  assumes "dbInv md5 db" "k < length (recordsAfter db zone a)"
  shows "recordsAfter db zone (w_id (recordsAfter db zone a ! k)) = drop (k + 1) (recordsAfter db zone a)"
  using sorted_beyond [where lt = "(<)" and f = w_id, OF recordsAfter_sorted [OF assms(1)] assms(2)]
    filter_beyond [where lt = "(<)" and f = w_id, OF _ recordsAfter_filter assms(2)]
  by (simp add: recordsAfter_filter [of db zone "w_id (recordsAfter db zone a ! k)"])

text \<open>Page tokens: printing and parsing identifiers.\<close>

lemma dec_loop_FormatNat: "dec_loop acc (FormatNat n @ s) = dec_loop (acc * 10 ^ length (FormatNat n) + n) s"
proof (induction n arbitrary: acc s rule: FormatNat.induct)
  case (1 n)
  have digit: "isDigit (char_of (48 + d)) \<and> digit_val (char_of (48 + d)) = d" if "d < 10" for d :: nat
    using that by (simp add: isDigit_def digit_val_def of_char_of Let_def)
  show ?case
  proof (cases "n < 10")
    case True
    then show ?thesis using digit by (simp add: FormatNat.simps [of n] algebra_simps)
  next
    case False
    show ?thesis using 1 [OF False] False digit [of "n mod 10"] by (simp add: FormatNat.simps [of n] mult.left_commute add.commute)
  qed
qed

lemma FormatNat_not_Nil [simp]: "FormatNat n \<noteq> []"
  by (subst FormatNat.simps) simp

lemma FormatNat_hd: "hd (FormatNat n) \<noteq> CHR ''-'' \<and> hd (FormatNat n) \<noteq> CHR ''+''"
proof (induction n rule: FormatNat.induct)
  case (1 n)
  have "char_of (48 + d) \<noteq> CHR ''-'' \<and> char_of (48 + d) \<noteq> CHR ''+''" if "d < 10" for d :: nat
  proof -
    have "(of_char (char_of (48 + d) :: char) :: nat) = 48 + d" unfolding of_char_of using that by simp
    then have "(of_char (char_of (48 + d) :: char) :: nat) \<noteq> of_char CHR ''-''"
      "(of_char (char_of (48 + d) :: char) :: nat) \<noteq> of_char CHR ''+''" by (simp_all only: of_char_of) simp_all
    then show ?thesis by metis
  qed
  then show ?case using 1 by (subst (1 2) FormatNat.simps) auto
qed

lemma ParseInt_FormatInt: "0 \<le> i \<Longrightarrow> i < 2 ^ 63 \<Longrightarrow> ParseInt (FormatInt i) = Some i"
proof -
  assume i: "0 \<le> i" "i < 2 ^ 63"
  obtain c cs where c: "FormatNat (nat i) = c # cs" by (cases "FormatNat (nat i)") auto
  then have "c \<noteq> CHR ''-''" "c \<noteq> CHR ''+''" using FormatNat_hd [of "nat i"] by auto
  moreover have "dec_loop 0 (c # cs) = Some (nat i)" using dec_loop_FormatNat [of 0 "nat i" "[]"] c by simp
  moreover have "nat i < 2 ^ 63" using i by (simp add: nat_less_iff)
  ultimately show ?thesis using i c by (simp add: FormatInt_def ParseInt_def ParseUint_def)
qed

text \<open>Paging through a zone's records: a page holds the first \<open>limit\<close> records beyond the token in the
  order of their identifiers; the next token is empty exactly if none remain; and listing with the
  next token continues with precisely the records not yet returned, so that no record is skipped or
  repeated.\<close>

lemma ListRecords_pages:
  assumes "dbInv md5 db" "\<And>n. pg_fault pg n = None" "0 < limit" "d_next db \<le> 2 ^ 63"
    and "after = [] \<and> a = 0 \<or> ParseInt after = Some a \<and> 0 \<le> a \<and> after \<noteq> []"
  shows "\<exists>next. ListRecords u pg enc db zone limit after =
           Inr (map (scanRecord enc) (take limit (recordsAfter db (NormalizeZone u zone) a)), next) \<and>
         (next = [] \<longleftrightarrow> length (recordsAfter db (NormalizeZone u zone) a) \<le> limit) \<and>
         (next \<noteq> [] \<longrightarrow> (\<exists>b. ParseInt next = Some b \<and> 0 \<le> b \<and>
            recordsAfter db (NormalizeZone u zone) b = drop limit (recordsAfter db (NormalizeZone u zone) a)))"
proof -
  let ?R = "recordsAfter db (NormalizeZone u zone) a"
  have page: "ListRecords u pg enc db zone limit after =
      Inr (map (scanRecord enc) (take limit ?R), if length ?R > limit then FormatInt (w_id (?R ! (limit - 1))) else [])"
    using assms(2,3,5)
    by (auto simp: ListRecords_def query_def Let_def collectRecords_def recordsAfter_def [symmetric] take_map scanRecord_def
        case_prod_beta)
  show ?thesis
  proof (cases "length ?R > limit")
    case True
    let ?b = "w_id (?R ! (limit - 1))"
    have "?R ! (limit - 1) \<in> set ?R" using True by (intro nth_mem) simp
    then have "?R ! (limit - 1) \<in> set (d_records db)" and "a < ?b" by (auto simp: recordsAfter_def)
    then have b: "0 \<le> ?b" "?b < 2 ^ 63"
      using dbInvD(3) [OF assms(1)] assms(4,5) unfolding rowOk_def by force+
    have "recordsAfter db (NormalizeZone u zone) ?b = drop limit ?R"
      using recordsAfter_next [OF assms(1), of "limit - 1" "NormalizeZone u zone" a] True assms(3) by simp
    moreover have "FormatInt ?b \<noteq> []" using b(1) by (simp add: FormatInt_def)
    ultimately show ?thesis using page True ParseInt_FormatInt [OF b] b(1) by auto
  qed (use page in simp)
qed

lemma ListRecords_pages_witness:
  "\<exists>next. ListRecords asciiCase quietPg None exampleDb ''a.b'' 1 [] = Inr ([scanRecord None exampleRow], next) \<and> next = []"
proof -
  have "recordsAfter exampleDb ''a.b'' 0 = [exampleRow]" by (simp add: recordsAfter_def exampleDb_def exampleRow_def)
  then show ?thesis
    using ListRecords_pages [OF exampleDb_inv, of quietPg 1 "[]" 0 asciiCase None "''a.b''"]
    by (simp add: NormalizeZone_example exampleDb_def)
qed

subsection \<open>Zones in the order of the collation\<close>

text \<open>What is relied on of a collation: it orders text strictly and totally, the empty text first.\<close>

definition collation :: "(string \<Rightarrow> string \<Rightarrow> bool) \<Rightarrow> bool" where
  "collation lt = ((\<forall>a. \<not> lt a a) \<and> (\<forall>a b c. lt a b \<longrightarrow> lt b c \<longrightarrow> lt a c) \<and>
     (\<forall>a b. a \<noteq> b \<longrightarrow> lt a b \<or> lt b a) \<and> (\<forall>a. a \<noteq> [] \<longrightarrow> lt [] a))"

lemma collation_bytes: "collation (<)"
  by (auto simp: collation_def intro: less_trans) (metis neq_Nil_conv Nil_less_Cons)

lemma mset_insertBy [simp]: "mset (insertBy lt x ys) = add_mset x (mset ys)"
  by (induction ys) auto

lemma mset_sortBy [simp]: "mset (sortBy lt xs) = mset xs"
  by (induction xs) (simp_all add: sortBy_def)

lemma set_insertBy [simp]: "set (insertBy lt x ys) = insert x (set ys)"
  by (metis mset_insertBy set_mset_mset set_mset_add_mset_insert)

lemma set_sortBy [simp]: "set (sortBy lt xs) = set xs"
  by (metis mset_sortBy set_mset_mset)

lemma sortBy_Cons: "sortBy lt (x # xs) = insertBy lt x (sortBy lt xs)"
  by (simp add: sortBy_def)

lemma insertBy_sorted:
  assumes "transp lt" "sorted_wrt lt ys" "\<And>y. y \<in> set ys \<Longrightarrow> lt x y \<or> lt y x"
  shows "sorted_wrt lt (insertBy lt x ys)"
  using assms(2,3) by (induction ys) (auto intro: transpD [OF assms(1)])

lemma sortBy_sorted:
  assumes "transp lt" "distinct xs" "\<And>x y. x \<in> set xs \<Longrightarrow> y \<in> set xs \<Longrightarrow> x \<noteq> y \<Longrightarrow> lt x y \<or> lt y x"
  shows "sorted_wrt lt (sortBy lt xs)"
  using assms(2,3)
proof (induction xs)
  case (Cons x xs)
  then have "sorted_wrt lt (sortBy lt xs)" "\<And>y. y \<in> set (sortBy lt xs) \<Longrightarrow> lt x y \<or> lt y x" by auto
  then show ?case unfolding sortBy_Cons by (rule insertBy_sorted [OF assms(1)])
qed (simp add: sortBy_def)

lemma filter_insertBy:
  assumes "transp lt" "sorted_wrt lt ys"
  shows "filter P (insertBy lt x ys) = (if P x then insertBy lt x (filter P ys) else filter P ys)"
  using assms(2)
proof (induction ys)
  case (Cons y ys)
  have hd: "insertBy lt x (filter P ys) = x # filter P ys" if "\<not> lt y x"
  proof (cases "filter P ys")
    case fl: (Cons h t)
    then have "h \<in> set ys" by (metis filter_is_subset list.set_intros(1) subsetD)
    then have "\<not> lt h x" using Cons.prems that transpD [OF assms(1)] by auto
    then show ?thesis using fl by simp
  qed simp
  show ?case using Cons hd by auto
qed simp

lemma filter_sortBy:
  assumes "transp lt" "distinct xs" "\<And>x y. x \<in> set xs \<Longrightarrow> y \<in> set xs \<Longrightarrow> x \<noteq> y \<Longrightarrow> lt x y \<or> lt y x"
  shows "filter P (sortBy lt xs) = sortBy lt (filter P xs)"
  using assms(2,3)
proof (induction xs)
  case (Cons x xs)
  then have "sorted_wrt lt (sortBy lt xs)" by (intro sortBy_sorted [OF assms(1)]) simp_all
  then show ?case using Cons filter_insertBy [OF assms(1)] by (simp add: sortBy_Cons)
qed (simp add: sortBy_def)

definition zonesAfter :: "(string \<Rightarrow> string \<Rightarrow> bool) \<Rightarrow> db \<Rightarrow> string \<Rightarrow> zone list" where
  "zonesAfter lt db a = sortBy (\<lambda>x y. lt (z_Name x) (z_Name y)) (filter (\<lambda>z. lt a (z_Name z)) (d_zones db))"

text \<open>Paging through the zones: whatever the collation, a page holds the first \<open>limit\<close> zones beyond
  the token in its order; the next token is empty exactly if none remain; listing with it continues
  with the zones not yet returned; and the first page starts with the first of all zones.\<close>

lemma ListZones_pages:
  assumes "dbInv md5 db" "pg_fault pg 0 = None" "0 < limit" "collation (pg_less pg)"
  shows "(\<exists>next. ListZones pg db limit after = Inr (take limit (zonesAfter (pg_less pg) db after), next) \<and>
           (next = [] \<longleftrightarrow> length (zonesAfter (pg_less pg) db after) \<le> limit) \<and>
           (next \<noteq> [] \<longrightarrow> zonesAfter (pg_less pg) db next = drop limit (zonesAfter (pg_less pg) db after)))
       \<and> mset (zonesAfter (pg_less pg) db []) = mset (d_zones db)"
proof -
  let ?lt = "\<lambda>x y. pg_less pg (z_Name x) (z_Name y)" and ?R = "zonesAfter (pg_less pg) db after"
  have c: "\<And>a. \<not> pg_less pg a a" "\<And>a b c. pg_less pg a b \<Longrightarrow> pg_less pg b c \<Longrightarrow> pg_less pg a c"
    "\<And>a b. a \<noteq> b \<Longrightarrow> pg_less pg a b \<or> pg_less pg b a" "\<And>a. a \<noteq> [] \<Longrightarrow> pg_less pg [] a"
    using assms(4) unfolding collation_def by blast+
  have d: "distinct (d_zones db)" "inj_on z_Name (set (d_zones db))" "[] \<notin> z_Name ` set (d_zones db)"
    using dbInvD(1,2) [OF assms(1)] by (simp_all add: distinct_map)
  have tot: "?lt x y \<or> ?lt y x" if "x \<in> set (d_zones db)" "y \<in> set (d_zones db)" "x \<noteq> y" for x y
    using c(3) d(2) that by (metis inj_onD)
  have tr: "transp ?lt" using c(2) by (auto intro: transpI)
  have all: "zonesAfter (pg_less pg) db a = filter (\<lambda>z. pg_less pg a (z_Name z)) (sortBy ?lt (d_zones db))" for a
    unfolding zonesAfter_def using filter_sortBy [OF tr d(1) tot] by simp
  have srt: "sorted_wrt ?lt ?R" unfolding zonesAfter_def
    using d(1) tot by (intro sortBy_sorted [OF tr]) simp_all
  have page: "ListZones pg db limit after = Inr (take limit ?R, if length ?R > limit then z_Name (?R ! (limit - 1)) else [])"
    using assms(2,3) by (auto simp: ListZones_def query_def Let_def zonesAfter_def [symmetric])
  have "filter (\<lambda>z. pg_less pg [] (z_Name z)) (d_zones db) = d_zones db"
    using c(4) d(3) by (intro filter_True) (metis imageI)
  then have "mset (zonesAfter (pg_less pg) db []) = mset (d_zones db)" by (simp add: zonesAfter_def)
  moreover have "z_Name (?R ! (limit - 1)) \<noteq> [] \<and> zonesAfter (pg_less pg) db (z_Name (?R ! (limit - 1))) = drop limit ?R"
    if long: "length ?R > limit"
  proof
    have k: "limit - 1 < length ?R" using long by simp
    then have "?R ! (limit - 1) \<in> set (d_zones db)" using nth_mem [OF k] by (simp add: zonesAfter_def)
    then show "z_Name (?R ! (limit - 1)) \<noteq> []" using d(3) by (metis imageI)
    show "zonesAfter (pg_less pg) db (z_Name (?R ! (limit - 1))) = drop limit ?R"
    proof -
      have "filter (\<lambda>x. pg_less pg (z_Name (?R ! (limit - 1))) (z_Name x)) ?R = drop (limit - 1 + 1) ?R"
        by (rule sorted_beyond [where lt = "pg_less pg" and f = z_Name, OF srt k]) (use c(1,2) in blast)+
      moreover have "filter (\<lambda>x. pg_less pg (z_Name (?R ! (limit - 1))) (z_Name x)) (sortBy ?lt (d_zones db)) =
          filter (\<lambda>x. pg_less pg (z_Name (?R ! (limit - 1))) (z_Name x)) ?R"
        by (rule filter_beyond [where lt = "pg_less pg" and f = z_Name, OF _ all k]) (rule c(2))
      ultimately show ?thesis unfolding all [of "z_Name (?R ! (limit - 1))"] using assms(3) by simp
    qed
  qed
  ultimately show ?thesis using page by auto
qed

lemma ListZones_pages_witness:
  "collation (pg_less quietPg) \<and>
   (\<exists>next. ListZones quietPg exampleDb 1 [] = Inr ([exampleZone], next) \<and> next = [])"
proof -
  have c: "collation (pg_less quietPg)" by (simp add: quietPg_def collation_bytes)
  have "zonesAfter (pg_less quietPg) exampleDb [] = [exampleZone]"
    by (simp add: zonesAfter_def exampleDb_def exampleZone_def quietPg_def sortBy_def)
  then show ?thesis using ListZones_pages [OF exampleDb_inv _ _ c, of 1 "[]"] c by simp
qed

section \<open>Serials\<close>

abbreviation zoneRows :: "db \<Rightarrow> string \<Rightarrow> srow list" where
  "zoneRows db n \<equiv> filter (\<lambda>w. w_zone w = n) (d_records db)"

text \<open>The serial of a zone never goes back, and moves on whenever the zone or its records change.\<close>

definition serialAdvances :: "db \<Rightarrow> db \<Rightarrow> bool" where
  "serialAdvances db db' = (\<forall>n z z'. zoneNamed db n = Some z \<longrightarrow> zoneNamed db' n = Some z' \<longrightarrow>
     z_Serial z \<le> z_Serial z' \<and> (z' \<noteq> z \<or> zoneRows db' n \<noteq> zoneRows db n \<longrightarrow> z_Serial z < z_Serial z'))"

lemma serialAdvances_refl [simp]: "serialAdvances db db"
  by (simp add: serialAdvances_def)

lemma serialAdvances_next [simp]: "serialAdvances db (db\<lparr>d_next := i\<rparr>)"
  by (simp add: serialAdvances_def zoneNamed_def)

lemma serialAdvances_bump:
  assumes "zoneNamed db n = Some z" "z_Serial z < z_Serial z'" "z_Name z' = n" "d_zones db' = d_zones (putZone z' db)"
    and "\<And>m. m \<noteq> n \<Longrightarrow> zoneRows db' m = zoneRows db m"
  shows "serialAdvances db db'"
  using assms by (auto simp: serialAdvances_def zoneNamed_cong [OF assms(4)] zoneNamed_putZone)

lemma zoneRows_retime:
  "m \<noteq> zone \<Longrightarrow> filter (\<lambda>w. w_zone w = m) (map (retime zone name rtype ttl) ws) = filter (\<lambda>w. w_zone w = m) ws"
  by (induction ws) (auto simp: retime_def)

lemma serialAdvances_createdDb:
  assumes "mayCreate u pg db r z'"
  shows "serialAdvances db (createdDb u pg r z' db)"
proof -
  obtain z where z: "zoneNamed db (NormalizeZone u (r_Zone r)) = Some z" "bumpSerial pg z = Some z'"
    using assms unfolding mayCreate_def Let_def by auto
  show ?thesis
    using bumpSerial_Some [OF z(2)] zoneNamed_Some [OF z(1)]
    by (intro serialAdvances_bump [OF z(1)]) (auto simp: createdDb_fields(1,3) zoneRows_retime simp del: map_append)
qed

lemma zoneRows_unhit:
  "m \<noteq> NormalizeZone u zone \<Longrightarrow>
   filter (\<lambda>w. w_zone w = m) (filter (\<lambda>x. \<not> hits u pg zone name rtype rdata x) ws) = filter (\<lambda>w. w_zone w = m) ws"
  by (auto simp: hits_def intro: filter_cong)

lemma serialAdvances_deletedDb: "serialAdvances db (deletedDb u pg zone name rtype rdata db)"
proof (cases "zoneNamed db (NormalizeZone u zone)")
  case None
  then have "zoneNamed db n = Some z \<Longrightarrow> n \<noteq> NormalizeZone u zone" for n z by auto
  then show ?thesis using None zoneRows_unhit [of _ u zone pg name rtype rdata "d_records db"]
    by (simp add: deletedDb_def Let_def serialAdvances_def)
next
  case (Some z)
  show ?thesis
  proof (cases "bumpSerial pg z")
    case b: (Some z')
    then show ?thesis
      using Some bumpSerial_Some [OF b] zoneNamed_Some [OF Some] zoneRows_unhit [of _ u zone pg name rtype rdata "d_records db"]
      by (intro serialAdvances_bump [OF Some, of z']) (simp_all add: deletedDb_def Let_def putZone_def)
  qed (simp add: deletedDb_def Let_def Some)
qed

lemma zoneNamed_snoc: "zoneNamed (db\<lparr>d_zones := d_zones db @ [z]\<rparr>) n =
    (case zoneNamed db n of Some y \<Rightarrow> Some y | None \<Rightarrow> if z_Name z = n then Some z else None)"
proof -
  have "find P (xs @ [z]) = (case find P xs of Some y \<Rightarrow> Some y | None \<Rightarrow> if P z then Some z else None)" for P :: "zone \<Rightarrow> bool" and xs
    by (induction xs) auto
  then show ?thesis by (simp add: zoneNamed_def)
qed

lemma find_filter_other: "n \<noteq> m \<Longrightarrow> find (\<lambda>z. z_Name z = n) (filter (\<lambda>z. z_Name z \<noteq> m) zs) = find (\<lambda>z. z_Name z = n) zs"
  by (induction zs) auto

text \<open>Claim C30. The serial of a zone advances on every change: no store operation, whether it succeeds or
  fails at any statement, ever lowers the serial of an existing zone, and if the operation changed
  the zone's row or any of its records then the serial strictly increased.\<close>

theorem serial_advances:
  "serialAdvances db (storeStep u enc db (pg, op))"
proof (cases op)
  case (CreateZoneOp z)
  then show ?thesis by (auto simp: snd_CreateZone Let_def serialAdvances_def zoneNamed_snoc)
next
  case (UpdateZoneOp z)
  show ?thesis
  proof (cases "zoneNamed db (NormalizeZone u (z_Name z))")
    case (Some old)
    then show ?thesis using UpdateZoneOp zoneNamed_Some [OF Some]
      by (auto simp: UpdateZone_def snd_onFault snd_commitTo split: option.splits dest!: bumpSerial_Some intro!: serialAdvances_bump [OF Some])
  qed (simp add: UpdateZoneOp UpdateZone_def snd_onFault)
next
  case (DeleteZoneOp m)
  have "serialAdvances db (db\<lparr>d_zones := filter (\<lambda>z. z_Name z \<noteq> k) (d_zones db), d_records := filter (\<lambda>r. w_zone r \<noteq> k) (d_records db)\<rparr>)" for k
    unfolding serialAdvances_def
  proof (intro allI impI)
    fix n z z' assume a: "zoneNamed db n = Some z"
      "zoneNamed (db\<lparr>d_zones := filter (\<lambda>z. z_Name z \<noteq> k) (d_zones db), d_records := filter (\<lambda>r. w_zone r \<noteq> k) (d_records db)\<rparr>) n = Some z'"
    have "n \<noteq> k" using zoneNamed_Some [OF a(2)] by auto
    then show "z_Serial z \<le> z_Serial z' \<and> (z' \<noteq> z \<or> zoneRows (db\<lparr>d_zones := filter (\<lambda>z. z_Name z \<noteq> k) (d_zones db),
        d_records := filter (\<lambda>r. w_zone r \<noteq> k) (d_records db)\<rparr>) n \<noteq> zoneRows db n \<longrightarrow> z_Serial z < z_Serial z')"
      using a by (auto simp: zoneNamed_def find_filter_other intro: filter_cong)
  qed
  then show ?thesis by (simp add: DeleteZoneOp DeleteZone_def Let_def snd_onFault snd_commitTo)
next
  case (CreateRecordOp r)
  then show ?thesis
    using CreateRecord_outcome [of u pg enc db r "fst (CreateRecord u pg enc db r)" "snd (CreateRecord u pg enc db r)"]
      serialAdvances_createdDb [of u pg db r] by auto
next
  case (DeleteRecordOp zo n t d)
  then show ?thesis
    using DeleteRecord_outcome [of u pg db zo n t d "fst (DeleteRecord u pg db zo n t d)" "snd (DeleteRecord u pg db zo n t d)"]
      serialAdvances_deletedDb [of db u pg zo n t d] by auto
qed

end
