(* ===== verification/Cache.thy ===== *)
theory Cache
  imports Prelude "HOL-Library.AList" "HOL-Library.Multiset"
begin

text \<open>
  The sharded cache of \<open>src/internal/cache/cache.go\<close>. A shard's Go map is an association list with
  distinct keys. What the code takes from its environment is an argument: the clock (\<open>now\<close>, in
  nanoseconds), the seeded hash function (part of the cache, as the seed is), and the order in which
  \<open>range\<close> visits the keys of a map (\<open>ord\<close>), which Go leaves unspecified. Each operation holds its
  shard's lock while it touches the shard, so an operation is one step of the model; the
  interleavings between the atomic epoch counter and the locked sections are the subject of
  theory \<open>Cache_Interleaving\<close>.
\<close>

section \<open>State\<close>

abbreviation (input) shardCount :: nat where "shardCount \<equiv> 64"

record 'v entry =
  e_value :: 'v
  e_group :: string
  e_expires :: int

type_synonym 'v shard = "(string \<times> 'v entry) list"

record 'v cache =
  c_shards :: "'v shard list"
  c_hash :: "string \<Rightarrow> u64"
  c_perShard :: nat
  c_ttl :: int
  c_epoch :: u64
  c_hits :: u64
  c_misses :: u64

text \<open>Signed 64-bit wrap-around, as in \<open>now + int64(c.ttl)\<close>.\<close>

definition wrap64 :: "int \<Rightarrow> int" where
  "wrap64 i = (i + 2 ^ 63) mod 2 ^ 64 - 2 ^ 63"

abbreviation (input) MaxInt64 :: int where "MaxInt64 \<equiv> 9223372036854775807"

section \<open>Operations\<close>

definition New :: "(string \<Rightarrow> u64) \<Rightarrow> int \<Rightarrow> int \<Rightarrow> 'v cache" where
  "New hash maxEntries ttl =
    (let per = maxEntries div int shardCount; per = (if per < 1 then 1 else per)
     in \<lparr>c_shards = replicate shardCount [], c_hash = hash, c_perShard = nat per, c_ttl = ttl,
         c_epoch = 0, c_hits = 0, c_misses = 0\<rparr>)"

definition shardFor :: "'v cache \<Rightarrow> string \<Rightarrow> nat" where
  "shardFor c key = unat (c_hash c key mod of_nat shardCount)"

abbreviation shardOf :: "'v cache \<Rightarrow> string \<Rightarrow> 'v shard" where
  "shardOf c key \<equiv> c_shards c ! shardFor c key"

definition Epoch :: "'v cache \<Rightarrow> u64" where
  "Epoch c = c_epoch c"

definition Get :: "int \<Rightarrow> 'v cache \<Rightarrow> string \<Rightarrow> 'v option \<times> 'v cache" where
  "Get now c key =
    (case map_of (shardOf c key) key of
       Some e \<Rightarrow> if e_expires e > now then (Some (e_value e), c\<lparr>c_hits := c_hits c + 1\<rparr>)
                 else (None, c\<lparr>c_misses := c_misses c + 1\<rparr>)
     | None \<Rightarrow> (None, c\<lparr>c_misses := c_misses c + 1\<rparr>))"

text \<open>The second loop of \<open>evict\<close>, over the keys in the order \<open>range\<close> yields them.\<close>

fun evict_loop :: "nat \<Rightarrow> 'v shard \<Rightarrow> string list \<Rightarrow> 'v shard" where
  "evict_loop per m [] = m"
| "evict_loop per m (k # ks) = (if length m < per then m else evict_loop per (AList.delete k m) ks)"

definition evict :: "(string list \<Rightarrow> string list) \<Rightarrow> nat \<Rightarrow> int \<Rightarrow> 'v shard \<Rightarrow> 'v shard" where
  "evict ord per now m =
    (let m = filter (\<lambda>(k, e). \<not> e_expires e \<le> now) m
     in evict_loop per m (ord (map fst m)))"

definition SetKey ::
  "(string list \<Rightarrow> string list) \<Rightarrow> int \<Rightarrow> 'v cache \<Rightarrow> string \<Rightarrow> string \<Rightarrow> 'v \<Rightarrow> u64 \<Rightarrow> 'v cache" where
  "SetKey ord now c key grp val ep =
    (if c_epoch c \<noteq> ep then c
     else let m = shardOf c key;
              m = (if map_of m key = None \<and> length m \<ge> c_perShard c then evict ord (c_perShard c) now m else m);
              expires = (if c_ttl c > 0 then wrap64 (now + c_ttl c) else MaxInt64)
          in c\<lparr>c_shards := (c_shards c)[shardFor c key :=
                 AList.update key \<lparr>e_value = val, e_group = grp, e_expires = expires\<rparr> m]\<rparr>)"

definition Delete :: "'v cache \<Rightarrow> string \<Rightarrow> 'v cache" where
  "Delete c key =
    (let c = c\<lparr>c_epoch := c_epoch c + 1\<rparr>
     in c\<lparr>c_shards := (c_shards c)[shardFor c key := AList.delete key (shardOf c key)]\<rparr>)"

definition DeleteGroup :: "'v cache \<Rightarrow> string \<Rightarrow> 'v cache" where
  "DeleteGroup c grp =
    c\<lparr>c_epoch := c_epoch c + 1, c_shards := map (filter (\<lambda>(k, e). e_group e \<noteq> grp)) (c_shards c)\<rparr>"

definition Clear :: "'v cache \<Rightarrow> 'v cache" where
  "Clear c = c\<lparr>c_epoch := c_epoch c + 1, c_shards := map (\<lambda>_. []) (c_shards c)\<rparr>"

definition Len :: "'v cache \<Rightarrow> nat" where
  "Len c = sum_list (map length (c_shards c))"

definition Stats :: "'v cache \<Rightarrow> u64 \<times> u64" where
  "Stats c = (c_hits c, c_misses c)"

section \<open>Invariant and abstraction\<close>

text \<open>Every shard holds distinct keys that hash to it, and no more than its share of entries.\<close>

definition shardInv :: "'v cache \<Rightarrow> nat \<Rightarrow> bool" where
  "shardInv c i = (distinct (map fst (c_shards c ! i)) \<and> length (c_shards c ! i) \<le> c_perShard c \<and>
     (\<forall>k \<in> fst ` set (c_shards c ! i). shardFor c k = i))"

definition cacheInv :: "'v cache \<Rightarrow> bool" where
  "cacheInv c = (length (c_shards c) = shardCount \<and> 0 < c_perShard c \<and> (\<forall>i < shardCount. shardInv c i))"

text \<open>The cache as one map from keys to entries.\<close>

definition lookupEntry :: "'v cache \<Rightarrow> string \<rightharpoonup> 'v entry" where
  "lookupEntry c key = map_of (shardOf c key) key"

section \<open>Shards\<close>

text \<open>\<open>range\<close> visits every key of a map once, in some order.\<close>

definition rangeOrder :: "(string list \<Rightarrow> string list) \<Rightarrow> bool" where
  "rangeOrder ord = (\<forall>ks. mset (ord ks) = mset ks)"

lemma rangeOrder_id [simp]: "rangeOrder (\<lambda>ks. ks)" and rangeOrder_rev [simp]: "rangeOrder rev"
  by (auto simp: rangeOrder_def)

lemma rangeOrderD:
  assumes "rangeOrder ord"
  shows "set (ord ks) = set ks" and "distinct (ord ks) = distinct ks"
  using assms mset_eq_setD mset_eq_imp_distinct_iff unfolding rangeOrder_def by blast+

abbreviation keys :: "'v shard \<Rightarrow> string list" where
  "keys m \<equiv> map fst m"

lemma length_AList_delete:
  "distinct (keys m) \<Longrightarrow> length (AList.delete k m) = (if k \<in> set (keys m) then length m - 1 else length m)"
  using distinct_remove1_removeAll [of "keys m" k] length_remove1 [of k "keys m"]
  by (metis delete_keys length_map)

lemma length_AList_update:
  "length (AList.update k v m) = (if k \<in> set (keys m) then length m else Suc (length m))"
  by (induction m) auto

lemma evict_loop_map_of:
  "map_of (evict_loop per m ks) k = map_of m k \<or> map_of (evict_loop per m ks) k = None"
proof (induction ks arbitrary: m)
  case (Cons x xs)
  then show ?case using Cons.IH [of "AList.delete x m"] by (auto simp: delete_conv split: if_splits)
qed simp

lemma evict_loop_keys:
  "set (keys (evict_loop per m ks)) \<subseteq> set (keys m)"
  "distinct (keys m) \<Longrightarrow> distinct (keys (evict_loop per m ks))"
proof (induction ks arbitrary: m)
  case (Cons x xs)
  {
    case 1
    then show ?case using Cons.IH(1) [of "AList.delete x m"] by (auto simp: delete_keys)
  next
    case 2
    then show ?case using Cons.IH(2) [of "AList.delete x m"] by (auto simp: distinct_delete)
  }
qed auto

lemma length_evict_loop:
  assumes "distinct (keys m)" "distinct ks" "set (keys m) = set ks" "0 < per"
  shows "length (evict_loop per m ks) = min (length m) (per - 1)"
  using assms
proof (induction ks arbitrary: m)
  case (Cons k ks)
  have "length (AList.delete k m) = length m - 1"
    using Cons.prems by (simp add: length_AList_delete)
  moreover have "set (keys (AList.delete k m)) = set ks"
    using Cons.prems by (auto simp: delete_keys)
  moreover have "distinct (keys (AList.delete k m))" using Cons.prems by (simp add: distinct_delete)
  ultimately show ?case using Cons.IH [of "AList.delete k m"] Cons.prems by auto
qed auto

lemma distinct_keys_filter: "distinct (keys m) \<Longrightarrow> distinct (keys (filter P m))"
  by (induction m) (auto simp: image_def)

lemma map_of_filter_keys:
  "distinct (keys m) \<Longrightarrow>
   map_of (filter (\<lambda>(k, e). P e) m) k = (case map_of m k of Some e \<Rightarrow> if P e then Some e else None | None \<Rightarrow> None)"
proof (induction m)
  case (Cons a m)
  obtain k' e where [simp]: "a = (k', e)" by (cases a)
  have "k' = k \<Longrightarrow> map_of m k = None" using Cons.prems by (auto simp: map_of_eq_None_iff)
  then show ?case using Cons by auto
qed simp

lemma evict_room:
  assumes "rangeOrder ord" "distinct (keys m)" "0 < per"
  shows "length (evict ord per now m) < per"
  using length_evict_loop [OF distinct_keys_filter [OF assms(2)] _ _ assms(3)] assms
  by (auto simp: evict_def Let_def rangeOrderD distinct_keys_filter)

lemma evict_keys:
  assumes "distinct (keys m)"
  shows "set (keys (evict ord per now m)) \<subseteq> set (keys m)" and "distinct (keys (evict ord per now m))"
    and "map_of (evict ord per now m) k = map_of m k \<or> map_of (evict ord per now m) k = None"
proof -
  let ?m = "filter (\<lambda>(k, e). \<not> e_expires e \<le> now) m"
  show "set (keys (evict ord per now m)) \<subseteq> set (keys m)"
    using evict_loop_keys(1) [of per ?m "ord (keys ?m)"] by (auto simp: evict_def Let_def)
  show "distinct (keys (evict ord per now m))"
    using assms by (simp add: evict_def Let_def evict_loop_keys(2) distinct_keys_filter)
  show "map_of (evict ord per now m) k = map_of m k \<or> map_of (evict ord per now m) k = None"
    using evict_loop_map_of [of per ?m "ord (keys ?m)" k] map_of_filter_keys [OF assms, of "\<lambda>e. \<not> e_expires e \<le> now" k]
    by (auto simp: evict_def Let_def split: option.splits if_splits)
qed

section \<open>The whole cache\<close>

lemma shardFor_less [simp]: "shardFor c key < 64"
  by (simp add: shardFor_def unat_mod)

lemma shardFor_update [simp]:
  "shardFor (c\<lparr>c_shards := s\<rparr>) = shardFor c" "shardFor (c\<lparr>c_epoch := e\<rparr>) = shardFor c"
  "shardFor (c\<lparr>c_hits := e\<rparr>) = shardFor c" "shardFor (c\<lparr>c_misses := e\<rparr>) = shardFor c"
  by (simp_all add: shardFor_def fun_eq_iff)

lemma lookupEntry_update [simp]:
  "lookupEntry (c\<lparr>c_epoch := e\<rparr>) = lookupEntry c"
  "lookupEntry (c\<lparr>c_hits := e\<rparr>) = lookupEntry c" "lookupEntry (c\<lparr>c_misses := e\<rparr>) = lookupEntry c"
  by (simp_all add: lookupEntry_def fun_eq_iff)

lemma cacheInv_update [simp]:
  "cacheInv (c\<lparr>c_epoch := e\<rparr>) = cacheInv c"
  "cacheInv (c\<lparr>c_hits := e\<rparr>) = cacheInv c" "cacheInv (c\<lparr>c_misses := e\<rparr>) = cacheInv c"
  by (simp_all add: cacheInv_def shardInv_def)

lemma cacheInvD:
  assumes "cacheInv c"
  shows "length (c_shards c) = 64" "0 < c_perShard c" "distinct (keys (shardOf c key))"
    and "length (shardOf c key) \<le> c_perShard c"
    and "set (keys (shardOf c key)) \<subseteq> {k. shardFor c k = shardFor c key}"
proof -
  have "shardInv c (shardFor c key)" and "length (c_shards c) = 64" and "0 < c_perShard c"
    using assms by (simp_all add: cacheInv_def)
  then show "length (c_shards c) = 64" "0 < c_perShard c" "distinct (keys (shardOf c key))"
    "length (shardOf c key) \<le> c_perShard c"
    "set (keys (shardOf c key)) \<subseteq> {k. shardFor c k = shardFor c key}"
    by (auto simp: shardInv_def)
qed

text \<open>Replacing the shard of a key.\<close>

abbreviation putShard :: "'v cache \<Rightarrow> string \<Rightarrow> 'v shard \<Rightarrow> 'v cache" where
  "putShard c key m \<equiv> c\<lparr>c_shards := (c_shards c)[shardFor c key := m]\<rparr>"

lemma lookupEntry_putShard:
  "length (c_shards c) = 64 \<Longrightarrow>
   lookupEntry (putShard c key m) k = (if shardFor c k = shardFor c key then map_of m k else lookupEntry c k)"
  by (simp add: lookupEntry_def nth_list_update)

lemma cacheInv_putShard:
  assumes "cacheInv c" "distinct (keys m)" "length m \<le> c_perShard c"
    and "set (keys m) \<subseteq> {k. shardFor c k = shardFor c key}"
  shows "cacheInv (putShard c key m)"
  using assms by (auto simp: cacheInv_def shardInv_def nth_list_update)

lemma cacheInv_New [simp]: "cacheInv (New hash maxEntries ttl)"
  by (auto simp: cacheInv_def New_def Let_def shardInv_def nth_append)

lemma lookupEntry_New [simp]: "lookupEntry (New hash maxEntries ttl) key = None"
  by (simp add: lookupEntry_def New_def Let_def)

subsection \<open>Get\<close>

lemma Get_state:
  "cacheInv (snd (Get now c key)) = cacheInv c" "lookupEntry (snd (Get now c key)) = lookupEntry c"
  "Epoch (snd (Get now c key)) = Epoch c"
  by (auto simp: Get_def Epoch_def split: option.splits)

lemma Get_value:
  "fst (Get now c key) =
    (case lookupEntry c key of Some e \<Rightarrow> if e_expires e > now then Some (e_value e) else None | None \<Rightarrow> None)"
  by (auto simp: Get_def lookupEntry_def split: option.splits)

subsection \<open>Set\<close>

lemma SetKey_stale: "Epoch c \<noteq> ep \<Longrightarrow> SetKey ord now c key grp val ep = c"
  by (simp add: SetKey_def Epoch_def)

definition expiry :: "int \<Rightarrow> int \<Rightarrow> int" where
  "expiry now ttl = (if ttl > 0 then wrap64 (now + ttl) else MaxInt64)"

definition roomFor :: "(string list \<Rightarrow> string list) \<Rightarrow> int \<Rightarrow> 'v cache \<Rightarrow> string \<Rightarrow> 'v shard" where
  "roomFor ord now c key =
    (if map_of (shardOf c key) key = None \<and> length (shardOf c key) \<ge> c_perShard c
     then evict ord (c_perShard c) now (shardOf c key) else shardOf c key)"

lemma SetKey_eq:
  "Epoch c = ep \<Longrightarrow> SetKey ord now c key grp val ep =
    putShard c key (AList.update key \<lparr>e_value = val, e_group = grp, e_expires = expiry now (c_ttl c)\<rparr> (roomFor ord now c key))"
  by (simp add: SetKey_def Epoch_def roomFor_def expiry_def Let_def)

lemma roomFor_keys:
  assumes "cacheInv c"
  shows "set (keys (roomFor ord now c key)) \<subseteq> set (keys (shardOf c key))"
    and "distinct (keys (roomFor ord now c key))"
    and "map_of (roomFor ord now c key) k = map_of (shardOf c key) k \<or> map_of (roomFor ord now c key) k = None"
  using evict_keys [OF cacheInvD(3) [OF assms]] cacheInvD(3) [OF assms] by (auto simp: roomFor_def)

lemma roomFor_room:
  assumes "cacheInv c" "rangeOrder ord"
  shows "length (AList.update key e (roomFor ord now c key)) \<le> c_perShard c"
proof (cases "map_of (shardOf c key) key = None \<and> length (shardOf c key) \<ge> c_perShard c")
  case True
  moreover have "length (evict ord (c_perShard c) now (shardOf c key)) < c_perShard c"
    by (rule evict_room [OF assms(2) cacheInvD(3,2) [OF assms(1)]])
  ultimately show ?thesis by (simp add: roomFor_def length_AList_update)
next
  case False
  then show ?thesis
    using cacheInvD(4) [OF assms(1), of key] by (auto simp: roomFor_def length_AList_update map_of_eq_None_iff)
qed

lemma cacheInv_SetKey:
  assumes "cacheInv c" "rangeOrder ord"
  shows "cacheInv (SetKey ord now c key grp val ep)"
proof (cases "Epoch c = ep")
  case True
  have "set (keys (AList.update key e (roomFor ord now c key))) \<subseteq> {k. shardFor c k = shardFor c key}" for e
    using roomFor_keys(1) [OF assms(1), of ord now key] cacheInvD(5) [OF assms(1), of key]
    unfolding update_keys by (simp add: insert_subset)
  then show ?thesis unfolding SetKey_eq [OF True]
    by (intro cacheInv_putShard assms(1) distinct_update roomFor_keys(2) roomFor_room assms(2))
qed (simp add: SetKey_stale assms)

lemma lookupEntry_SetKey_same:
  "cacheInv c \<Longrightarrow> Epoch c = ep \<Longrightarrow> lookupEntry (SetKey ord now c key grp val ep) key =
    Some \<lparr>e_value = val, e_group = grp, e_expires = expiry now (c_ttl c)\<rparr>"
  by (simp add: SetKey_eq lookupEntry_putShard cacheInvD(1) update_conv')

lemma lookupEntry_SetKey_other:
  assumes "cacheInv c" "k \<noteq> key"
  shows "lookupEntry (SetKey ord now c key grp val ep) k = lookupEntry c k
       \<or> lookupEntry (SetKey ord now c key grp val ep) k = None"
proof (cases "Epoch c = ep")
  case True
  then show ?thesis
    unfolding SetKey_eq [OF True] lookupEntry_putShard [OF cacheInvD(1) [OF assms(1)]]
    using roomFor_keys(3) [OF assms(1), of ord now key k] assms
    by (auto simp: update_conv' lookupEntry_def)
qed (simp add: SetKey_stale)

lemma Epoch_SetKey [simp]: "Epoch (SetKey ord now c key grp val ep) = Epoch c"
  by (simp add: SetKey_def Epoch_def Let_def)

subsection \<open>Delete, DeleteGroup, Clear\<close>

lemma cacheInv_Delete:
  assumes "cacheInv c"
  shows "cacheInv (Delete c key)"
proof -
  let ?m = "AList.delete key (shardOf c key)"
  have "set (keys ?m) \<subseteq> {k. shardFor c k = shardFor c key}"
    using cacheInvD(5) [OF assms, of key] unfolding delete_keys by (simp only: set_removeAll) blast
  moreover have "distinct (keys ?m)" by (intro distinct_delete cacheInvD(3) assms)
  moreover have "length ?m \<le> c_perShard c"
    using length_delete_le [of key "shardOf c key"] cacheInvD(4) [OF assms, of key] by simp
  ultimately show ?thesis
    using cacheInv_putShard [of "c\<lparr>c_epoch := c_epoch c + 1\<rparr>" ?m key] assms by (simp add: Delete_def Let_def)
qed

lemma lookupEntry_Delete:
  "cacheInv c \<Longrightarrow> lookupEntry (Delete c key) k = (if k = key then None else lookupEntry c k)"
  using lookupEntry_putShard [of "c\<lparr>c_epoch := c_epoch c + 1\<rparr>" key "AList.delete key (shardOf c key)" k]
  by (simp add: Delete_def Let_def cacheInvD(1) delete_conv' lookupEntry_def)

lemma map_shards_nth: "cacheInv c \<Longrightarrow> i < 64 \<Longrightarrow> map f (c_shards c) ! i = f (c_shards c ! i)"
  by (simp add: cacheInv_def)

lemma cacheInv_DeleteGroup: "cacheInv c \<Longrightarrow> cacheInv (DeleteGroup c grp)"
  by (auto simp: cacheInv_def shardInv_def DeleteGroup_def distinct_keys_filter shardFor_def
      intro: order.trans [OF length_filter_le])

lemma lookupEntry_DeleteGroup:
  "cacheInv c \<Longrightarrow> lookupEntry (DeleteGroup c grp) k =
    (case lookupEntry c k of Some e \<Rightarrow> if e_group e = grp then None else Some e | None \<Rightarrow> None)"
  using map_of_filter_keys [OF cacheInvD(3), of c "\<lambda>e. e_group e \<noteq> grp" k k]
  by (simp add: lookupEntry_def DeleteGroup_def cacheInvD(1) split: option.splits)

lemma cacheInv_Clear: "cacheInv c \<Longrightarrow> cacheInv (Clear c)"
  by (simp add: cacheInv_def shardInv_def Clear_def)

lemma lookupEntry_Clear: "cacheInv c \<Longrightarrow> lookupEntry (Clear c) k = None"
  by (simp add: lookupEntry_def Clear_def cacheInvD(1))

lemma Epoch_bump [simp]:
  "Epoch (Delete c key) = Epoch c + 1" "Epoch (DeleteGroup c grp) = Epoch c + 1" "Epoch (Clear c) = Epoch c + 1"
  by (simp_all add: Epoch_def Delete_def DeleteGroup_def Clear_def Let_def)

lemma sum_list_le_bound: "(\<And>x. x \<in> set xs \<Longrightarrow> x \<le> b) \<Longrightarrow> sum_list xs \<le> length xs * (b::nat)"
  by (induction xs) (simp_all add: add_mono)

lemma Len_bound:
  assumes "cacheInv c"
  shows "Len c \<le> 64 * c_perShard c"
proof -
  have "x \<in> set (map length (c_shards c)) \<Longrightarrow> x \<le> c_perShard c" for x
    using assms by (auto simp: cacheInv_def shardInv_def in_set_conv_nth)
  then show ?thesis
    using sum_list_le_bound [of "map length (c_shards c)" "c_perShard c"] cacheInvD(1) [OF assms]
    by (simp add: Len_def)
qed

section \<open>The contract of the cache\<close>

text \<open>What is cached for a key, apart from its expiry: the value and its group.\<close>

definition cached :: "'v cache \<Rightarrow> string \<Rightarrow> ('v \<times> string) option" where
  "cached c key = map_option (\<lambda>e. (e_value e, e_group e)) (lookupEntry c key)"

text \<open>Every cached binding is one that \<open>T\<close> allows (\<open>T key value group\<close>).\<close>

definition coherent :: "(string \<Rightarrow> ('v \<times> string) option) \<Rightarrow> (string \<Rightarrow> 'v \<Rightarrow> string \<Rightarrow> bool) \<Rightarrow> bool" where
  "coherent m T = (\<forall>k v g. m k = Some (v, g) \<longrightarrow> T k v g)"

text \<open>
  What the clients of the cache rely on. A \<open>get\<close> changes nothing that is cached; a \<open>set\<close> with the
  current epoch binds its key, one with another epoch does nothing, and both may drop other keys but
  never change them; the three invalidations move the epoch on and remove what they name.
\<close>

locale epoch_cache =
  fixes inv :: "'c \<Rightarrow> bool"
    and entries :: "'c \<Rightarrow> string \<Rightarrow> ('v \<times> string) option"
    and epoch :: "'c \<Rightarrow> u64"
    and get :: "int \<Rightarrow> 'c \<Rightarrow> string \<Rightarrow> 'v option \<times> 'c"
    and put :: "(string list \<Rightarrow> string list) \<Rightarrow> int \<Rightarrow> 'c \<Rightarrow> string \<Rightarrow> string \<Rightarrow> 'v \<Rightarrow> u64 \<Rightarrow> 'c"
    and del :: "'c \<Rightarrow> string \<Rightarrow> 'c"
    and delGroup :: "'c \<Rightarrow> string \<Rightarrow> 'c"
    and clear :: "'c \<Rightarrow> 'c"
  assumes get_keeps: "inv (snd (get now c k)) = inv c" "entries (snd (get now c k)) = entries c"
      "epoch (snd (get now c k)) = epoch c"
    and get_hit: "fst (get now c k) = Some v \<Longrightarrow> \<exists>g. entries c k = Some (v, g)"
    and put_inv: "inv c \<Longrightarrow> rangeOrder ord \<Longrightarrow> inv (put ord now c k g v e)"
    and put_epoch: "epoch (put ord now c k g v e) = epoch c"
    and put_stale: "epoch c \<noteq> e \<Longrightarrow> put ord now c k g v e = c"
    and put_same: "inv c \<Longrightarrow> epoch c = e \<Longrightarrow> entries (put ord now c k g v e) k = Some (v, g)"
    and put_other: "inv c \<Longrightarrow> k' \<noteq> k \<Longrightarrow>
      entries (put ord now c k g v e) k' = entries c k' \<or> entries (put ord now c k g v e) k' = None"
    and del_inv: "inv c \<Longrightarrow> inv (del c k)" "inv c \<Longrightarrow> inv (delGroup c g)" "inv c \<Longrightarrow> inv (clear c)"
    and del_epoch: "epoch (del c k) = epoch c + 1" "epoch (delGroup c g) = epoch c + 1" "epoch (clear c) = epoch c + 1"
    and del_entries: "inv c \<Longrightarrow> entries (del c k) k' = (if k' = k then None else entries c k')"
    and delGroup_entries: "inv c \<Longrightarrow> entries (delGroup c g) k' =
      (case entries c k' of Some (v, g') \<Rightarrow> if g' = g then None else Some (v, g') | None \<Rightarrow> None)"
    and clear_entries: "inv c \<Longrightarrow> entries (clear c) k' = None"
begin

lemma get_coherent:
  "coherent (entries c) T \<Longrightarrow> fst (get now c k) = Some v \<Longrightarrow> \<exists>g. T k v g"
  using get_hit by (force simp: coherent_def)

lemma put_coherent:
  assumes "inv c" "coherent (entries c) T" "epoch c = e \<Longrightarrow> T k v g"
  shows "coherent (entries (put ord now c k g v e)) T"
proof (cases "epoch c = e")
  case True
  have "T k' v' g'" if "entries (put ord now c k g v e) k' = Some (v', g')" for k' v' g'
  proof (cases "k' = k")
    case False
    then show ?thesis using put_other [OF assms(1), of k' k ord now g v e] that assms(2)
      by (force simp: coherent_def)
  qed (use that True put_same [OF assms(1) True, of ord now k g v] assms(3) in simp)
  then show ?thesis by (simp add: coherent_def)
qed (use assms(2) put_stale in simp)

lemma del_coherent:
  assumes "inv c" "coherent (entries c) T" "\<And>k' v g. T k' v g \<Longrightarrow> k' \<noteq> k \<Longrightarrow> T' k' v g"
  shows "coherent (entries (del c k)) T'"
  using assms by (auto simp: coherent_def del_entries)

lemma dels_inv: "inv c \<Longrightarrow> inv (foldl del c ks)"
  by (induction ks arbitrary: c) (simp_all add: del_inv)

lemma dels_entries: "inv c \<Longrightarrow> entries (foldl del c ks) k = (if k \<in> set ks then None else entries c k)"
  by (induction ks arbitrary: c) (simp_all add: del_inv del_entries)

lemma dels_coherent:
  assumes "inv c" "coherent (entries c) T" "\<And>k v g. T k v g \<Longrightarrow> k \<notin> set ks \<Longrightarrow> T' k v g"
  shows "coherent (entries (foldl del c ks)) T'"
  using assms by (auto simp: coherent_def dels_entries)

lemma delGroup_coherent:
  assumes "inv c" "coherent (entries c) T" "\<And>k v g'. T k v g' \<Longrightarrow> g' \<noteq> g \<Longrightarrow> T' k v g'"
  shows "coherent (entries (delGroup c g)) T'"
  using assms by (auto simp: coherent_def delGroup_entries split: option.splits if_splits)

lemma clear_coherent: "inv c \<Longrightarrow> coherent (entries (clear c)) T'"
  by (simp add: coherent_def clear_entries)

lemma late_put_ignored:
  assumes "e = epoch c"
  shows "put ord now (del c k) k' g v e = del c k" "put ord now (delGroup c g') k' g v e = delGroup c g'"
    and "put ord now (clear c) k' g v e = clear c"
  using assms by (simp_all add: put_stale del_epoch)

end

interpretation mc: epoch_cache cacheInv cached Epoch Get SetKey Delete DeleteGroup Clear
proof (unfold_locales, goal_cases)
  case (5 ord c now k g v e) then show ?case by (simp add: cacheInv_SetKey)
next
  case (9 c k' k ord now g v e)
  then show ?case using lookupEntry_SetKey_other [of c k' k ord now g v e] by (auto simp: cached_def)
qed (auto simp: Get_state Get_value cached_def lookupEntry_SetKey_same SetKey_stale cacheInv_Delete
     cacheInv_DeleteGroup cacheInv_Clear lookupEntry_Delete lookupEntry_DeleteGroup lookupEntry_Clear
     fun_eq_iff split: option.splits if_splits)

section \<open>Runs of the cache\<close>

datatype 'v cache_op =
    OpGet int string
  | OpSet "string list \<Rightarrow> string list" int string string 'v u64
  | OpDelete string
  | OpDeleteGroup string
  | OpClear

fun applyOp :: "'v cache \<Rightarrow> 'v cache_op \<Rightarrow> 'v cache" where
  "applyOp c (OpGet now k) = snd (Get now c k)"
| "applyOp c (OpSet ord now k g v e) = SetKey ord now c k g v e"
| "applyOp c (OpDelete k) = Delete c k"
| "applyOp c (OpDeleteGroup g) = DeleteGroup c g"
| "applyOp c OpClear = Clear c"

fun opOk :: "'v cache_op \<Rightarrow> bool" where
  "opOk (OpSet ord now k g v e) = rangeOrder ord"
| "opOk _ = True"

lemma cacheInv_applyOp: "cacheInv c \<Longrightarrow> opOk x \<Longrightarrow> cacheInv (applyOp c x)"
  by (cases x) (simp_all add: mc.get_keeps mc.put_inv mc.del_inv)

lemma c_perShard_applyOp [simp]: "c_perShard (applyOp c x) = c_perShard c"
  by (cases x) (simp_all add: Get_def SetKey_def Delete_def DeleteGroup_def Clear_def Let_def split: option.splits)

lemma run_inv:
  "cacheInv c \<Longrightarrow> list_all opOk ops \<Longrightarrow> cacheInv (foldl applyOp c ops) \<and> c_perShard (foldl applyOp c ops) = c_perShard c"
  by (induction ops arbitrary: c) (simp_all add: cacheInv_applyOp)

section \<open>Properties of the cache\<close>

text \<open>Claim C38. The cache is bounded: whatever operations are applied to a new cache, in whatever order
  Go's \<open>range\<close> visits the maps, every shard keeps distinct keys, all hashing to it, and no more than its
  share, so the cache never holds more than 64 times the share of a shard. For a maximum of at least 64
  entries that is no more than the maximum.\<close>

theorem cache_capacity:
  assumes "list_all opOk ops"
  shows "cacheInv (foldl applyOp (New hash maxEntries ttl) ops) \<and>
    int (Len (foldl applyOp (New hash maxEntries ttl) ops)) \<le> max 64 maxEntries"
proof -
  let ?c = "foldl applyOp (New hash maxEntries ttl) ops"
  have inv: "cacheInv ?c" and per: "c_perShard ?c = c_perShard (New hash maxEntries ttl :: 'a cache)"
    using run_inv [OF cacheInv_New assms, of hash maxEntries ttl] by auto
  have "int (Len ?c) \<le> int (64 * c_perShard ?c)" using Len_bound [OF inv] by presburger
  also have "\<dots> = 64 * max 1 (maxEntries div 64)" unfolding per by (simp add: New_def Let_def max_def)
  finally have "int (Len ?c) \<le> max 64 maxEntries" by linarith
  then show ?thesis using inv by blast
qed

theorem cache_capacity_witness:
  "cacheInv (foldl applyOp (New (\<lambda>_. 3) 100 0) [OpSet rev 0 ''a'' [] True 0, OpSet rev 0 ''b'' [] True 0]) \<and>
   int (Len (foldl applyOp (New (\<lambda>_. 3) 100 0) [OpSet rev 0 ''a'' [] True 0, OpSet rev 0 ''b'' [] True 0])) \<le> max 64 100"
  using cache_capacity [of "[OpSet rev 0 ''a'' [] True 0, OpSet rev 0 ''b'' [] True 0]" "\<lambda>_. 3" 100 0]
  by (simp only: list.pred_inject opOk.simps rangeOrder_rev simp_thms)

text \<open>Below 64 entries the configured maximum is not a bound: every shard holds at least one
  entry, so two keys of different shards stay in a cache that was asked to hold one.\<close>

lemma cache_small_maximum:
  assumes "hash k1 mod 64 \<noteq> hash k2 mod 64"
  shows "Len (foldl applyOp (New hash 1 0) [OpSet ord 0 k1 g v 0, OpSet ord 0 k2 g v 0]) = 2"
proof -
  have "unat (hash k1 mod 64) < 64" "unat (hash k2 mod 64) < 64" by (simp_all add: unat_mod)
  moreover have "unat (hash k1 mod 64) \<noteq> unat (hash k2 mod 64)" using assms word_unat_eq_iff by blast
  moreover have "k1 \<noteq> k2" using assms by auto
  ultimately show ?thesis
    by (simp add: SetKey_def New_def Let_def Len_def shardFor_def map_update sum_list_update sum_list_replicate)
qed

lemma cache_small_maximum_witness:
  "Len (foldl applyOp (New (\<lambda>k. if k = ''a'' then 0 else 1) 1 0)
     [OpSet rev 0 ''a'' [] True 0, OpSet rev 0 ''b'' [] True 0]) = 2"
  using cache_small_maximum [of "\<lambda>k. if k = ''a'' then 0 else 1" "''a''" "''b''" rev "[]" True] by simp

text \<open>What is set is got: setting a key with the current epoch makes \<open>Get\<close> return the value until
  the entry expires, replaces no other entry by a different one, and with any other epoch (an
  invalidation happened since the value was loaded) changes nothing at all.\<close>

lemma Set_then_Get:
  assumes "cacheInv c"
  shows "(Epoch c = ep \<and> later < (if c_ttl c > 0 then wrap64 (now + c_ttl c) else MaxInt64) \<longrightarrow>
           fst (Get later (SetKey ord now c key grp val ep) key) = Some val)
       \<and> (\<forall>k. k \<noteq> key \<longrightarrow> fst (Get later (SetKey ord now c key grp val ep) k) \<in> {fst (Get later c k), None})
       \<and> (Epoch c \<noteq> ep \<longrightarrow> SetKey ord now c key grp val ep = c)"
proof (intro conjI allI impI)
  assume "Epoch c = ep \<and> later < (if c_ttl c > 0 then wrap64 (now + c_ttl c) else MaxInt64)"
  then show "fst (Get later (SetKey ord now c key grp val ep) key) = Some val"
    using assms by (simp add: Get_value lookupEntry_SetKey_same expiry_def)
next
  fix k assume "k \<noteq> key"
  then show "fst (Get later (SetKey ord now c key grp val ep) k) \<in> {fst (Get later c k), None}"
    using lookupEntry_SetKey_other [OF assms, of k key ord now grp val ep] by (auto simp: Get_value)
qed (simp add: SetKey_stale)

lemma Set_then_Get_witness:
  "fst (Get 5 (SetKey rev 0 (New (\<lambda>_. 7) 10 1000) ''k'' [] True 0) ''k'') = Some True \<and>
   SetKey rev 0 (New (\<lambda>_. 7) 10 1000) ''k'' [] True 1 = New (\<lambda>_. 7) 10 1000"
proof -
  have "Epoch (New (\<lambda>_. 7) 10 1000 :: bool cache) = 0" "c_ttl (New (\<lambda>_. 7) 10 1000 :: bool cache) = 1000"
    by (simp_all add: New_def Epoch_def Let_def)
  then show ?thesis
    using Set_then_Get [OF cacheInv_New, of "\<lambda>_. 7" 10 1000 0 5 0 rev "''k''" "[]" True]
      Set_then_Get [OF cacheInv_New, of "\<lambda>_. 7" 10 1000 1 5 0 rev "''k''" "[]" True]
    by (simp add: wrap64_def)
qed

text \<open>The three invalidations remove what they name, whatever else is cached stays, and a value
  loaded before an invalidation (its epoch was read before) is never stored after it.\<close>

lemma invalidation_removes:
  assumes "cacheInv c"
  shows "cached (Delete c key) = (cached c)(key := None)
       \<and> cached (DeleteGroup c grp) = (\<lambda>k. case cached c k of Some (v, g) \<Rightarrow> if g = grp then None else Some (v, g) | None \<Rightarrow> None)
       \<and> cached (Clear c) = (\<lambda>k. None)
       \<and> SetKey ord now (Delete c key) k g v (Epoch c) = Delete c key
       \<and> SetKey ord now (DeleteGroup c grp) k g v (Epoch c) = DeleteGroup c grp
       \<and> SetKey ord now (Clear c) k g v (Epoch c) = Clear c"
  using assms by (auto simp: fun_eq_iff mc.del_entries mc.delGroup_entries mc.clear_entries mc.late_put_ignored)

lemma invalidation_removes_witness:
  "cached (Delete (New (\<lambda>_. 7) 10 0) ''k'') = (cached (New (\<lambda>_. 7) 10 0))(''k'' := (None :: (bool \<times> string) option)) \<and>
   SetKey rev 0 (Clear (New (\<lambda>_. 7) 10 0)) ''k'' [] True (Epoch (New (\<lambda>_. 7) 10 0 :: bool cache)) = Clear (New (\<lambda>_. 7) 10 0)"
  using invalidation_removes [OF cacheInv_New, of "\<lambda>_. 7" 10 0 "''k''" "[]" rev 0 "''k''" "[]" True] by blast

end
