(* ===== verification/Cache_Interleaving.thy ===== *)
theory Cache_Interleaving
  imports Cache
begin

text \<open>
  Concurrent use of the cache (\<open>src/internal/cache/cache.go\<close> with the loaders of
  \<open>src/internal/store/cached.go\<close>). The operations of theory \<open>Cache\<close> are cut where the code gives up
  atomicity: between reading the epoch, reading the database (in two queries), the first check of \<open>Set\<close>
  and its locked section; between the atomic increment and every locked deletion of \<open>Delete\<close>,
  \<open>DeleteGroup\<close> and \<open>Clear\<close>. Any number of loaders and invalidators interleave in a step relation, and
  the database changes at any moment, each change followed some time later by its invalidation.
\<close>

section \<open>The atomic pieces of the operations\<close>

definition bump :: "'v cache \<Rightarrow> 'v cache" where
  "bump c = c\<lparr>c_epoch := c_epoch c + 1\<rparr>"

text \<open>One locked section: of \<open>Delete\<close>, of one turn of the loop of \<open>DeleteGroup\<close>, or of \<open>Clear\<close>.\<close>

datatype sweep = SwKey string | SwGroup nat string | SwShard nat

fun doSweep :: "sweep \<Rightarrow> 'v cache \<Rightarrow> 'v cache" where
  "doSweep (SwKey key) c = c\<lparr>c_shards := (c_shards c)[shardFor c key := AList.delete key (shardOf c key)]\<rparr>"
| "doSweep (SwGroup i grp) c =
    c\<lparr>c_shards := (c_shards c)[i := filter (\<lambda>(k, e). e_group e \<noteq> grp) (c_shards c ! i)]\<rparr>"
| "doSweep (SwShard i) c = c\<lparr>c_shards := (c_shards c)[i := []]\<rparr>"

definition sweepDelete :: "string \<Rightarrow> sweep list" where
  "sweepDelete key = [SwKey key]"

definition sweepGroup :: "string \<Rightarrow> sweep list" where
  "sweepGroup grp = map (\<lambda>i. SwGroup i grp) [0..<shardCount]"

definition sweepClear :: "sweep list" where
  "sweepClear = map SwShard [0..<shardCount]"

section \<open>The machine\<close>

text \<open>
  A loader has read nothing yet, or the epoch, or also the first query's result, or the whole value,
  or has passed the first check of \<open>Set\<close>. An invalidator still has a list of cache operations to do,
  each a list of locked sections: \<open>Plan\<close> before the epoch increment of the next one, \<open>Sweep\<close> inside one.
\<close>

datatype 'v loader =
    LIdle
  | LEpoch string u64
  | LRead string u64 'v
  | LLoaded string u64 'v
  | LChecked string u64 'v

datatype invalidator = Plan "sweep list list" | Sweep "sweep list" "sweep list list"

text \<open>\<open>truth\<close> is what the database holds for each key; \<open>bumps\<close> counts the increments of the epoch.\<close>

record 'v sys =
  mem :: "'v cache"
  truth :: "string \<Rightarrow> 'v"
  loaders :: "nat \<Rightarrow> 'v loader"
  invs :: "nat \<Rightarrow> invalidator"
  bumps :: nat

text \<open>The keys a locked section removes, \<open>grp\<close> giving the group each key is stored under.\<close>

fun covers :: "(string \<Rightarrow> string) \<Rightarrow> 'v cache \<Rightarrow> string \<Rightarrow> sweep \<Rightarrow> bool" where
  "covers grp c k (SwKey key) = (k = key)"
| "covers grp c k (SwGroup i g) = (shardFor c k = i \<and> grp k = g)"
| "covers grp c k (SwShard i) = (shardFor c k = i)"

text \<open>
  \<open>grp\<close> is the group of a key and \<open>mix\<close> combines the results of a load's two queries. A \<open>commit\<close> changes
  the database and leaves its invalidation to be done, which must cover the keys that changed.
\<close>

inductive step :: "(string \<Rightarrow> string) \<Rightarrow> ('v \<Rightarrow> 'v \<Rightarrow> 'v) \<Rightarrow> 'v sys \<Rightarrow> 'v sys \<Rightarrow> bool"
  for grp mix where
  commit: "invs s i = Plan [] \<Longrightarrow>
     (\<forall>k. t k \<noteq> truth s k \<longrightarrow> (\<exists>sw \<in> set (concat phs). covers grp (mem s) k sw)) \<Longrightarrow>
     step grp mix s (s\<lparr>truth := t, invs := (invs s)(i := Plan phs)\<rparr>)"
| bump: "invs s i = Plan (ph # phs) \<Longrightarrow>
     step grp mix s (s\<lparr>mem := bump (mem s), bumps := bumps s + 1, invs := (invs s)(i := Sweep ph phs)\<rparr>)"
| sweep: "invs s i = Sweep (sw # ph) phs \<Longrightarrow>
     step grp mix s (s\<lparr>mem := doSweep sw (mem s), invs := (invs s)(i := Sweep ph phs)\<rparr>)"
| swept: "invs s i = Sweep [] phs \<Longrightarrow> step grp mix s (s\<lparr>invs := (invs s)(i := Plan phs)\<rparr>)"
| get: "step grp mix s (s\<lparr>mem := snd (Get now (mem s) key)\<rparr>)"
| epoch: "loaders s j = LIdle \<Longrightarrow>
     step grp mix s (s\<lparr>loaders := (loaders s)(j := LEpoch key (Epoch (mem s)))\<rparr>)"
| read1: "loaders s j = LEpoch key e \<Longrightarrow>
     step grp mix s (s\<lparr>loaders := (loaders s)(j := LRead key e (truth s key))\<rparr>)"
| read2: "loaders s j = LRead key e v \<Longrightarrow>
     step grp mix s (s\<lparr>loaders := (loaders s)(j := LLoaded key e (mix v (truth s key)))\<rparr>)"
| check: "loaders s j = LLoaded key e v \<Longrightarrow>
     step grp mix s (s\<lparr>loaders := (loaders s)(j := if Epoch (mem s) = e then LChecked key e v else LIdle)\<rparr>)"
| put: "loaders s j = LChecked key e v \<Longrightarrow> rangeOrder ord \<Longrightarrow>
     step grp mix s (s\<lparr>mem := SetKey ord now (mem s) key (grp key) v e, loaders := (loaders s)(j := LIdle)\<rparr>)"

inductive reach :: "(string \<Rightarrow> string) \<Rightarrow> ('v \<Rightarrow> 'v \<Rightarrow> 'v) \<Rightarrow> 'v sys \<Rightarrow> bool"
  for grp mix where
  start: "reach grp mix \<lparr>mem = New hash maxEntries ttl, truth = t, loaders = \<lambda>_. LIdle,
     invs = \<lambda>_. Plan [], bumps = 0\<rparr>"
| more: "reach grp mix s \<Longrightarrow> step grp mix s s' \<Longrightarrow> reach grp mix s'"

fun planned :: "invalidator \<Rightarrow> sweep set" where
  "planned (Plan phs) = set (concat phs)"
| "planned (Sweep ph phs) = {}"

fun pending :: "invalidator \<Rightarrow> sweep set" where
  "pending (Plan phs) = set (concat phs)"
| "pending (Sweep ph phs) = set ph \<union> set (concat phs)"

section \<open>The pieces make up the operations\<close>

lemma map_list_update_all:
  "length xs = n \<Longrightarrow> foldl (\<lambda>ys i. ys[i := f (ys ! i)]) xs [0..<m] =
     map f (take m xs) @ drop m xs" if "m \<le> n"
  using that
proof (induction m)
  case (Suc m)
  then have "map f (take m xs) @ drop m xs = map f (take m xs) @ xs ! m # drop (Suc m) xs"
    by (simp add: Cons_nth_drop_Suc)
  with Suc show ?case by (simp add: nth_append take_Suc_conv_app_nth list_update_append)
qed simp

lemma foldl_shards:
  "(\<And>i c. f i c = c\<lparr>c_shards := (c_shards c)[i := g (c_shards c ! i)]\<rparr>) \<Longrightarrow>
   foldl (\<lambda>c i. f i c) c is = c\<lparr>c_shards := foldl (\<lambda>ys i. ys[i := g (ys ! i)]) (c_shards c) is\<rparr>"
  by (induction "is" arbitrary: c) simp_all

lemma foldl_doSweep_map: "foldl (\<lambda>c sw. doSweep sw c) c (map h is) = foldl (\<lambda>c i. doSweep (h i) c) c is"
  by (induction "is" arbitrary: c) simp_all

lemma sweeps_refine:
  assumes "cacheInv c"
  shows "Delete c key = foldl (\<lambda>c sw. doSweep sw c) (bump c) (sweepDelete key)"
    and "DeleteGroup c grp = foldl (\<lambda>c sw. doSweep sw c) (bump c) (sweepGroup grp)"
    and "Clear c = foldl (\<lambda>c sw. doSweep sw c) (bump c) sweepClear"
proof -
  have len: "length (c_shards c) = 64" using assms by (rule cacheInvD)
  show "Delete c key = foldl (\<lambda>c sw. doSweep sw c) (bump c) (sweepDelete key)"
    by (simp add: Delete_def bump_def sweepDelete_def Let_def)
  show "DeleteGroup c grp = foldl (\<lambda>c sw. doSweep sw c) (bump c) (sweepGroup grp)"
    unfolding sweepGroup_def foldl_doSweep_map
    using foldl_shards [of "\<lambda>i. doSweep (SwGroup i grp)" "filter (\<lambda>(k, e). e_group e \<noteq> grp)" "bump c" "[0..<64]"]
      map_list_update_all [OF order_refl len] len
    by (simp add: bump_def DeleteGroup_def)
  show "Clear c = foldl (\<lambda>c sw. doSweep sw c) (bump c) sweepClear"
    unfolding sweepClear_def foldl_doSweep_map
    using foldl_shards [of "\<lambda>i. doSweep (SwShard i)" "\<lambda>_. []" "bump c" "[0..<64]"]
      map_list_update_all [OF order_refl len, of "\<lambda>_. []"] len
    by (simp add: bump_def Clear_def)
qed

section \<open>What a locked section does\<close>

lemma shardFor_doSweep [simp]: "shardFor (doSweep sw c) = shardFor c" and Epoch_doSweep [simp]: "Epoch (doSweep sw c) = Epoch c"
  by (cases sw; simp add: Epoch_def)+

lemma shardFor_bump [simp]: "shardFor (bump c) = shardFor c"
  by (simp add: bump_def)

lemma shardFor_SetKey [simp]: "shardFor (SetKey ord now c key g v e) = shardFor c"
  by (simp add: SetKey_def Let_def)

lemma shardFor_Get [simp]: "shardFor (snd (Get now c key)) = shardFor c"
  by (simp add: Get_def split: option.splits)

lemma covers_cong: "shardFor c' = shardFor c \<Longrightarrow> covers grp c' k sw = covers grp c k sw"
  by (cases sw) simp_all

lemmas covers_keep [simp] =
  covers_cong [OF shardFor_doSweep] covers_cong [OF shardFor_bump] covers_cong [OF shardFor_SetKey]
  covers_cong [OF shardFor_Get]

lemma cacheInv_shrink:
  assumes "cacheInv c" "\<And>m. length (f m) \<le> length m" "\<And>m. set (f m) \<subseteq> set m" "\<And>m. distinct (keys m) \<Longrightarrow> distinct (keys (f m))"
  shows "cacheInv (c\<lparr>c_shards := (c_shards c)[i := f (c_shards c ! i)]\<rparr>)"
proof (cases "i < 64")
  case True
  have "shardInv (c\<lparr>c_shards := (c_shards c)[i := f (c_shards c ! i)]\<rparr>) j" if "j < 64" for j
  proof -
    have "shardInv c j" and "length (c_shards c) = 64" using assms(1) that by (simp_all add: cacheInv_def)
    then show ?thesis using that True assms(2,4) [of "c_shards c ! i"] assms(3) [of "c_shards c ! i"]
      by (cases "i = j") (auto simp: shardInv_def)
  qed
  then show ?thesis using assms(1) by (simp add: cacheInv_def)
qed (use assms(1) cacheInvD(1) [OF assms(1)] in \<open>simp add: list_update_beyond\<close>)

lemma doSweep_inv:
  assumes "cacheInv c"
  shows "cacheInv (doSweep sw c)"
proof (cases sw)
  case (SwKey key)
  then show ?thesis
    using cacheInv_shrink [OF assms, of "AList.delete key" "shardFor c key"]
    by (simp add: length_delete_le distinct_delete AList.delete_eq distinct_keys_filter)
next
  case (SwGroup i g)
  then show ?thesis
    using cacheInv_shrink [OF assms, of "filter (\<lambda>(k, e). e_group e \<noteq> g)" i]
    by (simp add: distinct_keys_filter)
next
  case (SwShard i)
  then show ?thesis using cacheInv_shrink [OF assms, of "\<lambda>_. []" i] by simp
qed

lemma doSweep_cached:
  assumes inv: "cacheInv c" and grp: "\<And>v g. cached c k = Some (v, g) \<Longrightarrow> g = grp k"
  shows "cached (doSweep sw c) k = (if covers grp c k sw then None else cached c k)"
proof -
  have len: "length (c_shards c) = 64" using inv by (rule cacheInvD)
  show ?thesis
  proof (cases sw)
    case (SwKey key)
    have "cached (Delete c key) k = cached (doSweep sw c) k"
      using SwKey by (simp add: Delete_def Let_def cached_def lookupEntry_def)
    then show ?thesis using SwKey inv by (simp add: mc.del_entries)
  next
    case (SwGroup i g)
    show ?thesis
    proof (cases "shardFor c k = i")
      case True
      then show ?thesis
        using SwGroup len grp map_of_filter_keys [OF cacheInvD(3) [OF inv], of "\<lambda>e. e_group e \<noteq> g" k k]
        by (auto simp: cached_def lookupEntry_def split: option.splits)
    qed (use SwGroup in \<open>simp add: cached_def lookupEntry_def\<close>)
  next
    case (SwShard i)
    then show ?thesis using len by (auto simp: cached_def lookupEntry_def)
  qed
qed

section \<open>The invariant\<close>

text \<open>A value for a key is settled by a set of locked sections still to come if it is current or one of
  them will remove the key.\<close>

definition settled :: "(string \<Rightarrow> string) \<Rightarrow> 'v sys \<Rightarrow> (invalidator \<Rightarrow> sweep set) \<Rightarrow> string \<Rightarrow> 'v \<Rightarrow> bool" where
  "settled grp s todo k v = (v = truth s k \<or> (\<exists>i. \<exists>sw \<in> todo (invs s i). covers grp (mem s) k sw))"

text \<open>What a loader holds: an epoch read after \<open>n\<close> increments, and, if the epoch is still the current one,
  a value that is settled by invalidations that have not begun.\<close>

fun loaderOk :: "(string \<Rightarrow> string) \<Rightarrow> 'v sys \<Rightarrow> 'v loader \<Rightarrow> bool" where
  "loaderOk grp s LIdle = True"
| "loaderOk grp s (LEpoch k e) = (\<exists>n \<le> bumps s. e = word_of_nat n)"
| "loaderOk grp s (LRead k e v) = (\<exists>n \<le> bumps s. e = word_of_nat n \<and> (n = bumps s \<longrightarrow> settled grp s planned k v))"
| "loaderOk grp s (LLoaded k e v) = (\<exists>n \<le> bumps s. e = word_of_nat n \<and> (n = bumps s \<longrightarrow> settled grp s planned k v))"
| "loaderOk grp s (LChecked k e v) = (\<exists>n \<le> bumps s. e = word_of_nat n \<and> (n = bumps s \<longrightarrow> settled grp s planned k v))"

definition cacheOk :: "(string \<Rightarrow> string) \<Rightarrow> 'v sys \<Rightarrow> bool" where
  "cacheOk grp s = (cacheInv (mem s) \<and> coherent (cached (mem s)) (\<lambda>k v g. g = grp k \<and> settled grp s pending k v))"

definition sysInv :: "(string \<Rightarrow> string) \<Rightarrow> 'v sys \<Rightarrow> bool" where
  "sysInv grp s = (Epoch (mem s) = word_of_nat (bumps s) \<and> cacheOk grp s \<and> (\<forall>j. loaderOk grp s (loaders s j)))"

lemma planned_pending: "planned x \<subseteq> pending x"
  by (cases x) auto

lemma settled_planned: "settled grp s planned k v \<Longrightarrow> settled grp s pending k v"
  using planned_pending by (fastforce simp: settled_def)

lemma loaderOk_mono:
  assumes "loaderOk grp s l" "bumps s' = bumps s"
    and "\<And>k v. settled grp s planned k v \<Longrightarrow> settled grp s' planned k v"
  shows "loaderOk grp s' l"
  using assms by (cases l) auto

lemma cacheOk_mono:
  assumes "cacheOk grp s" "mem s' = mem s" "\<And>k v. settled grp s pending k v \<Longrightarrow> settled grp s' pending k v"
  shows "cacheOk grp s'"
  using assms by (auto simp: cacheOk_def coherent_def)

text \<open>Changing the cache, the epoch counter aside, leaves what is settled as it was.\<close>

lemma settled_mem [simp]:
  "shardFor c = shardFor (mem s) \<Longrightarrow> settled grp (s\<lparr>mem := c\<rparr>) todo k v = settled grp s todo k v"
  "settled grp (s\<lparr>loaders := l\<rparr>) todo k v = settled grp s todo k v"
  "settled grp (s\<lparr>bumps := n\<rparr>) todo k v = settled grp s todo k v"
  by (simp_all add: settled_def covers_cong [of c "mem s"])

lemma settled_mem_loaders [simp]:
  "shardFor c = shardFor (mem s) \<Longrightarrow> settled grp (s\<lparr>mem := c, loaders := l\<rparr>) todo k v = settled grp s todo k v"
  by (simp add: settled_def covers_cong [of c "mem s"])

lemma settled_change:
  assumes "settled grp s todo k v" "truth s' = truth s" "shardFor (mem s') = shardFor (mem s)"
    and "\<And>j sw. sw \<in> todo (invs s j) \<Longrightarrow> covers grp (mem s) k sw \<Longrightarrow> \<exists>j'. sw \<in> todo (invs s' j')"
  shows "settled grp s' todo k v"
proof (cases "v = truth s k")
  case False
  with assms(1) obtain j sw where "sw \<in> todo (invs s j)" "covers grp (mem s) k sw" by (auto simp: settled_def)
  with assms(3,4) show ?thesis by (metis covers_cong settled_def)
qed (simp add: settled_def assms(2))

lemma settled_upd:
  assumes "settled grp s todo k v" "truth s' = truth s" "shardFor (mem s') = shardFor (mem s)"
    and "invs s' = (invs s)(i := y)"
    and "\<And>sw. sw \<in> todo (invs s i) \<Longrightarrow> covers grp (mem s) k sw \<Longrightarrow> sw \<in> todo y"
  shows "settled grp s' todo k v"
  using assms(1-3) by (rule settled_change) (metis assms(4,5) fun_upd_apply)

lemma sysInv_commit:
  assumes inv: "sysInv grp s" and idle: "invs s i = Plan []"
    and cov: "\<forall>k. t k \<noteq> truth s k \<longrightarrow> (\<exists>sw \<in> set (concat phs). covers grp (mem s) k sw)"
  shows "sysInv grp (s\<lparr>truth := t, invs := (invs s)(i := Plan phs)\<rparr>)"
proof -
  let ?s = "s\<lparr>truth := t, invs := (invs s)(i := Plan phs)\<rparr>"
  have keep: "settled grp ?s todo k v"
    if st: "settled grp s todo k v" and td: "todo (Plan phs) = set (concat phs)" "todo (Plan []) = {}" for todo k v
  proof (cases "t k = truth s k")
    case True
    then have "settled grp (?s\<lparr>truth := truth s\<rparr>) todo k v" by (intro settled_upd [OF st, where i = i and y = "Plan phs"]) (simp_all add: idle td)
    then show ?thesis using True by (simp add: settled_def)
  next
    case False
    then have "\<exists>sw \<in> todo (invs ?s i). covers grp (mem ?s) k sw" using cov td(1) by simp
    then show ?thesis unfolding settled_def by blast
  qed
  show ?thesis using inv unfolding sysInv_def
    by (auto intro!: cacheOk_mono [of grp s ?s] loaderOk_mono [of grp s _ ?s] keep)
qed

lemma loaderOk_bump: "loaderOk grp s l \<Longrightarrow> bumps s' = Suc (bumps s) \<Longrightarrow> loaderOk grp s' l"
  by (cases l) (auto intro: le_SucI)

lemma sysInv_bump:
  assumes inv: "sysInv grp s" and i: "invs s i = Plan (ph # phs)"
  shows "sysInv grp (s\<lparr>mem := bump (mem s), bumps := bumps s + 1, invs := (invs s)(i := Sweep ph phs)\<rparr>)"
proof -
  let ?s = "s\<lparr>mem := bump (mem s), bumps := bumps s + 1, invs := (invs s)(i := Sweep ph phs)\<rparr>"
  have "settled grp ?s pending k v" if st: "settled grp s pending k v" for k v
    by (rule settled_upd [OF st, where i = i and y = "Sweep ph phs"]) (simp_all add: i)
  then have "cacheOk grp ?s"
    using inv by (auto simp: sysInv_def cacheOk_def coherent_def bump_def cached_def)
  then show ?thesis using inv loaderOk_bump [of grp s _ ?s] by (auto simp: sysInv_def Epoch_def bump_def)
qed

lemma sysInv_sweep:
  assumes inv: "sysInv grp s" and i: "invs s i = Sweep (sw # ph) phs"
  shows "sysInv grp (s\<lparr>mem := doSweep sw (mem s), invs := (invs s)(i := Sweep ph phs)\<rparr>)"
proof -
  let ?s = "s\<lparr>mem := doSweep sw (mem s), invs := (invs s)(i := Sweep ph phs)\<rparr>"
  have plan: "settled grp ?s planned k v" if st: "settled grp s planned k v" for k v
    by (rule settled_upd [OF st, where i = i and y = "Sweep ph phs"]) (simp_all add: i)
  have pend: "settled grp ?s pending k v" if st: "settled grp s pending k v" and "\<not> covers grp (mem s) k sw" for k v
    by (rule settled_upd [OF st, where i = i and y = "Sweep ph phs"]) (use that in \<open>auto simp: i\<close>)
  have "cached (doSweep sw (mem s)) k = (if covers grp (mem s) k sw then None else cached (mem s) k)" for k
    using inv by (intro doSweep_cached) (auto simp: sysInv_def cacheOk_def coherent_def)
  then have "cacheOk grp ?s"
    using inv pend by (auto simp: sysInv_def cacheOk_def coherent_def doSweep_inv split: if_splits)
  then show ?thesis using inv plan unfolding sysInv_def by (auto intro: loaderOk_mono [of grp s _ ?s])
qed

lemma sysInv_swept:
  assumes inv: "sysInv grp s" and i: "invs s i = Sweep [] phs"
  shows "sysInv grp (s\<lparr>invs := (invs s)(i := Plan phs)\<rparr>)"
proof -
  let ?s = "s\<lparr>invs := (invs s)(i := Plan phs)\<rparr>"
  have "settled grp ?s planned k v" if st: "settled grp s planned k v" for k v
    by (rule settled_upd [OF st, where i = i and y = "Plan phs"]) (simp_all add: i)
  moreover have "settled grp ?s pending k v" if st: "settled grp s pending k v" for k v
    by (rule settled_upd [OF st, where i = i and y = "Plan phs"]) (simp_all add: i)
  ultimately show ?thesis
    using inv unfolding sysInv_def by (auto intro: loaderOk_mono [of grp s _ ?s] cacheOk_mono [of grp s ?s])
qed

lemma sysInv_loader:
  assumes inv: "sysInv grp s" and l: "loaderOk grp s l"
  shows "sysInv grp (s\<lparr>loaders := (loaders s)(j := l)\<rparr>)"
proof -
  let ?s = "s\<lparr>loaders := (loaders s)(j := l)\<rparr>"
  have "loaderOk grp ?s x" if "loaderOk grp s x" for x
    by (rule loaderOk_mono [OF that]) simp_all
  then show ?thesis
    using inv l cacheOk_mono [of grp s ?s] by (auto simp: sysInv_def)
qed

lemma sysInv_mem:
  assumes inv: "sysInv grp s" and "shardFor c = shardFor (mem s)" "Epoch c = Epoch (mem s)" "cacheInv c"
    and "coherent (cached c) (\<lambda>k v g. g = grp k \<and> settled grp s pending k v)"
  shows "sysInv grp (s\<lparr>mem := c\<rparr>)"
proof -
  have "loaderOk grp (s\<lparr>mem := c\<rparr>) x" if "loaderOk grp s x" for x
    by (rule loaderOk_mono [OF that]) (simp_all add: assms(2))
  then show ?thesis using assms by (auto simp: sysInv_def cacheOk_def coherent_def)
qed

lemma sysInv_put:
  assumes inv: "sysInv grp s" and l: "loaders s j = LChecked key e v" and "rangeOrder ord" and "bumps s < 2 ^ 64"
  shows "sysInv grp (s\<lparr>mem := SetKey ord now (mem s) key (grp key) v e, loaders := (loaders s)(j := LIdle)\<rparr>)"
proof -
  have ok: "cacheInv (mem s)" "coherent (cached (mem s)) (\<lambda>k v g. g = grp k \<and> settled grp s pending k v)"
    using inv by (simp_all add: sysInv_def cacheOk_def)
  obtain n where n: "n \<le> bumps s" "e = word_of_nat n" "n = bumps s \<longrightarrow> settled grp s planned key v"
    using inv l by (auto simp: sysInv_def dest!: spec [of _ j])
  have "settled grp s pending key v" if "Epoch (mem s) = e"
  proof -
    have "(word_of_nat n :: u64) = word_of_nat (bumps s)" using that inv n(2) by (simp add: sysInv_def)
    then have "unat (word_of_nat n :: u64) = unat (word_of_nat (bumps s) :: u64)" by (rule arg_cong)
    then have "n = bumps s"
      using n(1) assms(4) by (simp add: unat_of_nat take_bit_nat_eq_self)
    then show ?thesis using n(3) by (simp add: settled_planned)
  qed
  then have "coherent (cached (SetKey ord now (mem s) key (grp key) v e)) (\<lambda>k v g. g = grp k \<and> settled grp s pending k v)"
    using mc.put_coherent [OF ok] by blast
  then have "sysInv grp (s\<lparr>mem := SetKey ord now (mem s) key (grp key) v e\<rparr>)"
    using inv ok(1) assms(3) by (intro sysInv_mem) (simp_all add: cacheInv_SetKey)
  then show ?thesis using sysInv_loader [of grp _ LIdle j] by fastforce
qed

lemma step_bumps: "step grp mix s s' \<Longrightarrow> bumps s \<le> bumps s'"
  by (cases rule: step.cases) auto

lemma sysInv_step:
  assumes "step grp mix s s'" "sysInv grp s" "bumps s < 2 ^ 64" "\<And>x. mix x x = x"
  shows "sysInv grp s'"
  using assms(1)
proof cases
  case (get now key)
  show ?thesis unfolding get(1)
    by (rule sysInv_mem [OF assms(2)]) (use assms(2) in \<open>simp_all add: sysInv_def cacheOk_def mc.get_keeps\<close>)
next
  case (epoch j key)
  have "loaderOk grp s (LEpoch key (Epoch (mem s)))" using assms(2) by (auto simp: sysInv_def)
  then show ?thesis using epoch sysInv_loader [OF assms(2)] by simp
next
  case (read1 j key e)
  have "loaderOk grp s (LEpoch key e)" using assms(2) read1(2) by (metis sysInv_def)
  then have "loaderOk grp s (LRead key e (truth s key))" by (auto simp: settled_def)
  then show ?thesis using read1 sysInv_loader [OF assms(2)] by simp
next
  case (read2 j key e v)
  have "loaderOk grp s (LRead key e v)" using assms(2) read2(2) by (metis sysInv_def)
  then have "loaderOk grp s (LLoaded key e (mix v (truth s key)))" using assms(4) by (auto simp: settled_def)
  then show ?thesis using read2 sysInv_loader [OF assms(2)] by simp
next
  case (check j key e v)
  have "loaderOk grp s (LLoaded key e v)" using assms(2) check(2) by (metis sysInv_def)
  then have "loaderOk grp s (if Epoch (mem s) = e then LChecked key e v else LIdle)" by simp
  then show ?thesis unfolding check(1) by (rule sysInv_loader [OF assms(2)])
next
  case (put j key e v ord now)
  then show ?thesis using sysInv_put [OF assms(2) put(2,3) assms(3)] by simp
next
  case (commit i t phs)
  then show ?thesis using sysInv_commit [OF assms(2)] by simp
next
  case (bump i ph phs)
  then show ?thesis using sysInv_bump [OF assms(2)] by simp
next
  case (sweep i sw ph phs)
  then show ?thesis using sysInv_sweep [OF assms(2)] by simp
next
  case (swept i phs)
  then show ?thesis using sysInv_swept [OF assms(2)] by simp
qed

lemma sysInv_start:
  "sysInv grp \<lparr>mem = New hash maxEntries ttl, truth = t, loaders = \<lambda>_. LIdle, invs = \<lambda>_. Plan [], bumps = 0\<rparr>"
  by (simp add: sysInv_def cacheOk_def coherent_def cached_def) (simp add: New_def Epoch_def Let_def)

lemma reach_inv:
  assumes "reach grp mix s" "\<And>x. mix x x = x"
  shows "bumps s < 2 ^ 64 \<Longrightarrow> sysInv grp s"
  using assms(1)
proof induction
  case (more s s')
  then show ?case using sysInv_step [OF more(2) _ _ assms(2)] step_bumps [OF more(2)] by simp
qed (rule sysInv_start)

section \<open>Properties of the interleavings\<close>

text \<open>Claim C1. No stale value survives its invalidation. In every state reachable by any interleaving of
  loads, database changes and invalidations (fewer than \<open>2 ^ 64\<close> of them), a value the cache returns is
  the one the database holds now, unless an invalidation that will remove the key is still under way;
  once all invalidations are done the cache agrees with the database.\<close>

theorem cache_coherent:
  assumes "reach grp mix s" "\<And>x. mix x x = x" "bumps s < 2 ^ 64" "fst (Get now (mem s) key) = Some v"
  shows "(v = truth s key \<or> (\<exists>i. \<exists>sw \<in> pending (invs s i). covers grp (mem s) key sw))
       \<and> ((\<forall>i. invs s i = Plan []) \<longrightarrow> v = truth s key)"
proof -
  have "sysInv grp s" using reach_inv assms(1-3) by blast
  then have "coherent (cached (mem s)) (\<lambda>k v g. g = grp k \<and> settled grp s pending k v)"
    by (simp add: sysInv_def cacheOk_def)
  from mc.get_coherent [OF this assms(4)] show ?thesis by (auto simp: settled_def)
qed

text \<open>A run: the record behind a key changes, its invalidation runs, and then the key is loaded.\<close>

definition demo_truth :: "string \<Rightarrow> bool" where
  "demo_truth = (\<lambda>_. False)(''k'' := True)"

definition demo_sys :: "'v cache \<Rightarrow> (string \<Rightarrow> 'v) \<Rightarrow> invalidator \<Rightarrow> 'v loader \<Rightarrow> nat \<Rightarrow> 'v sys" where
  "demo_sys c t i l n = \<lparr>mem = c, truth = t, loaders = (\<lambda>_. LIdle)(0 := l), invs = (\<lambda>_. Plan [])(0 := i), bumps = n\<rparr>"

abbreviation (input) demo_final :: "bool sys" where
  "demo_final \<equiv> demo_sys (SetKey rev 0 (doSweep (SwKey ''k'') (bump (New (\<lambda>_. 7) 64 0))) ''k'' [] True 1)
     demo_truth (Plan []) LIdle 1"

lemma demo_reach: "reach (\<lambda>_. []) (\<lambda>x y. y) demo_final"
proof -
  let ?R = "reach (\<lambda>_. []) (\<lambda>x y. y)"
  let ?c = "New (\<lambda>_. 7) 64 0 :: bool cache"
  let ?d = "doSweep (SwKey ''k'') (bump ?c)"
  let ?L = "\<lambda>l. demo_sys ?d demo_truth (Plan []) l 1"
  note st = step.intros [where grp = "\<lambda>_. []" and mix = "\<lambda>x y. y"] and [simp] = demo_sys_def and [simp del] = doSweep.simps
  have e: "Epoch ?d = 1" unfolding Epoch_doSweep by (simp add: Epoch_def bump_def New_def Let_def)
  have "?R (demo_sys ?c (\<lambda>_. False) (Plan []) LIdle 0)"
    using reach.start [of "\<lambda>_. []" "\<lambda>x y. y" "\<lambda>_. 7" 64 0 "\<lambda>_. False"] by (simp add: fun_upd_idem)
  then have "?R (demo_sys ?c demo_truth (Plan [[SwKey ''k'']]) LIdle 0)"
    by (rule reach.more) (use st(1) [of "demo_sys ?c (\<lambda>_. False) (Plan []) LIdle 0" 0 demo_truth "[[SwKey ''k'']]"] in
      \<open>simp add: demo_truth_def\<close>)
  then have "?R (demo_sys (bump ?c) demo_truth (Sweep [SwKey ''k''] []) LIdle 1)"
    by (rule reach.more) (use st(2) [of "demo_sys ?c demo_truth (Plan [[SwKey ''k'']]) LIdle 0" 0] in simp)
  then have "?R (demo_sys ?d demo_truth (Sweep [] []) LIdle 1)"
    by (rule reach.more) (use st(3) [of "demo_sys (bump ?c) demo_truth (Sweep [SwKey ''k''] []) LIdle 1" 0] in
      simp)
  then have "?R (?L LIdle)"
    by (rule reach.more) (use st(4) [of "demo_sys ?d demo_truth (Sweep [] []) LIdle 1" 0] in simp)
  then have "?R (?L (LEpoch ''k'' 1))"
    by (rule reach.more) (use st(6) [of "?L LIdle" 0 "''k''"] e in simp)
  then have "?R (?L (LRead ''k'' 1 True))"
    by (rule reach.more) (use st(7) [of "?L (LEpoch ''k'' 1)" 0 "''k''" 1] in \<open>simp add: demo_truth_def\<close>)
  then have "?R (?L (LLoaded ''k'' 1 True))"
    by (rule reach.more) (use st(8) [of "?L (LRead ''k'' 1 True)" 0 "''k''" 1 True] in \<open>simp add: demo_truth_def\<close>)
  then have "?R (?L (LChecked ''k'' 1 True))"
    by (rule reach.more) (use st(9) [of "?L (LLoaded ''k'' 1 True)" 0 "''k''" 1 True] e in simp)
  then show ?thesis
    by (rule reach.more) (use st(10) [of "?L (LChecked ''k'' 1 True)" 0 "''k''" 1 True rev 0] in simp)
qed

theorem cache_coherent_witness:
  "reach (\<lambda>_. []) (\<lambda>x y. y) demo_final \<and> fst (Get 5 (mem demo_final) ''k'') = Some True \<and> True = truth demo_final ''k''"
proof -
  let ?d = "doSweep (SwKey ''k'') (bump (New (\<lambda>_. 7) 64 0)) :: bool cache"
  have "Epoch ?d = 1" "c_ttl ?d = 0" unfolding Epoch_doSweep by (simp_all add: Epoch_def bump_def New_def Let_def)
  moreover have "cacheInv ?d" by (intro doSweep_inv) (simp add: bump_def)
  ultimately have g: "fst (Get 5 (mem demo_final) ''k'') = Some True"
    by (simp add: demo_sys_def Get_value lookupEntry_SetKey_same expiry_def del: doSweep.simps)
  show ?thesis
    using cache_coherent [OF demo_reach _ _ g] demo_reach g by (simp add: demo_sys_def del: doSweep.simps)
qed

text \<open>The atomic pieces of the step relation are the operations of the cache: \<open>Delete\<close>,
  \<open>DeleteGroup\<close> and \<open>Clear\<close> are the increment of the epoch followed by their locked sections, one shard
  after the other.\<close>

lemma sweeps_are_operations:
  assumes "cacheInv c"
  shows "Delete c key = foldl (\<lambda>c sw. doSweep sw c) (bump c) (sweepDelete key)
       \<and> DeleteGroup c grp = foldl (\<lambda>c sw. doSweep sw c) (bump c) (sweepGroup grp)
       \<and> Clear c = foldl (\<lambda>c sw. doSweep sw c) (bump c) sweepClear"
  using sweeps_refine [OF assms] by blast

lemma sweeps_are_operations_witness:
  "Delete (New (\<lambda>_. 7) 64 0) ''k'' = foldl (\<lambda>c sw. doSweep sw c) (bump (New (\<lambda>_. 7) 64 0 :: bool cache)) (sweepDelete ''k'')"
  using sweeps_are_operations [OF cacheInv_New] by blast

end
