(* ===== verification/Cached_Resolver.thy ===== *)
theory Cached_Resolver
  imports Store_Props Cache_Interleaving "HOL-Library.Signed_Division"
begin

text \<open>
  The caching resolver of \<open>src/internal/store/cached.go\<close> and the interface \<open>Resolver\<close> of
  \<open>src/internal/store/store.go\<close> it implements and wraps. A resolver is a record of state-passing functions.
  The store is a resolver whose state is the database with the environments of the calls to come. What a
  call of the caching resolver takes from outside is its \<open>cenv\<close>: the times read by \<open>Get\<close> and \<open>Set\<close>, the
  iteration order of \<open>evict\<close>, and, per key, the result of a load by another caller that
  \<open>singleflight.Group.Do\<close> hands over instead of running the function (\<open>None\<close> if there is none in flight).
\<close>

section \<open>Resolvers\<close>

record 's resolver =
  rs_FindZone :: "'s \<Rightarrow> string \<Rightarrow> (store_err + zone) \<times> 's"
  rs_LookupName :: "'s \<Rightarrow> string \<Rightarrow> string \<Rightarrow> (store_err + name_set) \<times> 's"

record store_state =
  ss_db :: db
  ss_envs :: "nat \<Rightarrow> pgenv"
  ss_tick :: nat

definition storeResolver :: "unicode_case \<Rightarrow> encoder option \<Rightarrow> store_state resolver" where
  "storeResolver u enc =
    \<lparr>rs_FindZone = (\<lambda>s q. (FindZone u (ss_envs s (ss_tick s)) (ss_db s) q, s\<lparr>ss_tick := ss_tick s + 1\<rparr>)),
     rs_LookupName = (\<lambda>s zone name. (LookupName (ss_envs s (ss_tick s)) enc (ss_db s) zone name, s\<lparr>ss_tick := ss_tick s + 1\<rparr>))\<rparr>"

section \<open>The caching resolver\<close>

text \<open>A cached zone is the field of \<open>zoneResult\<close>, \<open>None\<close> for the nil pointer of a negative entry.\<close>

record cenv =
  ce_get :: int
  ce_set :: int
  ce_ord :: "string list \<Rightarrow> string list"
  ce_zoneFlight :: "string \<Rightarrow> (store_err + zone option) option"
  ce_nameFlight :: "string \<Rightarrow> (store_err + name_set) option"

record 's cres =
  cr_next :: 's
  cr_zones :: "zone option cache"
  cr_names :: "name_set cache"

definition NewCachedResolver :: "(string \<Rightarrow> u64) \<Rightarrow> (string \<Rightarrow> u64) \<Rightarrow> 's \<Rightarrow> int \<Rightarrow> int \<Rightarrow> 's cres" where
  "NewCachedResolver h1 h2 s maxEntries ttl =
    \<lparr>cr_next = s, cr_zones = New h1 (maxEntries sdiv 8 + 64) ttl, cr_names = New h2 maxEntries ttl\<rparr>"

abbreviation (input) NUL :: char where "NUL \<equiv> CHR 0x00"

definition nameKey :: "string \<Rightarrow> string \<Rightarrow> string" where
  "nameKey zone name = zone @ NUL # name"

text \<open>A \<open>*Zone\<close> and an error as the caller reads them.\<close>

definition zoneOut :: "zone option \<Rightarrow> store_err + zone" where
  "zoneOut r = (case r of None \<Rightarrow> Inl ErrNotFound | Some z \<Rightarrow> Inr z)"

text \<open>The function that \<open>FindZone\<close> gives to \<open>singleflight\<close>.\<close>

definition loadZone :: "'s resolver \<Rightarrow> cenv \<Rightarrow> 's cres \<Rightarrow> string \<Rightarrow> (store_err + zone option) \<times> 's cres" where
  "loadZone R env c qname =
    (let epoch = Epoch (cr_zones c);
         (res, s') = rs_FindZone R (cr_next c) qname;
         c = c\<lparr>cr_next := s'\<rparr>
     in case res of
          Inl err \<Rightarrow>
            if err \<noteq> ErrNotFound then (Inl err, c)
            else (Inr None, c\<lparr>cr_zones := SetKey (ce_ord env) (ce_set env) (cr_zones c) qname [] None epoch\<rparr>)
        | Inr z \<Rightarrow> (Inr (Some z), c\<lparr>cr_zones := SetKey (ce_ord env) (ce_set env) (cr_zones c) qname [] (Some z) epoch\<rparr>))"

definition cached_FindZone :: "'s resolver \<Rightarrow> cenv \<Rightarrow> 's cres \<Rightarrow> string \<Rightarrow> (store_err + zone) \<times> 's cres" where
  "cached_FindZone R env c qname =
    (let (hit, zs) = Get (ce_get env) (cr_zones c) qname; c = c\<lparr>cr_zones := zs\<rparr>
     in case hit of
          Some r \<Rightarrow> (zoneOut r, c)
        | None \<Rightarrow>
            (let (v, c) = (case ce_zoneFlight env qname of Some v \<Rightarrow> (v, c) | None \<Rightarrow> loadZone R env c qname)
             in case v of Inl err \<Rightarrow> (Inl err, c) | Inr z \<Rightarrow> (zoneOut z, c)))"

definition loadName :: "'s resolver \<Rightarrow> cenv \<Rightarrow> 's cres \<Rightarrow> string \<Rightarrow> string \<Rightarrow> (store_err + name_set) \<times> 's cres" where
  "loadName R env c zone name =
    (let epoch = Epoch (cr_names c);
         (res, s') = rs_LookupName R (cr_next c) zone name;
         c = c\<lparr>cr_next := s'\<rparr>
     in case res of
          Inl err \<Rightarrow> (Inl err, c)
        | Inr found \<Rightarrow> (Inr found, c\<lparr>cr_names := SetKey (ce_ord env) (ce_set env) (cr_names c) (nameKey zone name) zone found epoch\<rparr>))"

definition cached_LookupName :: "'s resolver \<Rightarrow> cenv \<Rightarrow> 's cres \<Rightarrow> string \<Rightarrow> string \<Rightarrow> (store_err + name_set) \<times> 's cres" where
  "cached_LookupName R env c zone name =
    (let (hit, ns) = Get (ce_get env) (cr_names c) (nameKey zone name); c = c\<lparr>cr_names := ns\<rparr>
     in case hit of
          Some found \<Rightarrow> (Inr found, c)
        | None \<Rightarrow>
            (case ce_nameFlight env (nameKey zone name) of Some v \<Rightarrow> (v, c) | None \<Rightarrow> loadName R env c zone name))"

text \<open>The loop of \<open>Invalidate\<close> over a name and its ancestors, up to the zone.\<close>

function invalidate_loop :: "string \<Rightarrow> string \<Rightarrow> name_set cache \<Rightarrow> name_set cache" where
  "invalidate_loop zone name names =
    (let names = Delete names (nameKey zone name)
     in if name = zone then names
        else case IndexByte name CHR ''.'' of None \<Rightarrow> names | Some i \<Rightarrow> invalidate_loop zone (drop (i + 1) name) names)"
  by pat_completeness auto
termination by (relation "measure (\<lambda>(zone, name, names). length name)") (auto dest: IndexByte_Some)

declare invalidate_loop.simps [simp del]

definition Invalidate :: "'s cres \<Rightarrow> string \<Rightarrow> string \<Rightarrow> 's cres" where
  "Invalidate c zone name =
    (let c = c\<lparr>cr_zones := Clear (cr_zones c)\<rparr>
     in if name = [] then c\<lparr>cr_names := DeleteGroup (cr_names c) zone\<rparr>
        else c\<lparr>cr_names := invalidate_loop zone name (cr_names c)\<rparr>)"

definition InvalidateAll :: "'s cres \<Rightarrow> 's cres" where
  "InvalidateAll c = c\<lparr>cr_zones := Clear (cr_zones c), cr_names := Clear (cr_names c)\<rparr>"

definition cached_Stats :: "'s cres \<Rightarrow> u64 \<times> u64 \<times> nat" where
  "cached_Stats c =
    (let (zh, zm) = Stats (cr_zones c); (nh, nm) = Stats (cr_names c)
     in (zh + nh, zm + nm, Len (cr_zones c) + Len (cr_names c)))"

text \<open>The caching resolver as a resolver, the environments of its calls given as a sequence.\<close>

record 's cres_state =
  cs_res :: "'s cres"
  cs_envs :: "nat \<Rightarrow> cenv"
  cs_tick :: nat

definition cachedResolver :: "'s resolver \<Rightarrow> 's cres_state resolver" where
  "cachedResolver R =
    \<lparr>rs_FindZone = (\<lambda>s q. let (out, c) = cached_FindZone R (cs_envs s (cs_tick s)) (cs_res s) q
                          in (out, s\<lparr>cs_res := c, cs_tick := cs_tick s + 1\<rparr>)),
     rs_LookupName = (\<lambda>s zone name. let (out, c) = cached_LookupName R (cs_envs s (cs_tick s)) (cs_res s) zone name
                                    in (out, s\<lparr>cs_res := c, cs_tick := cs_tick s + 1\<rparr>))\<rparr>"

section \<open>Keys and the names that are invalidated\<close>

lemma nameKey_inj: "NUL \<notin> set z \<Longrightarrow> NUL \<notin> set z' \<Longrightarrow> nameKey z n = nameKey z' n' \<longleftrightarrow> z = z' \<and> n = n'"
  unfolding nameKey_def by (auto simp: append_eq_append_conv2 Cons_eq_append_conv append_eq_Cons_conv)

text \<open>The names whose entries the loop deletes, in order.\<close>

function upTo :: "string \<Rightarrow> string \<Rightarrow> string list" where
  "upTo zone name =
    name # (if name = zone then []
            else case IndexByte name CHR ''.'' of None \<Rightarrow> [] | Some i \<Rightarrow> upTo zone (drop (i + 1) name))"
  by pat_completeness auto
termination by (relation "measure (\<lambda>(zone, name). length name)") (auto dest: IndexByte_Some)

declare upTo.simps [simp del]

lemma invalidate_loop_eq: "invalidate_loop zone name names = foldl Delete names (map (nameKey zone) (upTo zone name))"
proof (induction zone name names rule: invalidate_loop.induct)
  case (1 zone name names)
  show ?case
    using 1 by (subst invalidate_loop.simps, subst upTo.simps) (simp add: Let_def split: option.splits)
qed

lemma within_drop:
  assumes "IndexByte n CHR ''.'' = Some i"
  shows "within n m \<longleftrightarrow> m = n \<or> within (drop (i + 1) n) m"
proof -
  define a r where "a = take i n" and "r = drop (i + 1) n"
  have n: "n = a @ CHR ''.'' # r" "CHR ''.'' \<notin> set a"
    using IndexByte_Some_split [OF assms] by (auto simp: a_def r_def)
  have "HasSuffix n (CHR ''.'' # m) \<longleftrightarrow> r = m \<or> HasSuffix r (CHR ''.'' # m)"
    unfolding n(1) by (rule HasSuffix_first_dot [OF n(2)])
  then show ?thesis by (auto simp: within_def r_def)
qed

lemma within_no_dot: "IndexByte n CHR ''.'' = None \<Longrightarrow> within n m \<longleftrightarrow> m = n"
  by (auto simp: within_def HasSuffix_iff IndexByte_None)

lemma within_trans: "within a b \<Longrightarrow> within b c \<Longrightarrow> within a c"
  by (auto simp: within_def HasSuffix_iff)

lemma within_antisym: "within a b \<Longrightarrow> within b a \<Longrightarrow> a = b"
  by (auto simp: within_def HasSuffix_iff)

text \<open>Between a name and its zone the loop visits every name on the way.\<close>

lemma set_upTo: "within name zone \<Longrightarrow> set (upTo zone name) = {m. within name m \<and> within m zone}"
proof (induction zone name rule: upTo.induct)
  case (1 zone name)
  show ?case
  proof (cases "name = zone")
    case True
    then show ?thesis using within_antisym by (subst upTo.simps) auto
  next
    case False
    show ?thesis
    proof (cases "IndexByte name CHR ''.''")
      case None
      then show ?thesis using False 1(2) within_no_dot [OF None] by (subst upTo.simps) auto
    next
      case (Some i)
      let ?r = "drop (i + 1) name"
      have r: "within ?r zone" using 1(2) within_drop [OF Some, of zone] False by simp
      have "set (upTo zone name) = insert name (set (upTo zone ?r))"
        unfolding upTo.simps [of zone name] using False Some by simp
      moreover have "m \<in> insert name {m. within ?r m \<and> within m zone} \<longleftrightarrow> m \<in> {m. within name m \<and> within m zone}" for m
        unfolding mem_Collect_eq insert_iff within_drop [OF Some, of m] using 1(2) by metis
      ultimately show ?thesis unfolding 1(1) [OF False Some r] by blast
    qed
  qed
qed

section \<open>What a change of the database affects\<close>

text \<open>The answer to \<open>LookupName\<close> that the database determines, the order of the rows aside.\<close>

definition setIs :: "encoder option \<Rightarrow> db \<Rightarrow> string \<Rightarrow> string \<Rightarrow> name_set \<Rightarrow> bool" where
  "setIs enc db zone name ns =
    (mset (n_Records ns) = image_mset (scanRecord enc) (mset (filter (\<lambda>w. w_zone w = zone \<and> w_name w = name) (d_records db))) \<and>
     (n_HasChildren ns \<longleftrightarrow> n_Records ns = [] \<and> (\<exists>w \<in> set (d_records db). w_zone w = zone \<and> HasSuffix (w_name w) (''.'' @ name))))"

definition zoneIs :: "unicode_case \<Rightarrow> db \<Rightarrow> string \<Rightarrow> zone option \<Rightarrow> bool" where
  "zoneIs u db q r = (longest (filter (\<lambda>z. z \<in> enclosing db (NormalizeZone u q)) (d_zones db)) = r)"

lemma LookupName_setIs:
  assumes "\<And>w. w \<in> set (d_records db) \<Longrightarrow> w_name_rev w = reverseName (w_name w)" "\<And>ws. mset (pg_rows pg ws) = mset ws"
    and "LookupName pg enc db zone name = Inr ns"
  shows "setIs enc db zone name ns"
proof -
  let ?here = "filter (\<lambda>w. w_zone w = zone \<and> w_name w = name) (d_records db)"
  have rec: "mset (recordsAt pg enc db zone name) = image_mset (scanRecord enc) (mset ?here)"
    using assms(2) by (simp add: recordsAt_def collectRecords_def)
  have "childrenOf db zone name \<longleftrightarrow> (\<exists>w \<in> set (d_records db). w_zone w = zone \<and> HasSuffix (w_name w) (''.'' @ name))"
    by (rule childrenOf_iff) (rule assms(1))
  then show ?thesis
    using assms(3) rec
    by (auto simp: LookupName_def query_def Let_def setIs_def split: option.splits if_splits)
qed

lemma FindZone_zoneIs:
  "FindZone u pg db q = Inr z \<Longrightarrow> zoneIs u db q (Some z)" "FindZone u pg db q = Inl ErrNotFound \<Longrightarrow> zoneIs u db q None"
proof -
  have None: "zoneIs u db q None" if "NormalizeZone u q = []"
    using that by (auto simp: zoneIs_def enclosing_def within_def HasSuffix_iff longest_None filter_empty_conv)
  have f: "FindZone u pg db q = scanZone r \<Longrightarrow> pg_fault pg 0 = None \<Longrightarrow> zoneIs u db q r" for r
    using FindZone_enclosing [of pg u db q] by (auto simp: zoneIs_def scanZone_def split: option.splits)
  show "FindZone u pg db q = Inr z \<Longrightarrow> zoneIs u db q (Some z)"
    using f [of "Some z"] by (auto simp: FindZone_def query_def Let_def scanZone_def split: option.splits if_splits)
  show "FindZone u pg db q = Inl ErrNotFound \<Longrightarrow> zoneIs u db q None"
    using f [of None] None
    by (auto simp: FindZone_def query_def Let_def scanZone_def candidates_Nil_iff split: option.splits if_splits)
qed

text \<open>Two databases give the same answers for a name of a zone if they have the same records there and
  below it.\<close>

definition below :: "string \<Rightarrow> string \<Rightarrow> srow \<Rightarrow> bool" where
  "below zone name w = (w_zone w = zone \<and> within (w_name w) name)"

lemma setIs_cong:
  assumes "filter (below zone name) (d_records db') = filter (below zone name) (d_records db)"
    and "setIs enc db zone name ns"
  shows "setIs enc db' zone name ns"
proof -
  have at: "filter (\<lambda>w. w_zone w = zone \<and> w_name w = name) ws = filter (\<lambda>w. w_name w = name) (filter (below zone name) ws)" for ws
    by (auto simp: below_def intro: filter_cong)
  have ex: "(\<exists>w \<in> set ws. w_zone w = zone \<and> HasSuffix (w_name w) (''.'' @ name)) \<longleftrightarrow>
      (\<exists>w \<in> set (filter (below zone name) ws). HasSuffix (w_name w) (''.'' @ name))" for ws
    by (auto simp: below_def within_def)
  show ?thesis using assms(2) unfolding setIs_def at ex assms(1) .
qed

section \<open>The contract of a resolver\<close>

text \<open>
  What the DNS handler and the caching resolver rely on. \<open>zIs s q\<close> and \<open>sIs s zone name\<close> say which answers are
  right in a state; a resolver that succeeds gives a right answer and changes neither what is right nor
  its own invariant. Answers for names outside the zone asked about are not specified.
\<close>

locale resolver_spec =
  fixes R :: "'s resolver"
    and inv :: "'s \<Rightarrow> bool"
    and zIs :: "'s \<Rightarrow> string \<Rightarrow> zone option \<Rightarrow> bool"
    and sIs :: "'s \<Rightarrow> string \<Rightarrow> string \<Rightarrow> name_set \<Rightarrow> bool"
  assumes find_spec: "inv s \<Longrightarrow> rs_FindZone R s q = (out, s') \<Longrightarrow>
      inv s' \<and> zIs s' = zIs s \<and> sIs s' = sIs s \<and>
      (\<forall>z. out = Inr z \<longrightarrow> zIs s q (Some z)) \<and> (out = Inl ErrNotFound \<longrightarrow> zIs s q None)"
    and lookup_spec: "inv s \<Longrightarrow> NUL \<notin> set zone \<Longrightarrow> rs_LookupName R s zone name = (out', s') \<Longrightarrow>
      inv s' \<and> zIs s' = zIs s \<and> sIs s' = sIs s \<and> (\<forall>ns. out' = Inr ns \<longrightarrow> within name zone \<longrightarrow> sIs s zone name ns)"
    and zone_text: "inv s \<Longrightarrow> zIs s q (Some z) \<Longrightarrow> NUL \<notin> set (z_Name z)"

definition nameOk :: "(string \<Rightarrow> string \<Rightarrow> name_set \<Rightarrow> bool) \<Rightarrow> string \<Rightarrow> name_set \<Rightarrow> string \<Rightarrow> bool" where
  "nameOk S k v g = (\<exists>z n. k = nameKey z n \<and> NUL \<notin> set z \<and> g = z \<and> (within n z \<longrightarrow> S z n v))"

definition cachesOk ::
  "(string \<Rightarrow> zone option \<Rightarrow> bool) \<Rightarrow> (string \<Rightarrow> string \<Rightarrow> name_set \<Rightarrow> bool) \<Rightarrow> 's cres \<Rightarrow> bool" where
  "cachesOk Z S c = (cacheInv (cr_zones c) \<and> cacheInv (cr_names c) \<and>
     coherent (cached (cr_zones c)) (\<lambda>k v g. Z k v) \<and> coherent (cached (cr_names c)) (nameOk S))"

text \<open>The environment of a call: \<open>range\<close> visits every key, and a result handed over by \<open>singleflight\<close> is one
  that the load function returns.\<close>

definition envOk :: "(string \<Rightarrow> zone option \<Rightarrow> bool) \<Rightarrow> (string \<Rightarrow> string \<Rightarrow> name_set \<Rightarrow> bool) \<Rightarrow> cenv \<Rightarrow> bool" where
  "envOk Z S env = (rangeOrder (ce_ord env) \<and>
     (\<forall>q v. ce_zoneFlight env q = Some v \<longrightarrow> (case v of Inr r \<Rightarrow> Z q r | Inl e \<Rightarrow> e \<noteq> ErrNotFound)) \<and>
     (\<forall>z n ns. NUL \<notin> set z \<and> within n z \<and> ce_nameFlight env (nameKey z n) = Some (Inr ns) \<longrightarrow> S z n ns))"

definition csInv :: "('s \<Rightarrow> bool) \<Rightarrow> ('s \<Rightarrow> string \<Rightarrow> zone option \<Rightarrow> bool) \<Rightarrow> ('s \<Rightarrow> string \<Rightarrow> string \<Rightarrow> name_set \<Rightarrow> bool) \<Rightarrow> 's cres_state \<Rightarrow> bool" where
  "csInv ok zIs sIs s =
    (let n = cr_next (cs_res s)
     in ok n \<and> cachesOk (zIs n) (sIs n) (cs_res s) \<and> (\<forall>i. envOk (zIs n) (sIs n) (cs_envs s i)))"

lemma cachesOk_simps [simp]: "cachesOk Z S (c\<lparr>cr_next := s\<rparr>) = cachesOk Z S c"
  by (simp add: cachesOk_def)

lemma cachesOk_Get:
  "cachesOk Z S (c\<lparr>cr_zones := snd (Get now (cr_zones c) k)\<rparr>) = cachesOk Z S c"
  "cachesOk Z S (c\<lparr>cr_names := snd (Get now (cr_names c) k)\<rparr>) = cachesOk Z S c"
  by (simp_all add: cachesOk_def mc.get_keeps)

lemma cachesOk_SetZone:
  "cachesOk Z S c \<Longrightarrow> rangeOrder ord \<Longrightarrow> Z q r \<Longrightarrow> cachesOk Z S (c\<lparr>cr_zones := SetKey ord now (cr_zones c) q g r e\<rparr>)"
  by (simp add: cachesOk_def mc.put_inv mc.put_coherent)

lemma cachesOk_SetName:
  "cachesOk Z S c \<Longrightarrow> rangeOrder ord \<Longrightarrow> nameOk S k ns g \<Longrightarrow> cachesOk Z S (c\<lparr>cr_names := SetKey ord now (cr_names c) k g ns e\<rparr>)"
  by (simp add: cachesOk_def mc.put_inv mc.put_coherent)

context resolver_spec
begin

lemma find_specD:
  assumes "inv s" "rs_FindZone R s q = (out, s')"
  shows "inv s'" "zIs s' = zIs s" "sIs s' = sIs s" "out = Inr z \<Longrightarrow> zIs s q (Some z)" "out = Inl ErrNotFound \<Longrightarrow> zIs s q None"
  using find_spec [OF assms] by blast+

lemma lookup_specD:
  assumes "inv s" "NUL \<notin> set zone" "rs_LookupName R s zone name = (out, s')"
  shows "inv s'" "zIs s' = zIs s" "sIs s' = sIs s" "out = Inr ns \<Longrightarrow> within name zone \<Longrightarrow> sIs s zone name ns"
  using lookup_spec [OF assms] by blast+

lemma loadZone_ok:
  assumes "inv (cr_next c)" "cachesOk (zIs (cr_next c)) (sIs (cr_next c)) c" "rangeOrder (ce_ord env)"
    and "loadZone R env c q = (v, c')"
  shows "inv (cr_next c') \<and> zIs (cr_next c') = zIs (cr_next c) \<and> sIs (cr_next c') = sIs (cr_next c) \<and>
    cachesOk (zIs (cr_next c)) (sIs (cr_next c)) c' \<and>
    (case v of Inr r \<Rightarrow> zIs (cr_next c) q r | Inl e \<Rightarrow> e \<noteq> ErrNotFound)"
proof -
  obtain res s' where r: "rs_FindZone R (cr_next c) q = (res, s')" by fastforce
  note ok = find_specD [OF assms(1) r]
  show ?thesis
  proof (cases res)
    case (Inl e)
    then show ?thesis using assms(2-4) r ok(1-3) ok(5)
        cachesOk_SetZone [of "zIs (cr_next c)" "sIs (cr_next c)" "c\<lparr>cr_next := s'\<rparr>" "ce_ord env" q None]
      by (auto simp: loadZone_def Let_def split: if_splits)
  next
    case (Inr z)
    then show ?thesis using assms(2-4) r ok(1-3) ok(4) [OF Inr]
        cachesOk_SetZone [of "zIs (cr_next c)" "sIs (cr_next c)" "c\<lparr>cr_next := s'\<rparr>" "ce_ord env" q "Some z"]
      by (auto simp: loadZone_def Let_def)
  qed
qed

lemma cached_FindZone_ok:
  assumes "inv (cr_next c)" "cachesOk (zIs (cr_next c)) (sIs (cr_next c)) c" "envOk (zIs (cr_next c)) (sIs (cr_next c)) env"
    and "cached_FindZone R env c q = (out, c')"
  shows "inv (cr_next c') \<and> zIs (cr_next c') = zIs (cr_next c) \<and> sIs (cr_next c') = sIs (cr_next c) \<and>
    cachesOk (zIs (cr_next c)) (sIs (cr_next c)) c' \<and>
    (\<forall>z. out = Inr z \<longrightarrow> zIs (cr_next c) q (Some z)) \<and> (out = Inl ErrNotFound \<longrightarrow> zIs (cr_next c) q None)"
proof -
  let ?c = "c\<lparr>cr_zones := snd (Get (ce_get env) (cr_zones c) q)\<rparr>"
  have ok: "cachesOk (zIs (cr_next c)) (sIs (cr_next c)) ?c" using assms(2) by (simp add: cachesOk_Get)
  show ?thesis
  proof (cases "fst (Get (ce_get env) (cr_zones c) q)")
    case (Some r)
    have "zIs (cr_next c) q r"
      using mc.get_coherent [OF _ Some, of "\<lambda>k v g. zIs (cr_next c) k v"] assms(2) by (auto simp: cachesOk_def)
    then show ?thesis using Some assms(1,4) ok
      by (auto simp: cached_FindZone_def Let_def case_prod_beta zoneOut_def split: option.splits)
  next
    case None
    define p where "p = (case ce_zoneFlight env q of Some v \<Rightarrow> (v, ?c) | None \<Rightarrow> loadZone R env ?c q)"
    have "inv (cr_next (snd p)) \<and> zIs (cr_next (snd p)) = zIs (cr_next c) \<and> sIs (cr_next (snd p)) = sIs (cr_next c) \<and>
        cachesOk (zIs (cr_next c)) (sIs (cr_next c)) (snd p) \<and>
        (case fst p of Inr r \<Rightarrow> zIs (cr_next c) q r | Inl e \<Rightarrow> e \<noteq> ErrNotFound)"
    proof (cases "ce_zoneFlight env q")
      case None
      then show ?thesis
        using loadZone_ok [of ?c env q "fst p" "snd p"] assms(1,3) ok by (simp add: p_def envOk_def cong: sum.case_cong)
    next
      case (Some v)
      then show ?thesis using assms(1,3) ok by (simp add: p_def envOk_def)
    qed
    moreover have "(out, c') = (case fst p of Inl err \<Rightarrow> Inl err | Inr z \<Rightarrow> zoneOut z, snd p)"
      using assms(4) None by (simp add: cached_FindZone_def Let_def case_prod_beta p_def split: sum.splits)
    ultimately show ?thesis by (auto simp: zoneOut_def split: sum.splits option.splits)
  qed
qed

lemma loadName_ok:
  assumes "inv (cr_next c)" "cachesOk (zIs (cr_next c)) (sIs (cr_next c)) c" "rangeOrder (ce_ord env)" "NUL \<notin> set zone"
    and "loadName R env c zone name = (v, c')"
  shows "inv (cr_next c') \<and> zIs (cr_next c') = zIs (cr_next c) \<and> sIs (cr_next c') = sIs (cr_next c) \<and>
    cachesOk (zIs (cr_next c)) (sIs (cr_next c)) c' \<and> (\<forall>ns. v = Inr ns \<longrightarrow> within name zone \<longrightarrow> sIs (cr_next c) zone name ns)"
proof -
  obtain res s' where r: "rs_LookupName R (cr_next c) zone name = (res, s')" by fastforce
  note ok = lookup_specD [OF assms(1,4) r]
  show ?thesis
  proof (cases res)
    case (Inl e)
    then show ?thesis using assms(2,5) r ok(1-3) by (auto simp: loadName_def)
  next
    case (Inr ns)
    have "nameOk (sIs (cr_next c)) (nameKey zone name) ns zone" using ok(4) [OF Inr] assms(4) by (auto simp: nameOk_def)
    then show ?thesis using Inr assms(2,3,5) r ok
        cachesOk_SetName [of "zIs (cr_next c)" "sIs (cr_next c)" "c\<lparr>cr_next := s'\<rparr>" "ce_ord env"]
      by (auto simp: loadName_def Let_def)
  qed
qed

end

context resolver_spec
begin

lemma cached_LookupName_ok:
  assumes "inv (cr_next c)" "cachesOk (zIs (cr_next c)) (sIs (cr_next c)) c" "envOk (zIs (cr_next c)) (sIs (cr_next c)) env"
    and "NUL \<notin> set zone" "cached_LookupName R env c zone name = (out, c')"
  shows "inv (cr_next c') \<and> zIs (cr_next c') = zIs (cr_next c) \<and> sIs (cr_next c') = sIs (cr_next c) \<and>
    cachesOk (zIs (cr_next c)) (sIs (cr_next c)) c' \<and> (\<forall>ns. out = Inr ns \<longrightarrow> within name zone \<longrightarrow> sIs (cr_next c) zone name ns)"
proof -
  let ?k = "nameKey zone name" and ?S = "sIs (cr_next c)"
  let ?c = "c\<lparr>cr_names := snd (Get (ce_get env) (cr_names c) ?k)\<rparr>"
  have ok: "cachesOk (zIs (cr_next c)) ?S ?c" using assms(2) by (simp add: cachesOk_Get)
  show ?thesis
  proof (cases "fst (Get (ce_get env) (cr_names c) ?k)")
    case (Some ns)
    have "\<exists>g. nameOk ?S ?k ns g" using mc.get_coherent [OF _ Some, of "nameOk ?S"] assms(2) by (simp add: cachesOk_def)
    then have "within name zone \<longrightarrow> ?S zone name ns" using assms(4) by (auto simp: nameOk_def nameKey_inj)
    then show ?thesis using Some assms(1,5) ok by (auto simp: cached_LookupName_def Let_def case_prod_beta)
  next
    case None
    show ?thesis
    proof (cases "ce_nameFlight env ?k")
      case n: None
      have "loadName R env ?c zone name = (out, c')"
        using assms(5) None n by (simp add: cached_LookupName_def Let_def case_prod_beta)
      then show ?thesis using loadName_ok [of ?c env zone name out c'] assms(1,3,4) ok by (simp add: envOk_def)
    next
      case (Some v)
      then have "out = v" "c' = ?c" using assms(5) None by (auto simp: cached_LookupName_def Let_def case_prod_beta)
      then show ?thesis using Some assms(1,3,4) ok by (auto simp: envOk_def)
    qed
  qed
qed

text \<open>Caching keeps the contract: a caching resolver over a resolver is again a resolver.\<close>

lemma cached_spec:
  "resolver_spec (cachedResolver R) (csInv inv zIs sIs) (\<lambda>s. zIs (cr_next (cs_res s))) (\<lambda>s. sIs (cr_next (cs_res s)))"
proof (unfold_locales, goal_cases)
  case (1 s q out s')
  then have s: "inv (cr_next (cs_res s))" "cachesOk (zIs (cr_next (cs_res s))) (sIs (cr_next (cs_res s))) (cs_res s)"
    "envOk (zIs (cr_next (cs_res s))) (sIs (cr_next (cs_res s))) (cs_envs s (cs_tick s))" by (simp_all add: csInv_def Let_def)
  obtain c' where c: "cached_FindZone R (cs_envs s (cs_tick s)) (cs_res s) q = (out, c')" "s' = s\<lparr>cs_res := c', cs_tick := cs_tick s + 1\<rparr>"
    using 1(2) by (auto simp: cachedResolver_def Let_def split: prod.splits)
  then show ?case using 1(1) cached_FindZone_ok [OF s c(1)] by (simp add: csInv_def Let_def)
next
  case (2 s zone name out s')
  then have s: "inv (cr_next (cs_res s))" "cachesOk (zIs (cr_next (cs_res s))) (sIs (cr_next (cs_res s))) (cs_res s)"
    "envOk (zIs (cr_next (cs_res s))) (sIs (cr_next (cs_res s))) (cs_envs s (cs_tick s))" by (simp_all add: csInv_def Let_def)
  obtain c' where c: "cached_LookupName R (cs_envs s (cs_tick s)) (cs_res s) zone name = (out, c')" "s' = s\<lparr>cs_res := c', cs_tick := cs_tick s + 1\<rparr>"
    using 2(3) by (auto simp: cachedResolver_def Let_def split: prod.splits)
  then show ?case using 2(1) cached_LookupName_ok [OF s 2(2) c(1)] by (simp add: csInv_def Let_def)
next
  case (3 s q z)
  then show ?case using zone_text [of "cr_next (cs_res s)" q z] by (simp add: csInv_def Let_def)
qed

end

section \<open>The store and the cached store are resolvers\<close>

text \<open>PostgreSQL text holds no NUL byte, and a query yields all of its rows.\<close>

definition storeOk :: "store_state \<Rightarrow> bool" where
  "storeOk s = ((\<forall>w \<in> set (d_records (ss_db s)). w_name_rev w = reverseName (w_name w)) \<and>
     (\<forall>z \<in> set (d_zones (ss_db s)). NUL \<notin> set (z_Name z)) \<and> (\<forall>i ws. mset (pg_rows (ss_envs s i) ws) = mset ws))"

interpretation st: resolver_spec "storeResolver u enc" storeOk "\<lambda>s. zoneIs u (ss_db s)" "\<lambda>s. setIs enc (ss_db s)"
  for u enc
proof (unfold_locales, goal_cases)
  case (1 s q out s')
  then show ?case by (auto simp: storeResolver_def storeOk_def FindZone_zoneIs)
next
  case (2 s zone name out s')
  then show ?case using LookupName_setIs [of "ss_db s" "ss_envs s (ss_tick s)" enc zone name]
    by (auto simp: storeResolver_def storeOk_def)
next
  case (3 s q z)
  then have "z \<in> set (d_zones (ss_db s))" using longest_Some by (fastforce simp: zoneIs_def)
  then show ?case using 3(1) by (simp add: storeOk_def)
qed

interpretation cst: resolver_spec "cachedResolver (storeResolver u enc)"
    "csInv storeOk (\<lambda>s. zoneIs u (ss_db s)) (\<lambda>s. setIs enc (ss_db s))"
    "\<lambda>s. zoneIs u (ss_db (cr_next (cs_res s)))" "\<lambda>s. setIs enc (ss_db (cr_next (cs_res s)))"
  for u enc
  by (rule st.cached_spec)

section \<open>What a write affects, and what its invalidation removes\<close>

text \<open>The zone and name that a write is announced with.\<close>

fun notice :: "unicode_case \<Rightarrow> store_op \<Rightarrow> string \<times> string" where
  "notice u (CreateZoneOp z) = (NormalizeZone u (z_Name z), [])"
| "notice u (UpdateZoneOp z) = (NormalizeZone u (z_Name z), [])"
| "notice u (DeleteZoneOp n) = (NormalizeZone u n, [])"
| "notice u (CreateRecordOp r) = (NormalizeZone u (r_Zone r), NormalizeName u (NormalizeZone u (r_Zone r)) (r_Name r))"
| "notice u (DeleteRecordOp z n t d) = (NormalizeZone u z, NormalizeName u (NormalizeZone u z) n)"

lemma notice_within: "snd (notice u op) = [] \<or> within (snd (notice u op)) (fst (notice u op))"
  by (cases op) (simp_all add: NormalizeName_within)

lemma filter_retime:
  assumes "\<And>w. w_zone w = zone \<Longrightarrow> w_name w = name \<Longrightarrow> \<not> below z n w"
  shows "filter (below z n) (map (retime zone name rtype ttl) ws) = filter (below z n) ws"
  using assms by (induction ws) (auto simp: retime_def below_def)

lemma below_createdDb:
  assumes "\<not> (z = w_zone (recordRow u pg r) \<and> within (w_name (recordRow u pg r)) n)"
  shows "filter (below z n) (d_records (createdDb u pg r z' db)) = filter (below z n) (d_records db)"
proof -
  have "\<not> below z n ((recordRow u pg r)\<lparr>w_id := d_next db\<rparr>)" using assms by (auto simp: below_def)
  then show ?thesis unfolding createdDb_fields(1) using assms by (subst filter_retime) (auto simp: below_def)
qed

lemma below_deletedDb:
  assumes "\<not> (z = NormalizeZone u zone \<and> within (NormalizeName u (NormalizeZone u zone) name) n)"
  shows "filter (below z n) (d_records (deletedDb u pg zone name rtype rdata db)) = filter (below z n) (d_records db)"
  using assms by (auto simp: deletedDb_def Let_def hits_def below_def intro!: filter_cong split: option.splits)

text \<open>A write changes the answers only for the names it is announced for: of the zone, or, for a record,
  the record's name and the names above it.\<close>

lemma storeStep_below:
  assumes "\<not> (z = fst (notice u op) \<and> (snd (notice u op) = [] \<or> within (snd (notice u op)) n))"
  shows "filter (below z n) (d_records (storeStep u enc db (pg, op))) = filter (below z n) (d_records db)"
proof (cases op)
  case (CreateZoneOp y)
  then show ?thesis by (simp add: snd_CreateZone Let_def)
next
  case (UpdateZoneOp y)
  then show ?thesis by (simp add: UpdateZone_def snd_onFault snd_commitTo split: option.splits)
next
  case (DeleteZoneOp m)
  then show ?thesis using assms
    by (auto simp: DeleteZone_def Let_def snd_onFault snd_commitTo below_def intro!: filter_cong)
next
  case (CreateRecordOp r)
  then show ?thesis
    using CreateRecord_outcome [of u pg enc db r "fst (CreateRecord u pg enc db r)" "snd (CreateRecord u pg enc db r)"]
      below_createdDb [where z = z and u = u and pg = pg and r = r and n = n] assms by auto
next
  case (DeleteRecordOp zo m t d)
  then show ?thesis
    using DeleteRecord_outcome [of u pg db zo m t d "fst (DeleteRecord u pg db zo m t d)" "snd (DeleteRecord u pg db zo m t d)"]
      below_deletedDb [where z = z and u = u and zone = zo and name = m and n = n] assms by auto
qed

text \<open>What \<open>Invalidate\<close> does to the caches whatever it is called for: what it leaves in them may be read as right in any
  new sense that agrees with the old one outside the zone, or outside the path from the name to the apex.\<close>

lemma Invalidate_transfers:
  assumes "cachesOk Z S c" "name = [] \<or> within name zone"
    and new: "\<And>z n v. S z n v \<Longrightarrow> within n z \<Longrightarrow> NUL \<notin> set z \<Longrightarrow> \<not> (z = zone \<and> (name = [] \<or> within name n)) \<Longrightarrow> S' z n v"
  shows "cachesOk Z' S' (Invalidate c zone name)"
proof -
  have inv: "cacheInv (cr_zones c)" "cacheInv (cr_names c)" "coherent (cached (cr_names c)) (nameOk S)"
    using assms(1) by (simp_all add: cachesOk_def)
  have "cacheInv (cr_names (Invalidate c zone name)) \<and> coherent (cached (cr_names (Invalidate c zone name))) (nameOk S')"
  proof (cases "name = []")
    case True
    have "coherent (cached (DeleteGroup (cr_names c) zone)) (nameOk S')"
      by (rule mc.delGroup_coherent [OF inv(2,3)]) (auto simp: nameOk_def intro: new)
    then show ?thesis using True inv(2) by (simp add: Invalidate_def Let_def mc.del_inv)
  next
    case False
    let ?ks = "map (nameKey zone) (upTo zone name)"
    have path: "set (upTo zone name) = {m. within name m \<and> within m zone}" using assms(2) False by (intro set_upTo) simp
    have "coherent (cached (foldl Delete (cr_names c) ?ks)) (nameOk S')"
      by (rule mc.dels_coherent [OF inv(2,3)]) (use False path in \<open>auto simp: nameOk_def intro!: new\<close>)
    then show ?thesis using False inv(2) by (simp add: Invalidate_def Let_def invalidate_loop_eq mc.dels_inv)
  qed
  then show ?thesis using inv(1)
    by (simp add: cachesOk_def Invalidate_def Let_def mc.del_inv mc.clear_coherent split: if_splits)
qed

lemma storeStep_setIs:
  assumes "setIs enc db z n v" "\<not> (z = fst (notice u op) \<and> (snd (notice u op) = [] \<or> within (snd (notice u op)) n))"
  shows "setIs enc (storeStep u enc db (pg, op)) z n v"
  by (rule setIs_cong [OF storeStep_below [OF assms(2)] assms(1)])

lemma Invalidate_cachesOk:
  assumes "cachesOk Z (setIs enc db) c" "db' = storeStep u enc db (pg, op)"
  shows "cachesOk Z' (setIs enc db') (Invalidate c (fst (notice u op)) (snd (notice u op)))"
  unfolding assms(2) by (rule Invalidate_transfers [OF assms(1) notice_within]) (rule storeStep_setIs)

section \<open>Invalidation as steps of the interleaving machine\<close>

definition keyZone :: "string \<Rightarrow> string" where
  "keyZone k = takeWhile (\<lambda>c. c \<noteq> NUL) k"

definition keyName :: "string \<Rightarrow> string" where
  "keyName k = drop (length (keyZone k) + 1) k"

text \<open>What the database determines for a key of the names cache: the records at the name, and whether there are any
  below it. Keys of names outside their zone carry no meaning.\<close>

definition namesTruth :: "encoder option \<Rightarrow> db \<Rightarrow> string \<Rightarrow> (srecord multiset \<times> bool) option" where
  "namesTruth enc db k =
    (let z = keyZone k; n = keyName k
     in if NUL \<in> set k \<and> within n z
        then Some (mset (map (scanRecord enc) (filter (\<lambda>w. w_zone w = z \<and> w_name w = n) (d_records db))),
                   list_ex (\<lambda>w. w_zone w = z \<and> HasSuffix (w_name w) (''.'' @ n)) (d_records db))
        else None)"

text \<open>The locked sections of \<open>Invalidate\<close> on the names cache.\<close>

definition invalidateSweeps :: "string \<Rightarrow> string \<Rightarrow> sweep list list" where
  "invalidateSweeps zone name =
    (if name = [] then [sweepGroup zone] else map (\<lambda>m. sweepDelete (nameKey zone m)) (upTo zone name))"

lemma nameKey_parts: "NUL \<in> set k \<Longrightarrow> nameKey (keyZone k) (keyName k) = k"
proof -
  assume "NUL \<in> set k"
  then obtain a b where k: "k = a @ NUL # b" "NUL \<notin> set a" by (meson split_list_first)
  have "takeWhile (\<lambda>c. c \<noteq> NUL) (a @ NUL # b) = a" using k(2) by (induction a) auto
  then have "keyZone k = a" by (simp only: keyZone_def k(1))
  then show ?thesis by (simp add: nameKey_def keyName_def k(1))
qed

lemma namesTruth_cong:
  assumes "filter (below (keyZone k) (keyName k)) (d_records db') = filter (below (keyZone k) (keyName k)) (d_records db)"
  shows "namesTruth enc db' k = namesTruth enc db k"
proof -
  let ?z = "keyZone k" and ?n = "keyName k"
  have at: "filter (\<lambda>w. w_zone w = ?z \<and> w_name w = ?n) ws = filter (\<lambda>w. w_name w = ?n) (filter (below ?z ?n) ws)" for ws
    by (auto simp: below_def intro: filter_cong)
  have ex: "list_ex (\<lambda>w. w_zone w = ?z \<and> HasSuffix (w_name w) (''.'' @ ?n)) ws \<longleftrightarrow>
      list_ex (\<lambda>w. HasSuffix (w_name w) (''.'' @ ?n)) (filter (below ?z ?n) ws)" for ws
    by (auto simp: list_ex_iff below_def within_def)
  show ?thesis unfolding namesTruth_def Let_def at ex assms ..
qed

lemma covers_sweepGroup: "grp k = g \<Longrightarrow> \<exists>sw \<in> set (sweepGroup g). covers grp c k sw"
  by (auto simp: sweepGroup_def intro: shardFor_less)

lemma Invalidate_sweeps:
  assumes "cacheInv (cr_names c)"
  shows "cr_names (Invalidate c zone name) =
    foldl (\<lambda>m ph. foldl (\<lambda>m sw. doSweep sw m) (bump m) ph) (cr_names c) (invalidateSweeps zone name)"
proof (cases "name = []")
  case True
  then show ?thesis using sweeps_refine(2) [OF assms] by (simp add: Invalidate_def Let_def invalidateSweeps_def)
next
  case False
  have "foldl Delete m (map (nameKey zone) ns) =
      foldl (\<lambda>m ph. foldl (\<lambda>m sw. doSweep sw m) (bump m) ph) m (map (\<lambda>n. sweepDelete (nameKey zone n)) ns)"
    if "cacheInv m" for m ns
    using that by (induction ns arbitrary: m) (simp_all add: sweeps_refine(1) cacheInv_Delete flip: sweeps_refine(1))
  then show ?thesis using False assms by (simp add: Invalidate_def Let_def invalidateSweeps_def invalidate_loop_eq)
qed

section \<open>Properties of the caching resolver\<close>

text \<open>Claim C2. Caching is transparent: over the store, in any state whose caches agree with the database, the
  caching resolver answers what the database determines (a found zone is the closest enclosing one,
  not-found means there is none, a name set holds exactly the records of the name and the flag for
  names below it), and its caches still agree with the database afterwards.\<close>

theorem cached_store_correct:
  assumes "csInv storeOk (\<lambda>s. zoneIs u (ss_db s)) (\<lambda>s. setIs enc (ss_db s)) s"
    and "rs_FindZone (cachedResolver (storeResolver u enc)) s q = (zout, s1)"
    and "rs_LookupName (cachedResolver (storeResolver u enc)) s zone name = (nout, s2)" "NUL \<notin> set zone" "within name zone"
  shows "(\<forall>z. zout = Inr z \<longrightarrow> zoneIs u (ss_db (cr_next (cs_res s))) q (Some z))
       \<and> (zout = Inl ErrNotFound \<longrightarrow> zoneIs u (ss_db (cr_next (cs_res s))) q None)
       \<and> (\<forall>ns. nout = Inr ns \<longrightarrow> setIs enc (ss_db (cr_next (cs_res s))) zone name ns)
       \<and> csInv storeOk (\<lambda>s. zoneIs u (ss_db s)) (\<lambda>s. setIs enc (ss_db s)) s1
       \<and> csInv storeOk (\<lambda>s. zoneIs u (ss_db s)) (\<lambda>s. setIs enc (ss_db s)) s2"
  using cst.find_specD [OF assms(1,2)] cst.lookup_specD [OF assms(1,4,3)] assms(5) by blast

text \<open>Claim C3. A write followed by its invalidation leaves no stale entry: whatever a store operation changed,
  whether it succeeded or failed after the server applied it, dropping the entries for the zone and
  name it is announced with makes both caches agree with the new database.\<close>

theorem invalidation_restores:
  assumes "cachesOk (zoneIs u db) (setIs enc db) c" "db' = storeStep u enc db (pg, op)"
  shows "cachesOk (zoneIs u db') (setIs enc db') (Invalidate c (fst (notice u op)) (snd (notice u op)))"
  using Invalidate_cachesOk [OF assms] .

text \<open>The condition under which concurrent loads and invalidations stay coherent holds for the names
  cache: every key whose meaning a store operation changes is covered by a locked section of the
  invalidation announced for it, and those sections, run without interruption, are \<open>Invalidate\<close>.\<close>

lemma invalidation_covers:
  assumes "db' = storeStep u enc db (pg, op)" "cacheInv (cr_names c)"
  shows "(\<forall>k. namesTruth enc db' k \<noteq> namesTruth enc db k \<longrightarrow>
           (\<exists>sw \<in> set (concat (invalidateSweeps (fst (notice u op)) (snd (notice u op)))). covers keyZone (cr_names c) k sw))
       \<and> cr_names (Invalidate c (fst (notice u op)) (snd (notice u op))) =
           foldl (\<lambda>m ph. foldl (\<lambda>m sw. doSweep sw m) (bump m) ph) (cr_names c)
             (invalidateSweeps (fst (notice u op)) (snd (notice u op)))"
proof (intro conjI allI impI)
  fix k assume ch: "namesTruth enc db' k \<noteq> namesTruth enc db k"
  let ?z = "fst (notice u op)" and ?n = "snd (notice u op)"
  have k: "NUL \<in> set k" "within (keyName k) (keyZone k)" using ch by (auto simp: namesTruth_def Let_def split: if_splits)
  have hit: "keyZone k = ?z \<and> (?n = [] \<or> within ?n (keyName k))"
    using ch namesTruth_cong storeStep_below unfolding assms(1) by metis
  show "\<exists>sw \<in> set (concat (invalidateSweeps ?z ?n)). covers keyZone (cr_names c) k sw"
  proof (cases "?n = []")
    case True
    then show ?thesis using hit covers_sweepGroup [of keyZone k ?z "cr_names c"] by (simp add: invalidateSweeps_def)
  next
    case False
    then have "keyName k \<in> set (upTo ?z ?n)" using hit k(2) notice_within [of u op] by (simp add: set_upTo)
    moreover have "nameKey ?z (keyName k) = k" using nameKey_parts [OF k(1)] hit by simp
    ultimately show ?thesis using False by (force simp: invalidateSweeps_def sweepDelete_def)
  qed
qed (rule Invalidate_sweeps [OF assms(2)])

definition quietCenv :: cenv where
  "quietCenv = \<lparr>ce_get = 0, ce_set = 0, ce_ord = rev, ce_zoneFlight = \<lambda>_. None, ce_nameFlight = \<lambda>_. None\<rparr>"

definition exampleStore :: store_state where
  "exampleStore = \<lparr>ss_db = exampleDb, ss_envs = \<lambda>_. quietPg, ss_tick = 0\<rparr>"

definition exampleCached :: "store_state cres_state" where
  "exampleCached = \<lparr>cs_res = NewCachedResolver (\<lambda>_. 1) (\<lambda>_. 2) exampleStore 64 0, cs_envs = \<lambda>_. quietCenv, cs_tick = 0\<rparr>"

lemma cached_New [simp]: "cached (New hash m ttl) = (\<lambda>_. None)"
  by (simp add: cached_def fun_eq_iff)

lemma cachesOk_New: "cachesOk Z S (NewCachedResolver h1 h2 s m ttl)"
  by (simp add: cachesOk_def NewCachedResolver_def coherent_def)

lemma exampleStore_ok: "storeOk exampleStore"
  by (simp add: storeOk_def exampleStore_def exampleDb_def exampleRow_def exampleZone_def)

lemma exampleCached_ok: "csInv storeOk (\<lambda>s. zoneIs u (ss_db s)) (\<lambda>s. setIs enc (ss_db s)) exampleCached"
  using exampleStore_ok
  by (simp add: csInv_def Let_def exampleCached_def cachesOk_New envOk_def quietCenv_def) (simp add: NewCachedResolver_def)

lemma FindZone_example: "FindZone asciiCase quietPg exampleDb ''w.a.b'' = Inr exampleZone"
proof -
  have "exampleZone \<in> enclosing exampleDb ''w.a.b''"
    by (auto simp: enclosing_def exampleDb_def exampleZone_def within_def HasSuffix_iff)
  then show ?thesis by (simp add: FindZone_enclosing NormalizeZone_example) (simp add: exampleDb_def scanZone_def)
qed

lemma Get_New [simp]: "Get now (New hash m ttl) k = (None, (New hash m ttl)\<lparr>c_misses := 1\<rparr>)"
  by (simp add: Get_def New_def Let_def)

theorem cached_store_correct_witness:
  "csInv storeOk (\<lambda>s. zoneIs asciiCase (ss_db s)) (\<lambda>s. setIs None (ss_db s)) exampleCached \<and>
   fst (rs_FindZone (cachedResolver (storeResolver asciiCase None)) exampleCached ''w.a.b'') = Inr exampleZone \<and>
   zoneIs asciiCase exampleDb ''w.a.b'' (Some exampleZone)"
proof -
  let ?R = "cachedResolver (storeResolver asciiCase None)"
  have db: "ss_db (cr_next (cs_res exampleCached)) = exampleDb"
    by (simp add: exampleCached_def NewCachedResolver_def exampleStore_def)
  have f: "fst (rs_FindZone ?R exampleCached ''w.a.b'') = Inr exampleZone"
    by (simp add: cachedResolver_def exampleCached_def cached_FindZone_def Let_def case_prod_beta NewCachedResolver_def
        quietCenv_def loadZone_def storeResolver_def exampleStore_def FindZone_example zoneOut_def)
  show ?thesis
    using cached_store_correct [OF exampleCached_ok surjective_pairing surjective_pairing, of "''a.b''" "''a.b''" asciiCase None "''w.a.b''"]
      exampleCached_ok f db by simp
qed

theorem invalidation_restores_witness:
  "cachesOk (zoneIs asciiCase (storeStep asciiCase None exampleDb (quietPg, CreateRecordOp exampleRecord)))
     (setIs None (storeStep asciiCase None exampleDb (quietPg, CreateRecordOp exampleRecord)))
     (Invalidate (NewCachedResolver (\<lambda>_. 1) (\<lambda>_. 2) exampleStore 64 0) ''a.b'' ''w.a.b'')"
  using invalidation_restores [OF cachesOk_New refl, where u = asciiCase and pg = quietPg and op = "CreateRecordOp exampleRecord"]
  by (simp add: exampleRecord_def NormalizeZone_example Normalize_example)

lemma invalidation_covers_witness:
  "namesTruth None (storeStep asciiCase None exampleDb (quietPg, DeleteRecordOp ''a.b'' ''w'' ''A'' ''1.2.3.4'')) (nameKey ''a.b'' ''w.a.b'')
     \<noteq> namesTruth None exampleDb (nameKey ''a.b'' ''w.a.b'') \<and>
   (\<exists>sw \<in> set (concat (invalidateSweeps ''a.b'' ''w.a.b'')). covers keyZone (New (\<lambda>_. 2) 64 0 :: name_set cache) (nameKey ''a.b'' ''w.a.b'') sw)"
proof -
  let ?op = "DeleteRecordOp ''a.b'' ''w'' ''A'' ''1.2.3.4''"
  have "d_records (storeStep asciiCase None exampleDb (quietPg, ?op)) = []"
    by (simp add: DeleteRecord_def Let_def onFault_def commitTo_def exampleDb_def exampleRow_def exampleZone_def zoneNamed_def
        bumpSerial_def NormalizeZone_example Normalize_example)
  then have "namesTruth None (storeStep asciiCase None exampleDb (quietPg, ?op)) (nameKey ''a.b'' ''w.a.b'')
      \<noteq> namesTruth None exampleDb (nameKey ''a.b'' ''w.a.b'')"
    by (simp add: namesTruth_def Let_def nameKey_def keyZone_def keyName_def within_def HasSuffix_iff exampleDb_def exampleRow_def
        del: storeStep.simps)
  then show ?thesis
    using invalidation_covers [OF refl, where c = "NewCachedResolver (\<lambda>_. 1) (\<lambda>_. 2) exampleStore 64 0" and enc = None
        and db = exampleDb and pg = quietPg and op = ?op and u = asciiCase]
    by (simp add: NewCachedResolver_def NormalizeZone_example Normalize_example del: storeStep.simps)
qed

end
