(* ===== verification/Handler.thy ===== *)
theory Handler
  imports Cached_Resolver
begin

text \<open>
  The query handler of \<open>src/internal/dns/handler.go\<close>. It is given a resolver, a record of state-passing
  functions (theory \<open>Cached_Resolver\<close>), and threads the resolver's state and the rotation counter. The
  deadline of two seconds that \<open>Handle\<close> sets is one of the reasons for which the resolver may fail. Logging
  has no effect on the answer and is left out. A nil slice and an empty one are both the empty list; the
  code tells them apart only for wire data, which is never empty unless it is nil, and for \<open>match.cut\<close>,
  which is only set to non-empty slices.
\<close>

unbundle bit_operations_syntax

abbreviation (input) maxChain :: nat where "maxChain \<equiv> 8"
abbreviation (input) maxAdditional :: nat where "maxAdditional \<equiv> 16"
abbreviation (input) typeIXFR :: u16 where "typeIXFR \<equiv> 251"

section \<open>State\<close>

record 's hstate =
  hs_res :: 's
  hs_rotate :: u32

definition NewHandler :: "'s \<Rightarrow> 's hstate" where
  "NewHandler s = \<lparr>hs_res = s, hs_rotate = 0\<rparr>"

record matched =
  m_records :: "srecord list"
  m_exists :: bool
  m_cutName :: string
  m_cut :: "srecord list"
  m_dname :: "srecord option"
  m_dnameAt :: string

definition zero_match :: matched where
  "zero_match = \<lparr>m_records = [], m_exists = False, m_cutName = [], m_cut = [], m_dname = None, m_dnameAt = []\<rparr>"

datatype resolve_err = ResolverErr store_err | SoaErr packname_err

section \<open>Records\<close>

definition wireOf :: "unicode_case \<Rightarrow> srecord \<Rightarrow> bytes" where
  "wireOf u r =
    (if r_Wire r \<noteq> [] then r_Wire r
     else if r_WireErr r \<noteq> None then []
     else case BuildRData (TypeCode u (r_Type r)) (r_RData r) of (_, Some _) \<Rightarrow> [] | (b, None) \<Rightarrow> b)"

definition filterType :: "unicode_case \<Rightarrow> srecord list \<Rightarrow> u16 \<Rightarrow> srecord list" where
  "filterType u records qtype = filter (\<lambda>r. TypeCode u (r_Type r) = qtype) records"

definition inZone :: "string \<Rightarrow> string \<Rightarrow> bool" where
  "inZone name zone = (name = zone \<or> HasSuffix name (''.'' @ zone))"

definition appendRR :: "unicode_case \<Rightarrow> rr list \<Rightarrow> string \<Rightarrow> srecord \<Rightarrow> rr list" where
  "appendRR u section owner r =
    (let typ = TypeCode u (r_Type r); wdata = wireOf u r
     in if typ = 0 \<or> wdata = [] then section
        else section @ [\<lparr>rr_Name = owner, rr_Type = typ, rr_Class = ClassIN, rr_TTL = word_of_int (r_TTL r), rr_RData = wdata\<rparr>])"

definition appendSet ::
  "unicode_case \<Rightarrow> 's hstate \<Rightarrow> rr list \<Rightarrow> string \<Rightarrow> srecord list \<Rightarrow> rr list \<times> 's hstate" where
  "appendSet u h section owner records =
    (let n = length records
     in if n = 0 then (section, h)
        else let (start, h) = (if n > 1 then let r = hs_rotate h + 1 in (unat (r mod of_nat n), h\<lparr>hs_rotate := r\<rparr>) else (0, h))
             in (foldl (\<lambda>sec i. appendRR u sec owner (records ! ((start + i) mod n))) section [0..<n], h))"

definition soaRR :: "zone \<Rightarrow> packname_err + rr" where
  "soaRR zone =
    (let admin = Replace1 (z_AdminEmail zone) CHR ''@'' CHR ''.''
     in case BuildSOA (z_PrimaryNS zone) admin (word_of_int (z_Serial zone)) (word_of_int (z_Refresh zone))
               (word_of_int (z_Retry zone)) (word_of_int (z_Expire zone)) (word_of_int (z_MinTTL zone)) of
          Inl e \<Rightarrow> Inl e
        | Inr rdata \<Rightarrow> Inr \<lparr>rr_Name = z_Name zone, rr_Type = TypeSOA, rr_Class = ClassIN,
                            rr_TTL = word_of_int (z_MinTTL zone), rr_RData = rdata\<rparr>)"

definition negative :: "message \<Rightarrow> zone \<Rightarrow> bool \<Rightarrow> message" where
  "negative resp zone exists =
    (let resp = (if \<not> exists then SetRcode resp RcodeNXDomain else resp)
     in case soaRR zone of
          Inr soa \<Rightarrow>
            (let soa = (if rr_TTL soa > word_of_int (z_MinTTL zone) then soa\<lparr>rr_TTL := word_of_int (z_MinTTL zone)\<rparr> else soa)
             in resp\<lparr>Authority := Authority resp @ [soa]\<rparr>)
        | Inl _ \<Rightarrow> resp)"

section \<open>Lookup\<close>

text \<open>The loop over the ancestors of a name: it ends in an error, with a match (a delegation or a DNAME), or
  with the closest encloser.\<close>

function lookup_loop ::
  "'s resolver \<Rightarrow> unicode_case \<Rightarrow> zone \<Rightarrow> 's \<Rightarrow> string \<Rightarrow> (store_err + matched option \<times> string) \<times> 's" where
  "lookup_loop R u zone s encloser =
    (if encloser = z_Name zone then (Inr (None, encloser), s)
     else case IndexByte encloser CHR ''.'' of
       None \<Rightarrow> (Inr (None, encloser), s)
     | Some i \<Rightarrow>
        (case rs_LookupName R s (z_Name zone) (drop (i + 1) encloser) of
           (Inl err, s) \<Rightarrow> (Inl err, s)
         | (Inr aset, s) \<Rightarrow>
            (let encloser = drop (i + 1) encloser;
                 ns = filterType u (n_Records aset) TypeNS;
                 dn = filterType u (n_Records aset) TypeDNAME
             in if encloser \<noteq> z_Name zone \<and> 0 < length ns
                then (Inr (Some (zero_match\<lparr>m_cutName := encloser, m_cut := ns\<rparr>), encloser), s)
                else if encloser \<noteq> z_Name zone \<and> 0 < length dn
                then (Inr (Some (zero_match\<lparr>m_dname := Some (dn ! 0), m_dnameAt := encloser\<rparr>), encloser), s)
                else if Exists aset \<or> encloser = z_Name zone then (Inr (None, encloser), s)
                else lookup_loop R u zone s encloser)))"
  by pat_completeness auto
termination by (relation "measure (\<lambda>(R, u, zone, s, encloser). length encloser)") (auto dest: IndexByte_Some)

declare lookup_loop.simps [simp del]

definition lookup ::
  "'s resolver \<Rightarrow> unicode_case \<Rightarrow> zone \<Rightarrow> 's \<Rightarrow> string \<Rightarrow> u16 \<Rightarrow> (store_err + matched) \<times> 's" where
  "lookup R u zone s name qtype =
    (case rs_LookupName R s (z_Name zone) name of
       (Inl err, s) \<Rightarrow> (Inl err, s)
     | (Inr found, s) \<Rightarrow>
        if 0 < length (n_Records found) then
          let ns = filterType u (n_Records found) TypeNS
          in if name \<noteq> z_Name zone \<and> qtype \<noteq> TypeDS \<and> 0 < length ns
             then (Inr (zero_match\<lparr>m_cutName := name, m_cut := ns\<rparr>), s)
             else (Inr (zero_match\<lparr>m_records := n_Records found, m_exists := True\<rparr>), s)
        else if n_HasChildren found \<or> name = z_Name zone then (Inr (zero_match\<lparr>m_exists := True\<rparr>), s)
        else
          (case lookup_loop R u zone s name of
             (Inl err, s) \<Rightarrow> (Inl err, s)
           | (Inr (Some m, _), s) \<Rightarrow> (Inr m, s)
           | (Inr (None, encloser), s) \<Rightarrow>
              (case rs_LookupName R s (z_Name zone) (''*.'' @ encloser) of
                 (Inl err, s) \<Rightarrow> (Inl err, s)
               | (Inr wset, s) \<Rightarrow>
                   if 0 < length (n_Records wset) then (Inr (zero_match\<lparr>m_records := n_Records wset, m_exists := True\<rparr>), s)
                   else (Inr zero_match, s))))"

definition zoneFor :: "'s resolver \<Rightarrow> 's \<Rightarrow> string \<Rightarrow> (store_err + zone option) \<times> 's" where
  "zoneFor R s name =
    (case rs_FindZone R s name of
       (Inl err, s) \<Rightarrow> if err = ErrNotFound then (Inr None, s) else (Inl err, s)
     | (Inr z, s) \<Rightarrow> (Inr (Some z), s))"

section \<open>Additional records\<close>

text \<open>The loop of \<open>addGlue\<close>; \<open>seen\<close> holds the keys of the map of the same name.\<close>

fun addGlue_loop ::
  "'s resolver \<Rightarrow> unicode_case \<Rightarrow> zone \<Rightarrow> string list \<Rightarrow> rr list \<Rightarrow> 's \<Rightarrow> srecord list \<Rightarrow> rr list \<times> 's" where
  "addGlue_loop R u zone seen add s [] = (add, s)"
| "addGlue_loop R u zone seen add s (r # rs) =
    (if length seen \<ge> maxAdditional then (add, s)
     else let target = ToLower u (RDataNames (TypeCode u (r_Type r)) (wireOf u r))
          in if target = [] \<or> \<not> inZone target (z_Name zone) then addGlue_loop R u zone seen add s rs
             else if target \<in> set seen then addGlue_loop R u zone seen add s rs
             else (case rs_LookupName R s (z_Name zone) target of
                     (Inl _, s) \<Rightarrow> addGlue_loop R u zone (target # seen) add s rs
                   | (Inr found, s) \<Rightarrow>
                       addGlue_loop R u zone (target # seen)
                         (foldl (\<lambda>sec a. if r_Type a = ''A'' \<or> r_Type a = ''AAAA'' then appendRR u sec target a else sec)
                           add (n_Records found)) s rs))"

definition addGlue :: "'s resolver \<Rightarrow> unicode_case \<Rightarrow> 's hstate \<Rightarrow> message \<Rightarrow> zone \<Rightarrow> srecord list \<Rightarrow> message \<times> 's hstate" where
  "addGlue R u h resp zone records =
    (let (add, s) = addGlue_loop R u zone [] (Additional resp) (hs_res h) records
     in (resp\<lparr>Additional := add\<rparr>, h\<lparr>hs_res := s\<rparr>))"

definition addAdditional ::
  "'s resolver \<Rightarrow> unicode_case \<Rightarrow> 's hstate \<Rightarrow> message \<Rightarrow> zone \<Rightarrow> u16 \<Rightarrow> srecord list \<Rightarrow> message \<times> 's hstate" where
  "addAdditional R u h resp zone qtype records =
    (if qtype = TypeMX \<or> qtype = TypeNS \<or> qtype = TypeSRV then addGlue R u h resp zone records else (resp, h))"

section \<open>Resolution\<close>

definition clearAA :: "message \<Rightarrow> message" where
  "clearAA m = m\<lparr>Flags := Flags m AND NOT FlagAA\<rparr>"

text \<open>One turn of the loop of \<open>resolve\<close> ends the loop (\<open>Done\<close>, with the error returned if any) or goes on with
  another zone, name and owner (\<open>Continue\<close>).\<close>

datatype turn = Done "resolve_err option" | Continue zone string string

text \<open>The part of a turn that follows a CNAME or a DNAME to \<open>target\<close>.\<close>

definition follow :: "'s resolver \<Rightarrow> 's hstate \<Rightarrow> message \<Rightarrow> string \<Rightarrow> turn \<times> message \<times> 's hstate" where
  "follow R h resp target =
    (case zoneFor R (hs_res h) target of
       (Inl err, s) \<Rightarrow> (Done (Some (ResolverErr err)), resp, h\<lparr>hs_res := s\<rparr>)
     | (Inr None, s) \<Rightarrow> (Done None, resp, h\<lparr>hs_res := s\<rparr>)
     | (Inr (Some nz), s) \<Rightarrow> (Continue nz target target, resp, h\<lparr>hs_res := s\<rparr>))"

definition dnameTurn ::
  "'s resolver \<Rightarrow> unicode_case \<Rightarrow> 's hstate \<Rightarrow> message \<Rightarrow> string \<Rightarrow> string \<Rightarrow> srecord \<Rightarrow> string \<Rightarrow> turn \<times> message \<times> 's hstate" where
  "dnameTurn R u h resp name owner dname dnameAt =
    (let resp = resp\<lparr>Answers := appendRR u (Answers resp) dnameAt dname\<rparr>;
         target = RDataNames TypeDNAME (wireOf u dname)
     in if target = [] then (Done None, resp, h)
        else let nxt = TrimSuffix name (''.'' @ dnameAt) @ ''.'' @ ToLower u target
             in if length nxt > 253 then (Done None, SetRcode resp RcodeServerFailure, h)
                else case PackName [] nxt of
                       (_, Some _) \<Rightarrow> (Done None, resp, h)
                     | (cname, None) \<Rightarrow>
                         follow R h (resp\<lparr>Answers := Answers resp @
                           [\<lparr>rr_Name = owner, rr_Type = TypeCNAME, rr_Class = ClassIN, rr_TTL = word_of_int (r_TTL dname), rr_RData = cname\<rparr>]\<rparr>) nxt)"

definition answerTurn ::
  "'s resolver \<Rightarrow> unicode_case \<Rightarrow> 's hstate \<Rightarrow> message \<Rightarrow> zone \<Rightarrow> string \<Rightarrow> string \<Rightarrow> u16 \<Rightarrow> matched \<Rightarrow> turn \<times> message \<times> 's hstate" where
  "answerTurn R u h resp zone name owner qtype m =
    (let apex = (name = z_Name zone); records = m_records m
     in if qtype = TypeANY then
          (let resp = (if apex then case soaRR zone of Inr soa \<Rightarrow> resp\<lparr>Answers := Answers resp @ [soa]\<rparr> | Inl _ \<Rightarrow> resp else resp);
               (ans, h) = appendSet u h (Answers resp) owner records;
               resp = resp\<lparr>Answers := ans\<rparr>
           in (Done None, if length (Answers resp) = 0 then negative resp zone (m_exists m \<or> apex) else resp, h))
        else if apex \<and> qtype = TypeSOA then
          (case soaRR zone of
             Inl e \<Rightarrow> (Done (Some (SoaErr e)), resp, h)
           | Inr soa \<Rightarrow> (Done None, resp\<lparr>Answers := Answers resp @ [soa]\<rparr>, h))
        else
          (let ms = filterType u records qtype; cnames = filterType u records TypeCNAME
           in if 0 < length ms then
                (let (ans, h) = appendSet u h (Answers resp) owner ms;
                     (resp, h) = addAdditional R u h (resp\<lparr>Answers := ans\<rparr>) zone qtype ms
                 in (Done None, resp, h))
              else if qtype \<noteq> TypeCNAME \<and> 0 < length cnames then
                (let (ans, h) = appendSet u h (Answers resp) owner cnames;
                     resp = resp\<lparr>Answers := ans\<rparr>;
                     target = ToLower u (RDataNames TypeCNAME (wireOf u (cnames ! 0)))
                 in if target = [] then (Done None, resp, h) else follow R h resp target)
              else (Done None, negative resp zone (0 < length records \<or> m_exists m \<or> apex), h)))"

text \<open>The part of a turn that comes after \<open>lookup\<close>.\<close>

definition matchTurn ::
  "'s resolver \<Rightarrow> unicode_case \<Rightarrow> 's hstate \<Rightarrow> message \<Rightarrow> zone \<Rightarrow> string \<Rightarrow> string \<Rightarrow> u16 \<Rightarrow> matched \<Rightarrow> turn \<times> message \<times> 's hstate" where
  "matchTurn R u h resp zone name owner qtype m =
    (if m_cut m \<noteq> [] then
       (let resp = clearAA resp;
            resp = resp\<lparr>Authority := foldl (\<lambda>sec r. appendRR u sec (m_cutName m) r) (Authority resp) (m_cut m)\<rparr>;
            (resp, h) = addGlue R u h resp zone (m_cut m)
        in (Done None, resp, h))
     else case m_dname m of
         Some dname \<Rightarrow> dnameTurn R u h resp name owner dname (m_dnameAt m)
       | None \<Rightarrow> answerTurn R u h resp zone name owner qtype m)"

definition resolve_turn ::
  "'s resolver \<Rightarrow> unicode_case \<Rightarrow> 's hstate \<Rightarrow> message \<Rightarrow> zone \<Rightarrow> string \<Rightarrow> string \<Rightarrow> u16 \<Rightarrow> turn \<times> message \<times> 's hstate" where
  "resolve_turn R u h resp zone name owner qtype =
    (case lookup R u zone (hs_res h) name qtype of
       (Inl err, s) \<Rightarrow> (Done (Some (ResolverErr err)), resp, h\<lparr>hs_res := s\<rparr>)
     | (Inr m, s) \<Rightarrow> matchTurn R u (h\<lparr>hs_res := s\<rparr>) resp zone name owner qtype m)"

text \<open>The loop \<open>for hops := 0; hops <= maxChain; hops++\<close>, with the turns that are left.\<close>

fun resolve_loop ::
  "nat \<Rightarrow> 's resolver \<Rightarrow> unicode_case \<Rightarrow> 's hstate \<Rightarrow> message \<Rightarrow> zone \<Rightarrow> string \<Rightarrow> string \<Rightarrow> u16 \<Rightarrow> resolve_err option \<times> message \<times> 's hstate" where
  "resolve_loop 0 R u h resp zone name owner qtype = (None, resp, h)"
| "resolve_loop (Suc k) R u h resp zone name owner qtype =
    (case resolve_turn R u h resp zone name owner qtype of
       (Done err, resp, h) \<Rightarrow> (err, resp, h)
     | (Continue zone name owner, resp, h) \<Rightarrow> resolve_loop k R u h resp zone name owner qtype)"

definition resolve ::
  "'s resolver \<Rightarrow> unicode_case \<Rightarrow> 's hstate \<Rightarrow> message \<Rightarrow> zone \<Rightarrow> string \<Rightarrow> string \<Rightarrow> u16 \<Rightarrow> resolve_err option \<times> message \<times> 's hstate" where
  "resolve R u h resp zone name owner qtype = resolve_loop (maxChain + 1) R u h resp zone name owner qtype"

section \<open>Handle\<close>

definition Handle :: "'s resolver \<Rightarrow> unicode_case \<Rightarrow> 's hstate \<Rightarrow> message \<Rightarrow> message \<times> 's hstate" where
  "Handle R u h req =
    (let resp = NewResponse req
     in if Opcode req \<noteq> 0 then (SetRcode resp RcodeNotImplemented, h)
        else if length (Questions req) \<noteq> 1 then (SetRcode resp RcodeFormatError, h)
        else let q = Questions req ! 0
             in if q_Class q \<noteq> ClassIN \<and> q_Class q \<noteq> ClassANY then (SetRcode resp RcodeRefused, h)
                else if q_Type q = TypeOPT then (SetRcode resp RcodeFormatError, h)
                else if q_Type q = TypeAXFR \<or> q_Type q = typeIXFR then (SetRcode resp RcodeRefused, h)
                else let qname = ToLower u (TrimSuffix (q_Name q) ''.'')
                     in if qname = [] then (SetRcode resp RcodeRefused, h)
                        else (case rs_FindZone R (hs_res h) qname of
                           (Inl err, s) \<Rightarrow>
                             if err = ErrNotFound then (SetRcode resp RcodeRefused, h\<lparr>hs_res := s\<rparr>)
                             else (SetRcode resp RcodeServerFailure, h\<lparr>hs_res := s\<rparr>)
                         | (Inr zone, s) \<Rightarrow>
                             (let resp = resp\<lparr>Flags := Flags resp OR FlagAA\<rparr>
                              in case resolve R u (h\<lparr>hs_res := s\<rparr>) resp zone qname (TrimSuffix (q_Name q) ''.'') (q_Type q) of
                                   (None, resp, h) \<Rightarrow> (resp, h)
                                 | (Some _, resp, h) \<Rightarrow>
                                     (SetRcode (clearAA (resp\<lparr>Answers := [], Authority := [], Additional := []\<rparr>)) RcodeServerFailure, h))))"

end
