(* ===== verification/Handler_Turns.thy ===== *)
theory Handler_Turns
  imports Handler
begin

text \<open>
  What the handler does to a response, whatever its resolver: the records appended to a section, the parts
  of the response that resolution never touches, and the cases of one turn of \<open>resolve\<close>.
\<close>


section \<open>Sections of a response\<close>

text \<open>The records that can be served, and what is served for one.\<close>

definition servable :: "unicode_case \<Rightarrow> srecord \<Rightarrow> bool" where
  "servable u r = (TypeCode u (r_Type r) \<noteq> 0 \<and> wireOf u r \<noteq> [])"

definition rrOf :: "unicode_case \<Rightarrow> string \<Rightarrow> srecord \<Rightarrow> rr" where
  "rrOf u owner r = \<lparr>rr_Name = owner, rr_Type = TypeCode u (r_Type r), rr_Class = ClassIN, rr_TTL = word_of_int (r_TTL r),
     rr_RData = wireOf u r\<rparr>"

definition rrsOf :: "unicode_case \<Rightarrow> string \<Rightarrow> srecord list \<Rightarrow> rr list" where
  "rrsOf u owner rs = map (rrOf u owner) (filter (servable u) rs)"

lemma appendRR_eq: "appendRR u sec owner r = sec @ rrsOf u owner [r]"
  by (simp add: appendRR_def Let_def rrsOf_def servable_def rrOf_def)

lemma foldl_appendRR: "foldl (\<lambda>sec r. appendRR u sec owner r) sec rs = sec @ rrsOf u owner rs"
  by (induction rs arbitrary: sec) (simp_all add: appendRR_eq rrsOf_def)

lemma rotate_map_nth: "map (\<lambda>i. xs ! ((k + i) mod length xs)) [0..<length xs] = rotate k xs"
  by (intro nth_equalityI) (simp_all add: nth_rotate)

lemma appendSet_rotation:
  "\<exists>k. fst (appendSet u h sec owner rs) = sec @ rrsOf u owner (rotate k rs)"
proof (cases "rs = []")
  case True
  then show ?thesis by (simp add: appendSet_def rrsOf_def)
next
  case False
  have "foldl (\<lambda>sec i. appendRR u sec owner (rs ! ((k + i) mod length rs))) sec [0..<length rs] = sec @ rrsOf u owner (rotate k rs)" for k
    unfolding foldl_appendRR [symmetric] rotate_map_nth [symmetric] foldl_map ..
  then show ?thesis using False by (auto simp: appendSet_def Let_def)
qed

lemma mset_rotated: "mset (rotate k xs) = mset xs"
  by (metis append_take_drop_id mset_append rotate_drop_take union_commute)

lemma appendSet_mset: "mset (fst (appendSet u h sec owner rs)) = mset sec + mset (rrsOf u owner rs)"
proof -
  obtain k where k: "fst (appendSet u h sec owner rs) = sec @ rrsOf u owner (rotate k rs)" using appendSet_rotation by blast
  have "mset (filter (servable u) (rotate k rs)) = mset (filter (servable u) rs)" by (simp only: mset_filter mset_rotated)
  then show ?thesis unfolding k rrsOf_def by simp
qed

lemma hs_res_appendSet [simp]: "hs_res (snd (appendSet u h sec owner rs)) = hs_res h"
  by (simp add: appendSet_def Let_def)

section \<open>What a response keeps of the request\<close>

text \<open>Apart from the sections, resolution touches only the authoritative-answer bit and the response code.\<close>

definition keepBits :: "u16 \<Rightarrow> u16" where
  "keepBits f = (f AND NOT 15) AND NOT FlagAA"

definition sameFrame :: "message \<Rightarrow> message \<Rightarrow> bool" where
  "sameFrame m m' = (ID m' = ID m \<and> Questions m' = Questions m \<and> EDNS0 m' = EDNS0 m \<and> EDNS0DO m' = EDNS0DO m \<and>
     EDNS0Size m' = EDNS0Size m \<and> keepBits (Flags m') = keepBits (Flags m))"

lemma sameFrame_refl [simp]: "sameFrame m m"
  by (simp add: sameFrame_def)

lemma sameFrame_trans [trans]: "sameFrame a b \<Longrightarrow> sameFrame b c \<Longrightarrow> sameFrame a c"
  by (simp add: sameFrame_def)

lemma sameFrame_sections [simp]:
  "sameFrame m (m'\<lparr>Answers := x\<rparr>) = sameFrame m m'" "sameFrame m (m'\<lparr>Authority := x\<rparr>) = sameFrame m m'"
  "sameFrame m (m'\<lparr>Additional := x\<rparr>) = sameFrame m m'"
  by (simp_all add: sameFrame_def)

lemma keepBits_SetRcode: "keepBits (Flags (SetRcode m r)) = keepBits (Flags m)"
  unfolding keepBits_def Flags_SetRcode high_bits_join ..

lemma keepBits_AA: "keepBits (f AND NOT FlagAA) = keepBits f" "keepBits (f OR FlagAA) = keepBits f"
proof -
  show "keepBits (f AND NOT FlagAA) = keepBits f"
    unfolding keepBits_def by (simp only: and.assoc and.left_commute [of "NOT FlagAA" "NOT 15"] and.idem)
  have "((f OR FlagAA) AND NOT 15) AND NOT FlagAA = ((f OR FlagAA) AND NOT FlagAA) AND NOT 15"
    by (simp only: and.assoc and.commute [of "NOT 15"])
  also have "(f OR FlagAA) AND NOT FlagAA = f AND NOT FlagAA" by (simp add: bit.conj_disj_distrib2)
  finally show "keepBits (f OR FlagAA) = keepBits f"
    unfolding keepBits_def by (simp only: and.assoc and.commute [of "NOT 15"])
qed

lemma SetRcode_fields [simp]:
  "ID (SetRcode m r) = ID m" "Questions (SetRcode m r) = Questions m" "Answers (SetRcode m r) = Answers m"
  "Authority (SetRcode m r) = Authority m" "Additional (SetRcode m r) = Additional m" "EDNS0 (SetRcode m r) = EDNS0 m"
  "EDNS0DO (SetRcode m r) = EDNS0DO m" "EDNS0Size (SetRcode m r) = EDNS0Size m"
  by (simp_all add: SetRcode_def)

lemma clearAA_fields [simp]:
  "ID (clearAA m) = ID m" "Questions (clearAA m) = Questions m" "Answers (clearAA m) = Answers m"
  "Authority (clearAA m) = Authority m" "Additional (clearAA m) = Additional m" "EDNS0 (clearAA m) = EDNS0 m"
  "EDNS0DO (clearAA m) = EDNS0DO m" "EDNS0Size (clearAA m) = EDNS0Size m"
  by (simp_all add: clearAA_def)

lemma sameFrame_flags [simp]:
  "sameFrame m (SetRcode m' r) = sameFrame m m'" "sameFrame m (clearAA m') = sameFrame m m'"
  "sameFrame m (m'\<lparr>Flags := Flags m' OR FlagAA\<rparr>) = sameFrame m m'"
proof -
  show "sameFrame m (SetRcode m' r) = sameFrame m m'"
    unfolding sameFrame_def keepBits_SetRcode SetRcode_fields ..
  have "Flags (clearAA m') = Flags m' AND NOT FlagAA" unfolding clearAA_def by simp
  then show "sameFrame m (clearAA m') = sameFrame m m'"
    unfolding sameFrame_def clearAA_fields by (simp only: keepBits_AA)
  show "sameFrame m (m'\<lparr>Flags := Flags m' OR FlagAA\<rparr>) = sameFrame m m'"
    unfolding sameFrame_def by (simp add: keepBits_AA)
qed


definition AA :: "message \<Rightarrow> bool" where
  "AA m = bit (Flags m) 10"

lemma AA_simps [simp]:
  "AA (m\<lparr>Answers := x\<rparr>) = AA m" "AA (m\<lparr>Authority := x\<rparr>) = AA m" "AA (m\<lparr>Additional := x\<rparr>) = AA m"
  "AA (SetRcode m r) = AA m" "\<not> AA (clearAA m)" "AA (m\<lparr>Flags := Flags m OR FlagAA\<rparr>)"
proof -
  have "bit (- 16 :: u16) 10" by (simp add: bit_simps)
  moreover have "\<not> bit (word_of_int (r AND 15) :: u16) 10" by (simp add: bit_simps)
  ultimately show "AA (SetRcode m r) = AA m" by (simp add: AA_def bit_simps)
  have "bit (1024 :: u16) 10" by (simp add: bit_simps)
  then show "\<not> AA (clearAA m)" "AA (m\<lparr>Flags := Flags m OR FlagAA\<rparr>)" by (simp_all add: AA_def clearAA_def bit_simps)
qed (simp_all add: AA_def)

lemma Rcode_simps [simp]:
  "Rcode (m\<lparr>Answers := x\<rparr>) = Rcode m" "Rcode (m\<lparr>Authority := x\<rparr>) = Rcode m" "Rcode (m\<lparr>Additional := x\<rparr>) = Rcode m"
  "Rcode (SetRcode m r) = r mod 16" "Rcode (clearAA m) = Rcode m" "Rcode (m\<lparr>Flags := Flags m OR FlagAA\<rparr>) = Rcode m"
proof -
  have low: "(f AND NOT FlagAA) AND 15 = f AND (15 :: u16)" "(f OR FlagAA) AND 15 = f AND (15 :: u16)" for f
  proof -
    have "(f AND NOT FlagAA) AND 15 = f AND (NOT FlagAA AND (15 :: u16))" by (simp only: and.assoc)
    also have "NOT FlagAA AND (15 :: u16) = 15" by simp
    finally show "(f AND NOT FlagAA) AND 15 = f AND (15 :: u16)" .
    show "(f OR FlagAA) AND 15 = f AND (15 :: u16)" by (simp add: bit.conj_disj_distrib2)
  qed
  have upd: "Flags (m\<lparr>Flags := f\<rparr>) = f" for f by simp
  show "Rcode (clearAA m) = Rcode m" unfolding Rcode_def clearAA_def upd low ..
  show "Rcode (m\<lparr>Flags := Flags m OR FlagAA\<rparr>) = Rcode m" unfolding Rcode_def upd low ..
  show "Rcode (SetRcode m r) = r mod 16" by (rule Rcode_SetRcode)
qed (simp_all add: Rcode_def)

section \<open>What a turn does to the response, whatever the resolver\<close>

text \<open>A turn keeps the frame, adds answers at the end, and sets the response code to \<open>NXDOMAIN\<close> or
  \<open>SERVFAIL\<close> if at all; it goes on only if it has added an answer.\<close>

definition turnOk :: "message \<Rightarrow> turn \<Rightarrow> message \<Rightarrow> bool" where
  "turnOk m t m' = (sameFrame m m' \<and> Rcode m' \<in> {Rcode m, RcodeServerFailure, RcodeNXDomain} \<and> prefix (Answers m) (Answers m') \<and>
     (\<forall>z n w. t = Continue z n w \<longrightarrow> length (Answers m) < length (Answers m') \<and> Rcode m' = Rcode m \<and> AA m' = AA m \<and>
        Authority m' = Authority m \<and> Additional m' = Additional m))"

lemma negative_frame [simp]:
  "sameFrame m (negative resp zone e) = sameFrame m resp" "Answers (negative resp zone e) = Answers resp"
  "Additional (negative resp zone e) = Additional resp" "AA (negative resp zone e) = AA resp"
  "Rcode (negative resp zone e) = (if e then Rcode resp else RcodeNXDomain)"
  by (auto simp: negative_def Let_def split: sum.splits)

lemma addGlue_frame [simp]:
  "sameFrame m (fst (addGlue R u h resp zone rs)) = sameFrame m resp" "Answers (fst (addGlue R u h resp zone rs)) = Answers resp"
  "Authority (fst (addGlue R u h resp zone rs)) = Authority resp" "Rcode (fst (addGlue R u h resp zone rs)) = Rcode resp"
  "AA (fst (addGlue R u h resp zone rs)) = AA resp"
  by (simp_all add: addGlue_def case_prod_beta)

lemma addAdditional_frame [simp]:
  "sameFrame m (fst (addAdditional R u h resp zone t rs)) = sameFrame m resp"
  "Answers (fst (addAdditional R u h resp zone t rs)) = Answers resp"
  "Authority (fst (addAdditional R u h resp zone t rs)) = Authority resp"
  "Rcode (fst (addAdditional R u h resp zone t rs)) = Rcode resp"
  "AA (fst (addAdditional R u h resp zone t rs)) = AA resp"
  by (simp_all add: addAdditional_def)

lemma follow_resp [simp]: "fst (snd (follow R h resp target)) = resp"
  by (simp add: follow_def split: prod.splits sum.splits option.splits)

lemma appendSet_prefix: "prefix sec (fst (appendSet u h sec owner rs))"
  using appendSet_rotation [of u h sec owner rs] by auto

lemma appendSet_Nil_iff [simp]: "fst (appendSet u h sec owner rs) = [] \<longleftrightarrow> sec = [] \<and> rrsOf u owner rs = []"
  using appendSet_mset [of u h sec owner rs] by (metis mset_zero_iff union_eq_empty)

lemma RDataNames_Nil [simp]: "RDataNames t [] = []"
  by (simp add: RDataNames_def Let_def ParseName_def ParseName_loop.simps [of "[]"])

lemma appendSet_grows:
  assumes "r \<in> set rs" "servable u r"
  shows "length sec < length (fst (appendSet u h sec owner rs))"
proof -
  have "size (mset (fst (appendSet u h sec owner rs))) = length sec + length (rrsOf u owner rs)"
    unfolding appendSet_mset by simp
  moreover have "rrsOf u owner rs \<noteq> []" using assms by (auto simp: rrsOf_def filter_empty_conv)
  ultimately show ?thesis by (simp flip: length_greater_0_conv)
qed

lemma RDataNames_servable: "RDataNames t (wireOf u r) \<noteq> [] \<Longrightarrow> TypeCode u (r_Type r) = t \<Longrightarrow> servable u r"
proof -
  have "RDataNames 0 w = []" for w by (simp add: RDataNames_def Let_def)
  then show "RDataNames t (wireOf u r) \<noteq> [] \<Longrightarrow> TypeCode u (r_Type r) = t \<Longrightarrow> servable u r"
    unfolding servable_def by (metis RDataNames_Nil)
qed

lemma ToLower_Nil [simp]: "ToLower u [] = []"
  by (simp add: ToLower_def is_ascii_def)

lemma turnOk_Done: "turnOk m (Done e) m' \<longleftrightarrow>
    sameFrame m m' \<and> Rcode m' \<in> {Rcode m, RcodeServerFailure, RcodeNXDomain} \<and> prefix (Answers m) (Answers m')"
  by (simp add: turnOk_def)

lemma turnOk_grow: "prefix (Answers m) ans \<Longrightarrow> length (Answers m) < length ans \<Longrightarrow> turnOk m t (m\<lparr>Answers := ans\<rparr>)"
  by (simp add: turnOk_def)

lemma dnameTurn_ok:
  "turnOk resp (fst (dnameTurn R u h resp name owner d at)) (fst (snd (dnameTurn R u h resp name owner d at)))"
  by (simp add: dnameTurn_def Let_def case_prod_beta turnOk_Done appendRR_eq turnOk_grow split: option.splits)

text \<open>The cases of a turn that found neither a delegation nor a DNAME.\<close>

lemma answerTurn_soa:
  "name = z_Name zone \<Longrightarrow> answerTurn R u h resp zone name owner TypeSOA m =
    (case soaRR zone of Inl e \<Rightarrow> (Done (Some (SoaErr e)), resp, h) | Inr soa \<Rightarrow> (Done None, resp\<lparr>Answers := Answers resp @ [soa]\<rparr>, h))"
  by (simp add: answerTurn_def)

lemma answerTurn_found:
  assumes "qtype \<noteq> TypeANY" "\<not> (name = z_Name zone \<and> qtype = TypeSOA)" "filterType u (m_records m) qtype = ms" "ms \<noteq> []"
  shows "answerTurn R u h resp zone name owner qtype m =
    (let (ans, h') = appendSet u h (Answers resp) owner ms
     in (Done None, addAdditional R u h' (resp\<lparr>Answers := ans\<rparr>) zone qtype ms))"
  using assms by (auto simp: answerTurn_def Let_def case_prod_beta)

lemma answerTurn_cname:
  assumes "qtype \<noteq> TypeANY" "\<not> (name = z_Name zone \<and> qtype = TypeSOA)" "filterType u (m_records m) qtype = []"
    and "qtype \<noteq> TypeCNAME" "filterType u (m_records m) TypeCNAME = cs" "cs \<noteq> []"
  shows "answerTurn R u h resp zone name owner qtype m =
    (let (ans, h') = appendSet u h (Answers resp) owner cs; target = ToLower u (RDataNames TypeCNAME (wireOf u (cs ! 0)))
     in if target = [] then (Done None, resp\<lparr>Answers := ans\<rparr>, h') else follow R h' (resp\<lparr>Answers := ans\<rparr>) target)"
  using assms by (auto simp: answerTurn_def Let_def case_prod_beta)

lemma answerTurn_negative:
  assumes "qtype \<noteq> TypeANY" "\<not> (name = z_Name zone \<and> qtype = TypeSOA)" "filterType u (m_records m) qtype = []"
    and "qtype = TypeCNAME \<or> filterType u (m_records m) TypeCNAME = []"
  shows "answerTurn R u h resp zone name owner qtype m =
    (Done None, negative resp zone (m_records m \<noteq> [] \<or> m_exists m \<or> name = z_Name zone), h)"
  using assms by (auto simp: answerTurn_def Let_def)

lemma answerTurn_ok:
  "turnOk resp (fst (answerTurn R u h resp zone name owner qtype m)) (fst (snd (answerTurn R u h resp zone name owner qtype m)))"
proof -
  have soa: "prefix (Answers resp) (fst (appendSet u h (Answers resp @ [soa]) owner rs))" for soa rs
    using appendSet_prefix prefix_order.trans by (metis prefixI)
  let ?ms = "filterType u (m_records m) qtype" and ?cs = "filterType u (m_records m) TypeCNAME"
  consider "qtype = TypeANY" | "qtype = TypeSOA \<and> name = z_Name zone"
    | (rest) "qtype \<noteq> TypeANY" "\<not> (name = z_Name zone \<and> qtype = TypeSOA)" by blast
  then show ?thesis
  proof cases
    case 1
    then show ?thesis
      by (simp add: answerTurn_def Let_def case_prod_beta turnOk_Done appendSet_prefix soa split: sum.splits)
  next
    case 2
    then show ?thesis by (simp add: answerTurn_soa turnOk_Done split: sum.splits)
  next
    case rest
    consider (found) "?ms \<noteq> []" | (cname) "?ms = []" "qtype \<noteq> TypeCNAME" "?cs \<noteq> []" | (neg) "?ms = []" "qtype = TypeCNAME \<or> ?cs = []" by blast
    then show ?thesis
    proof cases
      case found
      show ?thesis unfolding answerTurn_found [OF rest refl found]
        by (simp add: case_prod_beta turnOk_Done appendSet_prefix)
    next
      case cname
      let ?target = "RDataNames TypeCNAME (wireOf u (?cs ! 0))"
      have mem: "?cs ! 0 \<in> set ?cs" using cname(3) by simp
      then have "TypeCode u (r_Type (?cs ! 0)) = TypeCNAME" by (simp add: filterType_def)
      then have "servable u (?cs ! 0)" if "ToLower u ?target \<noteq> []"
        using that RDataNames_servable [of TypeCNAME u "?cs ! 0"] by (cases "?target = []") simp_all
      then have "ToLower u ?target \<noteq> [] \<Longrightarrow> turnOk resp t (resp\<lparr>Answers := fst (appendSet u h (Answers resp) owner ?cs)\<rparr>)" for t
        using appendSet_grows [OF mem, where h = h] by (simp add: turnOk_grow appendSet_prefix)
      then show ?thesis unfolding answerTurn_cname [OF rest cname(1,2) refl cname(3)]
        by (simp add: Let_def case_prod_beta turnOk_Done appendSet_prefix)
    next
      case neg
      show ?thesis unfolding answerTurn_negative [OF rest neg] by (simp add: turnOk_Done)
    qed
  qed
qed

lemma matchTurn_ok:
  "turnOk resp (fst (matchTurn R u h resp zone name owner qtype m)) (fst (snd (matchTurn R u h resp zone name owner qtype m)))"
  by (simp add: matchTurn_def Let_def case_prod_beta turnOk_Done dnameTurn_ok answerTurn_ok split: option.splits)

lemma resolve_turn_ok:
  "turnOk resp (fst (resolve_turn R u h resp zone name owner qtype)) (fst (snd (resolve_turn R u h resp zone name owner qtype)))"
  by (simp add: resolve_turn_def turnOk_Done matchTurn_ok split: sum.splits prod.splits)

lemma resolve_loop_ok:
  "sameFrame resp (fst (snd (resolve_loop k R u h resp zone name owner qtype))) \<and>
   Rcode (fst (snd (resolve_loop k R u h resp zone name owner qtype))) \<in> {Rcode resp, RcodeServerFailure, RcodeNXDomain} \<and>
   prefix (Answers resp) (Answers (fst (snd (resolve_loop k R u h resp zone name owner qtype))))"
proof (induction k arbitrary: h resp zone name owner)
  case (Suc k)
  obtain t resp' h' where turn: "resolve_turn R u h resp zone name owner qtype = (t, resp', h')" by (metis prod_cases3)
  then have ok: "turnOk resp t resp'" using resolve_turn_ok [of resp R u h zone name owner qtype] by simp
  show ?case
  proof (cases t)
    case (Done e)
    then show ?thesis using turn ok by (simp add: turnOk_Done)
  next
    case (Continue z n w)
    then show ?thesis using turn ok Suc [where h = h' and resp = resp' and zone = z and name = n and owner = w]
      by (auto simp: turnOk_def elim: sameFrame_trans dest: prefix_order.trans)
  qed
qed simp

end
