(* ===== verification/Handler_Refinement.thy ===== *)
theory Handler_Refinement
  imports Handler_Turns
begin

text \<open>
  What the database says about a query, and that the handler's \<open>lookup\<close> finds it through any resolver of
  that database: the store and the cached store are such resolvers.
\<close>


section \<open>The answer that the database determines\<close>

text \<open>The records of a zone at a name, those of one type, and the names in use: those that have records or
  have records below them.\<close>

definition recsAt :: "encoder option \<Rightarrow> db \<Rightarrow> string \<Rightarrow> string \<Rightarrow> srecord multiset" where
  "recsAt enc db zone name = image_mset (scanRecord enc) (mset (filter (\<lambda>w. w_zone w = zone \<and> w_name w = name) (d_records db)))"

definition ofType :: "unicode_case \<Rightarrow> u16 \<Rightarrow> srecord multiset \<Rightarrow> srecord multiset" where
  "ofType u t rs = filter_mset (\<lambda>r. TypeCode u (r_Type r) = t) rs"

definition inUse :: "db \<Rightarrow> string \<Rightarrow> string \<Rightarrow> bool" where
  "inUse db zone name = (\<exists>w \<in> set (d_records db). w_zone w = zone \<and> within (w_name w) name)"

text \<open>The closest encloser of a name: of its proper ancestors within the zone that are in use, the top of the
  zone included in any case, the one that all others enclose.\<close>

definition closest :: "db \<Rightarrow> string \<Rightarrow> string \<Rightarrow> string \<Rightarrow> bool" where
  "closest db zone name e =
    (within name e \<and> e \<noteq> name \<and> within e zone \<and> (e = zone \<or> inUse db zone e) \<and>
     (\<forall>e'. within name e' \<and> e' \<noteq> name \<and> within e' zone \<and> inUse db zone e' \<longrightarrow> within e e'))"

definition foundIs :: "srecord multiset \<Rightarrow> matched \<Rightarrow> bool" where
  "foundIs rs m = (mset (m_records m) = rs \<and> m = zero_match\<lparr>m_records := m_records m, m_exists := True\<rparr>)"

definition cutIs :: "string \<Rightarrow> srecord multiset \<Rightarrow> matched \<Rightarrow> bool" where
  "cutIs name rs m = (mset (m_cut m) = rs \<and> m = zero_match\<lparr>m_cutName := name, m_cut := m_cut m\<rparr>)"

definition dnameIs :: "string \<Rightarrow> srecord multiset \<Rightarrow> matched \<Rightarrow> bool" where
  "dnameIs name rs m = (\<exists>d. d \<in># rs \<and> m = zero_match\<lparr>m_dname := Some d, m_dnameAt := name\<rparr>)"

definition encloserIs :: "encoder option \<Rightarrow> unicode_case \<Rightarrow> db \<Rightarrow> string \<Rightarrow> string \<Rightarrow> matched option \<Rightarrow> bool" where
  "encloserIs enc u db zone e mo =
    (let ns = ofType u TypeNS (recsAt enc db zone e); dn = ofType u TypeDNAME (recsAt enc db zone e)
     in if e \<noteq> zone \<and> ns \<noteq> {#} then \<exists>m. mo = Some m \<and> cutIs e ns m
        else if e \<noteq> zone \<and> dn \<noteq> {#} then \<exists>m. mo = Some m \<and> dnameIs e dn m
        else mo = None)"

text \<open>What the database says about a name and a type (RFC 1034, 4.3.2; RFC 4592; RFC 6672): its records, or
  the delegation there; nothing, if the name is only in use; otherwise the delegation or DNAME at its
  closest encloser, and failing these the wildcard there.\<close>

definition matchIs :: "encoder option \<Rightarrow> unicode_case \<Rightarrow> db \<Rightarrow> string \<Rightarrow> string \<Rightarrow> u16 \<Rightarrow> matched \<Rightarrow> bool" where
  "matchIs enc u db zone name qtype m =
    (let here = recsAt enc db zone name; ns = ofType u TypeNS here
     in if here \<noteq> {#} then if name \<noteq> zone \<and> qtype \<noteq> TypeDS \<and> ns \<noteq> {#} then cutIs name ns m else foundIs here m
        else if inUse db zone name \<or> name = zone then m = zero_match\<lparr>m_exists := True\<rparr>
        else \<exists>e mo. closest db zone name e \<and> encloserIs enc u db zone e mo \<and>
               (case mo of Some m' \<Rightarrow> m = m'
                | None \<Rightarrow> let wild = recsAt enc db zone (''*.'' @ e)
                           in if wild \<noteq> {#} then foundIs wild m else m = zero_match))"

lemma mset_filterType [simp]: "mset (filterType u rs t) = ofType u t (mset rs)"
  by (simp add: filterType_def ofType_def)

lemma setIs_records: "setIs enc db zone name ns \<Longrightarrow> mset (n_Records ns) = recsAt enc db zone name"
  by (simp add: setIs_def recsAt_def)

lemma recsAt_empty: "recsAt enc db zone name = {#} \<longleftrightarrow> (\<forall>w \<in> set (d_records db). \<not> (w_zone w = zone \<and> w_name w = name))"
  by (auto simp: recsAt_def filter_empty_conv)

lemma setIs_Exists: "setIs enc db zone name ns \<Longrightarrow> Exists ns \<longleftrightarrow> inUse db zone name"
  using recsAt_empty [of enc db zone name] setIs_records [of enc db zone name ns]
  by (auto simp: setIs_def inUse_def Exists_def within_def)

lemma ofType_nonempty: "filterType u rs t \<noteq> [] \<longleftrightarrow> ofType u t (mset rs) \<noteq> {#}"
  by (metis mset_filterType mset_zero_iff)

lemma inUse_recs: "\<not> inUse db zone name \<Longrightarrow> recsAt enc db zone name = {#}"
  by (auto simp: recsAt_empty inUse_def)

lemma closest_here:
  assumes "IndexByte n CHR ''.'' = Some i" "within n zone" "n \<noteq> zone" "drop (i + 1) n = zone \<or> inUse db zone (drop (i + 1) n)"
  shows "closest db zone n (drop (i + 1) n)"
proof -
  have "length (drop (i + 1) n) < length n" using IndexByte_Some [OF assms(1)] by auto
  then have "drop (i + 1) n \<noteq> n" by (metis less_irrefl)
  then show ?thesis using assms within_drop [OF assms(1)] unfolding closest_def by (metis within_refl)
qed

lemma closest_up:
  assumes "IndexByte n CHR ''.'' = Some i" "within n zone" "n \<noteq> zone" "\<not> inUse db zone (drop (i + 1) n)"
    and "closest db zone (drop (i + 1) n) e"
  shows "closest db zone n e"
proof -
  have "within n e'" if "within (drop (i + 1) n) e'" for e' using that within_drop [OF assms(1)] by metis
  moreover have "e \<noteq> n"
  proof
    assume "e = n"
    then obtain p where "drop (i + 1) n = p @ n" using assms(5) within_suffix unfolding closest_def by blast
    then have "length (drop (i + 1) n) \<ge> length n" by simp
    then show False using IndexByte_Some [OF assms(1)] by auto
  qed
  ultimately show ?thesis using assms(4,5) within_drop [OF assms(1)] unfolding closest_def by metis
qed

text \<open>The right answers determine the records and the names in use.\<close>

lemma setIs_determines:
  assumes "setIs enc db = setIs enc db'"
  shows "recsAt enc db = recsAt enc db'" "inUse db = inUse db'" "closest db = closest db'" "encloserIs enc u db = encloserIs enc u db'"
    "matchIs enc u db = matchIs enc u db'"
proof -
  have "\<exists>ns. setIs enc db zone name ns" for zone name
  proof -
    let ?rs = "map (scanRecord enc) (filter (\<lambda>w. w_zone w = zone \<and> w_name w = name) (d_records db))"
    have "setIs enc db zone name \<lparr>n_Records = ?rs, n_HasChildren =
        (?rs = [] \<and> (\<exists>w \<in> set (d_records db). w_zone w = zone \<and> HasSuffix (w_name w) (''.'' @ name)))\<rparr>"
      by (simp add: setIs_def)
    then show ?thesis by blast
  qed
  then show r: "recsAt enc db = recsAt enc db'" and i: "inUse db = inUse db'"
    unfolding fun_eq_iff by (metis assms setIs_records, metis assms setIs_Exists)
  show c: "closest db = closest db'" unfolding fun_eq_iff closest_def i by simp
  show e: "encloserIs enc u db = encloserIs enc u db'" unfolding fun_eq_iff encloserIs_def r by simp
  show "matchIs enc u db = matchIs enc u db'" unfolding fun_eq_iff matchIs_def r i c e by simp
qed

lemma encloserIs_here:
  assumes "setIs enc db zone e ns"
  shows "encloserIs enc u db zone e
    (if e \<noteq> zone \<and> filterType u (n_Records ns) TypeNS \<noteq> [] then Some (zero_match\<lparr>m_cutName := e, m_cut := filterType u (n_Records ns) TypeNS\<rparr>)
     else if e \<noteq> zone \<and> filterType u (n_Records ns) TypeDNAME \<noteq> []
       then Some (zero_match\<lparr>m_dname := Some (filterType u (n_Records ns) TypeDNAME ! 0), m_dnameAt := e\<rparr>)
     else None)"
proof -
  note r = setIs_records [OF assms, symmetric]
  have "filterType u (n_Records ns) TypeDNAME \<noteq> [] \<Longrightarrow>
      filterType u (n_Records ns) TypeDNAME ! 0 \<in># ofType u TypeDNAME (recsAt enc db zone e)"
    unfolding r mset_filterType [symmetric] set_mset_mset by (intro nth_mem) simp
  then show ?thesis
    unfolding encloserIs_def Let_def r by (auto simp: ofType_nonempty cutIs_def dnameIs_def zero_match_def)
qed

lemma matchIs_up:
  assumes "recsAt enc db zone name = {#}" "\<not> inUse db zone name" "name \<noteq> zone" "closest db zone name e"
    and "encloserIs enc u db zone e mo"
    and "case mo of Some m' \<Rightarrow> m = m'
         | None \<Rightarrow> if recsAt enc db zone (''*.'' @ e) \<noteq> {#} then foundIs (recsAt enc db zone (''*.'' @ e)) m else m = zero_match"
  shows "matchIs enc u db zone name qtype m"
proof -
  have "\<not> recsAt enc db zone name \<noteq> {#}" "\<not> (inUse db zone name \<or> name = zone)" using assms(1-3) by simp_all
  then show ?thesis unfolding matchIs_def Let_def
    by (simp only: if_False not_False_eq_True) (intro exI [of _ e] exI [of _ mo] conjI assms(4-6))
qed

section \<open>A resolver of a database\<close>

text \<open>A resolver whose right answers are those of a database.\<close>

locale db_resolver = resolver_spec R ok "\<lambda>s. zoneIs u (dbOf s)" "\<lambda>s. setIs enc (dbOf s)"
  for R :: "'s resolver" and ok u enc and dbOf :: "'s \<Rightarrow> db"
begin

lemma lookup_loop_refines:
  assumes "lookup_loop R u zone s name = (out, s')" "ok s" "NUL \<notin> set (z_Name zone)" "within name (z_Name zone)" "name \<noteq> z_Name zone"
  shows "ok s' \<and> zoneIs u (dbOf s') = zoneIs u (dbOf s) \<and> setIs enc (dbOf s') = setIs enc (dbOf s) \<and>
    (\<forall>mo e. out = Inr (mo, e) \<longrightarrow> closest (dbOf s) (z_Name zone) name e \<and> encloserIs enc u (dbOf s) (z_Name zone) e mo)"
  using assms
proof (induction "length name" arbitrary: name s rule: less_induct)
  case less
  obtain i where i: "IndexByte name CHR ''.'' = Some i"
    using less.prems(4,5) within_no_dot by (cases "IndexByte name CHR ''.''") auto
  let ?e = "drop (i + 1) name"
  obtain out1 s1 where l: "rs_LookupName R s (z_Name zone) ?e = (out1, s1)" by fastforce
  note spec = lookup_specD [OF less.prems(2,3) l]
  have up: "within ?e (z_Name zone)" using less.prems(4,5) within_drop [OF i] by metis
  show ?case
  proof (cases out1)
    case (Inl e)
    then show ?thesis using less.prems(1,5) i l spec(1-3) by (auto simp: lookup_loop.simps [of R u zone s name])
  next
    case (Inr ns)
    note set = spec(4) [OF Inr up]
    note here = encloserIs_here [OF set, of u]
    show ?thesis
    proof (cases "?e = z_Name zone \<or> Exists ns")
      case True
      then have "closest (dbOf s) (z_Name zone) name ?e"
        using closest_here [OF i less.prems(4,5)] setIs_Exists [OF set] by blast
      then show ?thesis using True less.prems(1,5) i l Inr spec(1-3) here
        by (auto simp: lookup_loop.simps [of R u zone s name] Let_def split: if_splits)
    next
      case False
      then have none: "n_Records ns = []" by (auto simp: Exists_def)
      have rec: "lookup_loop R u zone s1 ?e = (out, s')"
        using False none less.prems(1,5) i l Inr
        by (simp add: lookup_loop.simps [of R u zone s name] filterType_def)
      have "length ?e < length name" using IndexByte_Some [OF i] by auto
      note IH = less.hyps [OF this rec spec(1) less.prems(3) up]
      have "closest (dbOf s) (z_Name zone) ?e e \<Longrightarrow> closest (dbOf s) (z_Name zone) name e" for e
        using closest_up [OF i less.prems(4,5)] setIs_Exists [OF set] False by blast
      then show ?thesis using IH False spec(2,3) setIs_determines [OF spec(3)] by metis
    qed
  qed
qed

lemma lookup_refines:
  assumes "lookup R u zone s name qtype = (out, s')" "ok s" "NUL \<notin> set (z_Name zone)" "within name (z_Name zone)"
  shows "ok s' \<and> zoneIs u (dbOf s') = zoneIs u (dbOf s) \<and> setIs enc (dbOf s') = setIs enc (dbOf s) \<and>
    (\<forall>m. out = Inr m \<longrightarrow> matchIs enc u (dbOf s) (z_Name zone) name qtype m)"
proof -
  let ?Z = "z_Name zone"
  obtain out1 s1 where l: "rs_LookupName R s ?Z name = (out1, s1)" by fastforce
  note spec = lookup_specD [OF assms(2,3) l]
  show ?thesis
  proof (cases out1)
    case (Inl e)
    then show ?thesis using assms(1) l spec(1-3) by (auto simp: lookup_def)
  next
    case (Inr ns)
    note set = spec(4) [OF Inr assms(4)]
    note r = setIs_records [OF set, symmetric] and i = setIs_Exists [OF set, symmetric]
    consider (here) "n_Records ns \<noteq> []" | (used) "n_Records ns = []" "n_HasChildren ns \<or> name = ?Z"
      | (up) "n_Records ns = []" "\<not> n_HasChildren ns" "name \<noteq> ?Z" by blast
    then show ?thesis
    proof cases
      case here
      then show ?thesis using assms(1) l Inr spec(1-3)
        by (auto simp: lookup_def matchIs_def Let_def r ofType_nonempty cutIs_def foundIs_def zero_match_def split: if_splits)
    next
      case used
      then show ?thesis using assms(1) l Inr spec(1-3)
        by (auto simp: lookup_def matchIs_def Let_def r i Exists_def)
    next
      case up
      obtain out2 s2 where loop: "lookup_loop R u zone s1 name = (out2, s2)" by fastforce
      note ref = lookup_loop_refines [OF loop spec(1) assms(3,4) up(3)]
      note same = setIs_determines [OF spec(3)]
      have none: "recsAt enc (dbOf s) ?Z name = {#}" "\<not> inUse (dbOf s) ?Z name" using up by (simp_all add: r i Exists_def)
      show ?thesis
      proof (cases out2)
        case (Inl e)
        then show ?thesis using assms(1) l Inr up loop ref spec(2,3) by (auto simp: lookup_def)
      next
        case out2: (Inr p)
        obtain mo e where p: "p = (mo, e)" by fastforce
        have c: "closest (dbOf s) ?Z name e" "encloserIs enc u (dbOf s) ?Z e mo"
          using ref out2 unfolding p same by blast+
        show ?thesis
        proof (cases mo)
          case (Some m')
          then have "matchIs enc u (dbOf s) ?Z name qtype m'" using c by (intro matchIs_up [OF none up(3) c]) simp
          then show ?thesis using Some assms(1) l Inr up loop ref spec(2,3) out2 p by (auto simp: lookup_def)
        next
          case None
          obtain out3 s3 where w: "rs_LookupName R s2 ?Z (''*.'' @ e) = (out3, s3)" by fastforce
          have "within (''*.'' @ e) ?Z" using c(1) by (auto simp: closest_def within_def HasSuffix_iff)
          note wild = lookup_specD [OF conjunct1 [OF ref] assms(3) w]
          have "setIs enc (dbOf s) ?Z (''*.'' @ e) ns'" if "out3 = Inr ns'" for ns'
            using wild(4) [OF that \<open>within (''*.'' @ e) ?Z\<close>] ref spec(3) by simp
          note rw = setIs_records [OF this]
          have m: "matchIs enc u (dbOf s) ?Z name qtype (if n_Records ns' \<noteq> [] then zero_match\<lparr>m_records := n_Records ns', m_exists := True\<rparr> else zero_match)"
            if "out3 = Inr ns'" for ns'
            using None rw [OF that, symmetric]
            by (intro matchIs_up [OF none up(3) c]) (auto simp: foundIs_def zero_match_def)
          show ?thesis using assms(1) l Inr up loop ref spec(2,3) out2 p None w wild(1-3) m
            by (cases out3) (auto simp: lookup_def split: if_splits)
        qed
      qed
    qed
  qed
qed

end

interpretation std: db_resolver "storeResolver u enc" storeOk u enc ss_db for u enc
  by unfold_locales

interpretation csd: db_resolver "cachedResolver (storeResolver u enc)"
    "csInv storeOk (\<lambda>s. zoneIs u (ss_db s)) (\<lambda>s. setIs enc (ss_db s))" u enc "\<lambda>s. ss_db (cr_next (cs_res s))" for u enc
  by unfold_locales

end
