(* ===== verification/Handler_Props.thy ===== *)
theory Handler_Props
  imports Handler_Refinement
begin

text \<open>
  The properties of the handler: responses mirror queries and failures leave nothing behind, whatever the
  resolver; with a resolver of a database, answers, referrals and denials are those of the database.
\<close>


section \<open>Standard queries\<close>

text \<open>The queries that reach the resolver, the name looked up and the owner of the answers.\<close>

definition standard :: "message \<Rightarrow> question \<Rightarrow> bool" where
  "standard req q = (Opcode req = 0 \<and> Questions req = [q] \<and> (q_Class q = ClassIN \<or> q_Class q = ClassANY) \<and>
     q_Type q \<notin> {TypeOPT, TypeAXFR, typeIXFR})"

definition ownerOf :: "question \<Rightarrow> string" where
  "ownerOf q = TrimSuffix (q_Name q) ''.''"

definition qnameOf :: "unicode_case \<Rightarrow> question \<Rightarrow> string" where
  "qnameOf u q = ToLower u (ownerOf q)"

definition firstResponse :: "message \<Rightarrow> message" where
  "firstResponse req = (NewResponse req)\<lparr>Flags := Flags (NewResponse req) OR FlagAA\<rparr>"

lemma firstResponse_fields [simp]:
  "Answers (firstResponse req) = []" "Authority (firstResponse req) = []" "Additional (firstResponse req) = []"
  "AA (firstResponse req)" "Rcode (firstResponse req) = 0"
proof -
  have "Rcode (NewResponse req) = 0" using NewResponse_mirrors_query [of req] by blast
  then show "Rcode (firstResponse req) = 0" unfolding firstResponse_def Rcode_simps .
  show "AA (firstResponse req)" unfolding firstResponse_def by (rule AA_simps)
qed (simp_all add: firstResponse_def)

lemma Handle_standard:
  assumes "standard req q" "qnameOf u q \<noteq> []"
  shows "Handle R u h req =
    (case rs_FindZone R (hs_res h) (qnameOf u q) of
       (Inl err, s) \<Rightarrow> (SetRcode (NewResponse req) (if err = ErrNotFound then RcodeRefused else RcodeServerFailure), h\<lparr>hs_res := s\<rparr>)
     | (Inr zone, s) \<Rightarrow>
         (case resolve R u (h\<lparr>hs_res := s\<rparr>) (firstResponse req) zone (qnameOf u q) (ownerOf q) (q_Type q) of
            (None, resp, h) \<Rightarrow> (resp, h)
          | (Some _, resp, h) \<Rightarrow>
              (SetRcode (clearAA (resp\<lparr>Answers := [], Authority := [], Additional := []\<rparr>)) RcodeServerFailure, h)))"
  using assms unfolding Handle_def Let_def standard_def qnameOf_def ownerOf_def firstResponse_def
  by (auto split: sum.splits prod.splits)

text \<open>How a query may end: without asking the resolver, without a zone, or resolved in a zone.\<close>

lemma Handle_cases:
  obtains (rejected) code where "code \<in> {1, 4, 5}" "Handle R u h req = (SetRcode (NewResponse req) code, h)"
  | (homeless) q e s code where "rs_FindZone R (hs_res h) q = (Inl e, s)" "code = (if e = ErrNotFound then 5 else 2)"
      "Handle R u h req = (SetRcode (NewResponse req) code, h\<lparr>hs_res := s\<rparr>)"
  | (resolved) q zone s e resp h' where "rs_FindZone R (hs_res h) (qnameOf u q) = (Inr zone, s)"
      "resolve R u (h\<lparr>hs_res := s\<rparr>) (firstResponse req) zone (qnameOf u q) (ownerOf q) (q_Type q) = (e, resp, h')"
      "Handle R u h req = ((if e = None then resp
         else SetRcode (clearAA (resp\<lparr>Answers := [], Authority := [], Additional := []\<rparr>)) RcodeServerFailure), h')"
proof (cases "\<exists>q. standard req q \<and> qnameOf u q \<noteq> []")
  case True
  then obtain q where q: "standard req q" "qnameOf u q \<noteq> []" by blast
  obtain out s where f: "rs_FindZone R (hs_res h) (qnameOf u q) = (out, s)" by fastforce
  show ?thesis
  proof (cases out)
    case (Inl e)
    then show ?thesis using f homeless by (simp add: Handle_standard [OF q])
  next
    case (Inr z)
    obtain e resp h' where "resolve R u (h\<lparr>hs_res := s\<rparr>) (firstResponse req) z (qnameOf u q) (ownerOf q) (q_Type q) = (e, resp, h')"
      by (metis prod_cases3)
    then show ?thesis using f Inr by (intro resolved) (auto simp: Handle_standard [OF q] split: option.splits)
  qed
next
  case False
  have "length (Questions req) = 1 \<Longrightarrow> Questions req = [Questions req ! 0]" by (cases "Questions req") auto
  then have "\<exists>code \<in> {1, 4, 5}. Handle R u h req = (SetRcode (NewResponse req) code, h)"
    using False by (auto simp: Handle_def Let_def standard_def qnameOf_def ownerOf_def)
  then show ?thesis using rejected by blast
qed

lemma NewResponse_clear [simp]: "Rcode (NewResponse req) = 0" "\<not> AA (NewResponse req)"
  using NewResponse_mirrors_query [of req] NewResponse_flag_bits [of 10 req] by (auto simp: AA_def)

lemma resolve_first:
  "resolve R u h resp zone name owner qtype =
    (case resolve_turn R u h resp zone name owner qtype of
       (Done e, resp, h) \<Rightarrow> (e, resp, h)
     | (Continue z n w, resp, h) \<Rightarrow> resolve_loop maxChain R u h resp z n w qtype)"
  unfolding resolve_def Suc_eq_plus1 [symmetric] resolve_loop.simps ..

lemma zoneIs_unique: "zoneIs u db q r \<Longrightarrow> zoneIs u db q r' \<Longrightarrow> r = r'"
  by (simp add: zoneIs_def)

text \<open>What became of a query that did not fail: the first turn, on the match that the database determines,
  made the response, or it was followed by others and left an answer.\<close>

definition firstTurn ::
  "'s resolver \<Rightarrow> encoder option \<Rightarrow> unicode_case \<Rightarrow> db \<Rightarrow> 's hstate \<Rightarrow> message \<Rightarrow> question \<Rightarrow> zone \<Rightarrow> matched \<Rightarrow> message \<Rightarrow> bool" where
  "firstTurn R enc u db h req q zone m resp =
    (matchIs enc u db (z_Name zone) (qnameOf u q) (q_Type q) m \<and>
     (case matchTurn R u h (firstResponse req) zone (qnameOf u q) (ownerOf q) (q_Type q) m of
        (Done e, resp', h') \<Rightarrow> e = None \<and> resp = resp'
      | (Continue _ _ _, resp', h') \<Rightarrow> Answers resp \<noteq> []))"

context db_resolver
begin

lemma Handle_firstTurn:
  assumes "ok (hs_res h)" "standard req q" "qnameOf u q \<noteq> []" "Handle R u h req = (resp, h')" "Rcode resp \<noteq> RcodeServerFailure"
    and "zoneIs u (dbOf (hs_res h)) (qnameOf u q) (Some zone)" "within (qnameOf u q) (z_Name zone)"
  shows "\<exists>s m. ok s \<and> zoneIs u (dbOf s) = zoneIs u (dbOf (hs_res h)) \<and> setIs enc (dbOf s) = setIs enc (dbOf (hs_res h)) \<and>
    firstTurn R enc u (dbOf (hs_res h)) (h\<lparr>hs_res := s\<rparr>) req q zone m resp"
proof -
  obtain out s1 where f: "rs_FindZone R (hs_res h) (qnameOf u q) = (out, s1)" by fastforce
  note find = find_specD [OF assms(1) f]
  have out: "out = Inr zone"
  proof (cases out)
    case (Inl e)
    then have "e \<noteq> ErrNotFound" using find(5) assms(6) zoneIs_unique by fastforce
    then show ?thesis using assms(4,5) Inl f by (auto simp: Handle_standard [OF assms(2,3)])
  next
    case (Inr z)
    then show ?thesis using find(4) [OF Inr] assms(6) zoneIs_unique by fastforce
  qed
  obtain out2 s2 where l: "lookup R u zone s1 (qnameOf u q) (q_Type q) = (out2, s2)" by fastforce
  note look = lookup_refines [OF l find(1) zone_text [OF assms(1,6)] assms(7)]
  have h: "Handle R u h req =
     (case resolve R u (h\<lparr>hs_res := s1\<rparr>) (firstResponse req) zone (qnameOf u q) (ownerOf q) (q_Type q) of
            (None, resp, h) \<Rightarrow> (resp, h)
          | (Some _, resp, h) \<Rightarrow>
              (SetRcode (clearAA (resp\<lparr>Answers := [], Authority := [], Additional := []\<rparr>)) RcodeServerFailure, h))"
    unfolding Handle_standard [OF assms(2,3)] f out by simp
  show ?thesis
  proof (cases out2)
    case (Inl e)
    then show ?thesis using assms(4,5) l unfolding h by (auto simp: resolve_first resolve_turn_def)
  next
    case (Inr m)
    obtain t resp1 h1 where t: "matchTurn R u (h\<lparr>hs_res := s2\<rparr>) (firstResponse req) zone (qnameOf u q) (ownerOf q) (q_Type q) m = (t, resp1, h1)"
      by (metis prod_cases3)
    have turn: "resolve_turn R u (h\<lparr>hs_res := s1\<rparr>) (firstResponse req) zone (qnameOf u q) (ownerOf q) (q_Type q) = (t, resp1, h1)"
      using l Inr t by (simp add: resolve_turn_def)
    have "firstTurn R enc u (dbOf (hs_res h)) (h\<lparr>hs_res := s2\<rparr>) req q zone m resp"
    proof (cases t)
      case (Done e)
      then show ?thesis using look Inr assms(4,5) t find(2,3) setIs_determines(5) [OF find(3)] unfolding h resolve_first turn
        by (auto simp: firstTurn_def split: option.splits)
    next
      case (Continue z n w)
      have "Answers resp1 \<noteq> []"
        using matchTurn_ok [of "firstResponse req" R u "h\<lparr>hs_res := s2\<rparr>" zone "qnameOf u q" "ownerOf q" "q_Type q" m] t Continue
        by (auto simp: turnOk_def)
      then have "Answers resp \<noteq> []"
        using assms(4,5) resolve_loop_ok [of resp1 maxChain R u h1 z n w "q_Type q"] Continue unfolding h resolve_first turn
        by (auto split: option.splits prod.splits)
      then show ?thesis using look Inr t Continue setIs_determines(5) [OF find(3)] by (simp add: firstTurn_def)
    qed
    then show ?thesis using look find(2,3) by metis
  qed
qed

end

section \<open>Denials, answers and referrals\<close>

text \<open>The database has no such name: it is not in use, and at its closest encloser there is neither a
  delegation nor a DNAME nor a wildcard.\<close>

definition noSuchName :: "encoder option \<Rightarrow> unicode_case \<Rightarrow> db \<Rightarrow> string \<Rightarrow> string \<Rightarrow> bool" where
  "noSuchName enc u db zone name =
    (\<not> inUse db zone name \<and> name \<noteq> zone \<and>
     (\<exists>e. closest db zone name e \<and> recsAt enc db zone (''*.'' @ e) = {#} \<and>
       (e = zone \<or> ofType u TypeNS (recsAt enc db zone e) = {#} \<and> ofType u TypeDNAME (recsAt enc db zone e) = {#})))"

lemma closest_unique: "closest db zone name e \<Longrightarrow> closest db zone name e' \<Longrightarrow> e = e'"
proof -
  assume e: "closest db zone name e" and e': "closest db zone name e'"
  have le: "within e e'" if "closest db zone name e" "closest db zone name e'" for e e'
  proof (cases "inUse db zone e'")
    case True
    then show ?thesis using that unfolding closest_def by blast
  next
    case False
    then have "e' = zone" using that(2) unfolding closest_def by blast
    then show ?thesis using that(1) unfolding closest_def by blast
  qed
  show ?thesis using le [OF e e'] le [OF e' e] by (rule within_antisym)
qed

lemma encloserIs_None:
  "encloserIs enc u db zone e None \<longleftrightarrow>
    e = zone \<or> ofType u TypeNS (recsAt enc db zone e) = {#} \<and> ofType u TypeDNAME (recsAt enc db zone e) = {#}"
  by (auto simp: encloserIs_def Let_def)

lemma noSuchName_at:
  assumes "closest db zone name e"
  shows "noSuchName enc u db zone name \<longleftrightarrow>
    \<not> inUse db zone name \<and> name \<noteq> zone \<and> recsAt enc db zone (''*.'' @ e) = {#} \<and> encloserIs enc u db zone e None"
proof -
  have "closest db zone name e' \<longleftrightarrow> e' = e" for e' using assms closest_unique by blast
  then show ?thesis unfolding noSuchName_def encloserIs_None by simp
qed

lemma matchIs_absent:
  assumes "matchIs enc u db zone name qtype m"
  shows "m = zero_match \<longleftrightarrow> noSuchName enc u db zone name"
proof -
  have ne: "\<not> cutIs n rs zero_match" if "rs \<noteq> {#}" for n rs using that by (auto simp: cutIs_def zero_match_def)
  have nf: "\<not> foundIs rs zero_match" "\<not> dnameIs n ds zero_match" for rs n ds
    by (auto simp: foundIs_def dnameIs_def zero_match_def)
  have nz: "zero_match\<lparr>m_exists := True\<rparr> \<noteq> zero_match" by (simp add: zero_match_def)
  consider (here) "recsAt enc db zone name \<noteq> {#}"
    | (used) "recsAt enc db zone name = {#}" "inUse db zone name \<or> name = zone"
    | (up) e mo where "recsAt enc db zone name = {#}" "\<not> inUse db zone name" "name \<noteq> zone" "closest db zone name e"
        "encloserIs enc u db zone e mo"
        "case mo of Some m' \<Rightarrow> m = m' | None \<Rightarrow> if recsAt enc db zone (''*.'' @ e) \<noteq> {#} then foundIs (recsAt enc db zone (''*.'' @ e)) m else m = zero_match"
    using assms unfolding matchIs_def Let_def by (metis (lifting))
  then show ?thesis
  proof cases
    case here
    then show ?thesis using assms ne nf inUse_recs [of db zone name enc]
      by (auto simp: matchIs_def Let_def noSuchName_def split: if_splits)
  next
    case used
    then have "m = zero_match\<lparr>m_exists := True\<rparr>" using assms by (simp add: matchIs_def)
    then have "m \<noteq> zero_match" using nz by simp
    moreover have "\<not> noSuchName enc u db zone name" using used(2) unfolding noSuchName_def by blast
    ultimately show ?thesis by simp
  next
    case up
    note at = noSuchName_at [OF up(4), of enc u]
    show ?thesis
    proof (cases mo)
      case None
      then show ?thesis using up nf(1) unfolding at by (cases "recsAt enc db zone (''*.'' @ e) = {#}") auto
    next
      case (Some m')
      then have "m \<noteq> zero_match" "\<not> encloserIs enc u db zone e None"
        using up(5,6) ne nf by (auto simp: encloserIs_def Let_def split: if_splits)
      then show ?thesis unfolding at by simp
    qed
  qed
qed

lemma negative_Authority:
  "Authority (negative resp zone e) = Authority resp @ (case soaRR zone of Inr soa \<Rightarrow> [soa] | Inl _ \<Rightarrow> [])"
  by (auto simp: negative_def Let_def soaRR_def split: sum.splits)

lemma matchTurn_zero:
  assumes "name \<noteq> z_Name zone" "Answers resp = []"
  shows "matchTurn R u h resp zone name owner qtype zero_match = (Done None, negative resp zone False, h)"
proof -
  have "resp\<lparr>Answers := []\<rparr> = resp" using assms(2) by (intro message.equality) simp_all
  then have "negative (resp\<lparr>Answers := []\<rparr>) zone False = negative resp zone False" by (rule arg_cong)
  then show ?thesis using assms by (simp add: matchTurn_def zero_match_def answerTurn_def Let_def filterType_def appendSet_def)
qed

lemma matchIs_shape:
  assumes "matchIs enc u db zone name qtype m" "m_cut m = []" "m_dname m = None" "\<not> m_exists m"
  shows "m = zero_match"
proof -
  have c: "\<not> cutIs n rs m" if "rs \<noteq> {#}" for n rs using that assms(2) by (auto simp: cutIs_def)
  have f: "\<not> foundIs rs m" "\<not> dnameIs n rs m" for rs n
  proof -
    have "m_exists (zero_match\<lparr>m_records := rs', m_exists := True\<rparr>)" for rs' by simp
    then show "\<not> foundIs rs m" using assms(4) unfolding foundIs_def by metis
    have "m_dname (zero_match\<lparr>m_dname := Some d, m_dnameAt := n\<rparr>) = Some d" for d by simp
    then show "\<not> dnameIs n rs m" using assms(3) unfolding dnameIs_def by (metis option.distinct(1))
  qed
  have e: "m \<noteq> zero_match\<lparr>m_exists := True\<rparr>" using assms(4) by auto
  show ?thesis using assms(1) c f e by (auto simp: matchIs_def encloserIs_def Let_def split: if_splits option.splits)
qed

lemma matchTurn_nxdomain:
  assumes "matchTurn R u h resp zone name owner qtype m = (t, resp', h')" "Rcode resp = 0" "Rcode resp' = RcodeNXDomain"
  shows "m_cut m = [] \<and> m_dname m = None \<and> \<not> m_exists m"
proof -
  have rc: "Rcode (fst (snd (answerTurn R u h resp zone name owner qtype m))) = 0" if "m_exists m"
    using that assms(2) by (simp add: answerTurn_def Let_def case_prod_beta split: sum.splits)
  have rd: "Rcode (fst (snd (dnameTurn R u h resp name owner d at))) \<noteq> 3" for d at
    using assms(2) by (simp add: dnameTurn_def Let_def case_prod_beta split: option.splits)
  have resp': "resp' = fst (snd (matchTurn R u h resp zone name owner qtype m))" using assms(1) by simp
  show ?thesis using assms(2,3) rc rd unfolding resp'
    by (auto simp: matchTurn_def Let_def case_prod_beta split: option.splits if_splits)
qed

text \<open>The records served for a multiset of records.\<close>

definition served :: "unicode_case \<Rightarrow> string \<Rightarrow> srecord multiset \<Rightarrow> rr multiset" where
  "served u owner rs = image_mset (rrOf u owner) (filter_mset (servable u) rs)"

lemma mset_rrsOf: "mset (rrsOf u owner rs) = served u owner (mset rs)"
  by (simp add: rrsOf_def served_def)

text \<open>A delegation of a name: at the name itself, unless it is the top of the zone or the query is for DS
  records, or at its closest encloser.\<close>

definition delegated :: "encoder option \<Rightarrow> unicode_case \<Rightarrow> db \<Rightarrow> string \<Rightarrow> string \<Rightarrow> u16 \<Rightarrow> string \<Rightarrow> bool" where
  "delegated enc u db zone name qtype at =
    (at \<noteq> zone \<and> ofType u TypeNS (recsAt enc db zone at) \<noteq> {#} \<and>
     (at = name \<and> qtype \<noteq> TypeDS \<or> \<not> inUse db zone name \<and> name \<noteq> zone \<and> closest db zone name at))"

lemma matchIs_found:
  assumes "matchIs enc u db zone name qtype m" "ofType u qtype (recsAt enc db zone name) \<noteq> {#}" "\<not> delegated enc u db zone name qtype name"
  shows "foundIs (recsAt enc db zone name) m"
proof -
  have "recsAt enc db zone name \<noteq> {#}" using assms(2) by (auto simp: ofType_def)
  then show ?thesis using assms(1,3) by (auto simp: matchIs_def delegated_def Let_def split: if_splits)
qed

lemma matchIs_cut:
  assumes "matchIs enc u db zone name qtype m" "delegated enc u db zone name qtype at"
  shows "cutIs at (ofType u TypeNS (recsAt enc db zone at)) m"
proof (cases "at = name \<and> qtype \<noteq> TypeDS")
  case True
  then have "recsAt enc db zone name \<noteq> {#}" using assms(2) by (auto simp: ofType_def delegated_def)
  then show ?thesis using assms True by (auto simp: matchIs_def delegated_def Let_def)
next
  case False
  then have d: "\<not> inUse db zone name" "name \<noteq> zone" "closest db zone name at" "at \<noteq> zone" "ofType u TypeNS (recsAt enc db zone at) \<noteq> {#}"
    using assms(2) unfolding delegated_def by blast+
  have c: "closest db zone name e \<longleftrightarrow> e = at" for e using d(3) closest_unique by blast
  show ?thesis using assms(1) d(1,2,4,5) inUse_recs [OF d(1), of enc] unfolding matchIs_def Let_def c
    by (auto simp: encloserIs_def Let_def)
qed

text \<open>An additional record: the address of a host that one of the records names, in the zone.\<close>

definition glueIs :: "encoder option \<Rightarrow> unicode_case \<Rightarrow> db \<Rightarrow> string \<Rightarrow> srecord list \<Rightarrow> rr \<Rightarrow> bool" where
  "glueIs enc u db zone rs x =
    (within (rr_Name x) zone \<and> (\<exists>r \<in> set rs. rr_Name x = ToLower u (RDataNames (TypeCode u (r_Type r)) (wireOf u r))) \<and>
     (\<exists>a. a \<in># recsAt enc db zone (rr_Name x) \<and> (r_Type a = ''A'' \<or> r_Type a = ''AAAA'') \<and> servable u a \<and> x = rrOf u (rr_Name x) a))"

lemma foldl_glue:
  "foldl (\<lambda>sec a. if P a then appendRR u sec owner a else sec) sec rs = sec @ rrsOf u owner (filter P rs)"
  by (induction rs arbitrary: sec) (auto simp: appendRR_eq rrsOf_def)

lemma inZone_within: "inZone = within"
  by (simp add: fun_eq_iff inZone_def within_def)

lemma card_names_le:
  assumes "rr_Name ` set xs \<subseteq> {n}" "card (rr_Name ` set ys) \<le> k"
  shows "card (rr_Name ` set (xs @ ys)) \<le> Suc k"
proof -
  have "card (rr_Name ` set xs) \<le> 1" using card_mono [OF _ assms(1)] by simp
  moreover have "card (rr_Name ` set (xs @ ys)) \<le> card (rr_Name ` set xs) + card (rr_Name ` set ys)"
    unfolding set_append image_Un by (rule card_Un_le)
  ultimately show ?thesis using assms(2) by simp
qed

context db_resolver
begin

lemma addGlue_loop_ok:
  assumes "ok s" "NUL \<notin> set (z_Name zone)" "addGlue_loop R u zone seen add s rs = (add', s')"
  shows "\<exists>glue. add' = add @ glue \<and> card (rr_Name ` set glue) \<le> maxAdditional - length seen \<and>
    (\<forall>x \<in> set glue. glueIs enc u (dbOf s) (z_Name zone) rs x)"
  using assms
proof (induction rs arbitrary: seen add s)
  case (Cons r rs)
  let ?t = "ToLower u (RDataNames (TypeCode u (r_Type r)) (wireOf u r))"
  have mono: "glueIs enc u db Z rs x \<Longrightarrow> glueIs enc u db Z (r # rs) x" for db Z x by (auto simp: glueIs_def)
  consider (stop) "maxAdditional \<le> length seen" | (skip) "length seen < maxAdditional" "?t = [] \<or> \<not> within ?t (z_Name zone) \<or> ?t \<in> set seen"
    | (look) "length seen < maxAdditional" "?t \<noteq> []" "within ?t (z_Name zone)" "?t \<notin> set seen" by linarith
  then show ?case
  proof cases
    case stop
    then show ?thesis using Cons.prems(3) by auto
  next
    case skip
    then have "addGlue_loop R u zone seen add s rs = (add', s')" using Cons.prems(3) by (auto simp: inZone_within Let_def split: if_splits)
    then show ?thesis using Cons.IH [OF Cons.prems(1,2)] mono by meson
  next
    case look
    obtain out s1 where l: "rs_LookupName R s (z_Name zone) ?t = (out, s1)" by fastforce
    note spec = lookup_specD [OF Cons.prems(1,2) l]
    note IH = Cons.IH [OF spec(1) Cons.prems(2), of "?t # seen"]
    have glue: "glueIs enc u (dbOf s1) = glueIs enc u (dbOf s)"
      unfolding fun_eq_iff glueIs_def setIs_determines(1) [OF spec(3)] by simp
    show ?thesis
    proof (cases out)
      case (Inl e)
      then have "addGlue_loop R u zone (?t # seen) add s1 rs = (add', s')" using Cons.prems(3) look l by (simp add: inZone_within Let_def)
      then obtain glue where "add' = add @ glue" "card (rr_Name ` set glue) \<le> maxAdditional - Suc (length seen)"
          "\<forall>x \<in> set glue. glueIs enc u (dbOf s) (z_Name zone) rs x"
        using IH unfolding glue by auto
      then show ?thesis using mono by (intro exI [of _ glue]) auto
    next
      case (Inr ns)
      let ?P = "\<lambda>a. r_Type a = ''A'' \<or> r_Type a = ''AAAA''"
      let ?new = "rrsOf u ?t (filter ?P (n_Records ns))"
      have "addGlue_loop R u zone (?t # seen) (add @ ?new) s1 rs = (add', s')"
        using Cons.prems(3) look l Inr by (simp add: inZone_within Let_def foldl_glue)
      then obtain glue where g: "add' = (add @ ?new) @ glue" "card (rr_Name ` set glue) \<le> maxAdditional - Suc (length seen)"
          "\<forall>x \<in> set glue. glueIs enc u (dbOf s) (z_Name zone) rs x"
        using IH unfolding glue by fastforce
      have new: "glueIs enc u (dbOf s) (z_Name zone) (r # rs) x \<and> rr_Name x = ?t" if "x \<in> set ?new" for x
        using that setIs_records [OF spec(4) [OF Inr look(3)], symmetric] look(3)
        by (auto simp: glueIs_def rrsOf_def rrOf_def)
      have "card (rr_Name ` set (?new @ glue)) \<le> Suc (maxAdditional - Suc (length seen))"
        using new by (intro card_names_le [OF _ g(2), of _ ?t]) auto
      then show ?thesis using g(1,3) new mono look(1) by (intro exI [of _ "?new @ glue"]) auto
    qed
  qed
qed simp

end

lemma zoneIs_name: "zoneIs u db q (Some zone) \<Longrightarrow> within n (z_Name zone) \<Longrightarrow> n \<noteq> []"
proof -
  assume "zoneIs u db q (Some zone)"
  then have "zone \<in> enclosing db (NormalizeZone u q)" using longest_Some by (fastforce simp: zoneIs_def)
  then show "within n (z_Name zone) \<Longrightarrow> n \<noteq> []" by (auto simp: enclosing_def within_def HasSuffix_iff)
qed

lemma foundIs_fields: "foundIs rs m \<Longrightarrow> m_cut m = [] \<and> m_dname m = None \<and> mset (m_records m) = rs"
  by (cases m) (simp add: foundIs_def zero_match_def)

lemma cutIs_fields: "cutIs at rs m \<Longrightarrow> m_cutName m = at \<and> mset (m_cut m) = rs"
  by (cases m) (simp add: cutIs_def zero_match_def)

context db_resolver
begin

lemma denial:
  assumes "ok (hs_res h)" "standard req q" "Handle R u h req = (resp, h')" "Rcode resp \<noteq> RcodeServerFailure"
    and "zoneIs u (dbOf (hs_res h)) (qnameOf u q) (Some zone)" "within (qnameOf u q) (z_Name zone)"
  shows "(Rcode resp = RcodeNXDomain \<and> Answers resp = [] \<longleftrightarrow> noSuchName enc u (dbOf (hs_res h)) (z_Name zone) (qnameOf u q)) \<and>
    (noSuchName enc u (dbOf (hs_res h)) (z_Name zone) (qnameOf u q) \<longrightarrow>
       AA resp \<and> Additional resp = [] \<and> Authority resp = (case soaRR zone of Inr soa \<Rightarrow> [soa] | Inl _ \<Rightarrow> []))"
proof -
  obtain s m where t: "firstTurn R enc u (dbOf (hs_res h)) (h\<lparr>hs_res := s\<rparr>) req q zone m resp"
    using Handle_firstTurn [OF assms(1,2) zoneIs_name [OF assms(5,6)] assms(3-6)] by blast
  then have m: "matchIs enc u (dbOf (hs_res h)) (z_Name zone) (qnameOf u q) (q_Type q) m" by (simp add: firstTurn_def)
  have z: "m = zero_match" if "Rcode resp = RcodeNXDomain" "Answers resp = []"
    using t that matchTurn_nxdomain [of R u "h\<lparr>hs_res := s\<rparr>" "firstResponse req" zone "qnameOf u q" "ownerOf q" "q_Type q" m]
      matchIs_shape [OF m]
    by (auto simp: firstTurn_def split: prod.splits turn.splits)
  have n: "resp = negative (firstResponse req) zone False" if "m = zero_match"
    using t that matchIs_absent [OF m] unfolding noSuchName_def by (simp add: firstTurn_def matchTurn_zero)
  show ?thesis using z n matchIs_absent [OF m] by (auto simp: negative_Authority)
qed

lemma answer:
  assumes "ok (hs_res h)" "standard req q" "Handle R u h req = (resp, h')" "Rcode resp \<noteq> RcodeServerFailure"
    and "zoneIs u (dbOf (hs_res h)) (qnameOf u q) (Some zone)" "within (qnameOf u q) (z_Name zone)"
    and "rs = ofType u (q_Type q) (recsAt enc (dbOf (hs_res h)) (z_Name zone) (qnameOf u q))" "rs \<noteq> {#}"
    and "\<not> delegated enc u (dbOf (hs_res h)) (z_Name zone) (qnameOf u q) (q_Type q) (qnameOf u q)"
    and "q_Type q \<noteq> TypeANY" "\<not> (qnameOf u q = z_Name zone \<and> q_Type q = TypeSOA)"
  shows "mset (Answers resp) = served u (ownerOf q) rs \<and> Authority resp = [] \<and> AA resp \<and> Rcode resp = RcodeNoError"
proof -
  obtain s m where t: "firstTurn R enc u (dbOf (hs_res h)) (h\<lparr>hs_res := s\<rparr>) req q zone m resp"
    using Handle_firstTurn [OF assms(1,2) zoneIs_name [OF assms(5,6)] assms(3-6)] by blast
  then have "matchIs enc u (dbOf (hs_res h)) (z_Name zone) (qnameOf u q) (q_Type q) m" by (simp add: firstTurn_def)
  then have f: "foundIs (recsAt enc (dbOf (hs_res h)) (z_Name zone) (qnameOf u q)) m"
    using assms(7-9) by (intro matchIs_found) auto
  then have cut: "m_cut m = []" "m_dname m = None" using foundIs_fields by blast+
  have rs: "mset (filterType u (m_records m) (q_Type q)) = rs" using f assms(7) by (simp add: foundIs_def)
  then have ne: "filterType u (m_records m) (q_Type q) \<noteq> []" using assms(8) by (metis mset.simps(1))
  show ?thesis
    using t cut unfolding firstTurn_def matchTurn_def
    by (simp add: answerTurn_found [OF assms(10,11) refl ne] Let_def case_prod_beta appendSet_mset mset_rrsOf rs del: mset_filterType)
qed

lemma referral:
  assumes "ok (hs_res h)" "standard req q" "Handle R u h req = (resp, h')" "Rcode resp \<noteq> RcodeServerFailure"
    and "zoneIs u (dbOf (hs_res h)) (qnameOf u q) (Some zone)" "within (qnameOf u q) (z_Name zone)"
    and "delegated enc u (dbOf (hs_res h)) (z_Name zone) (qnameOf u q) (q_Type q) at"
    and "rs = ofType u TypeNS (recsAt enc (dbOf (hs_res h)) (z_Name zone) at)"
  shows "\<not> AA resp \<and> Rcode resp = RcodeNoError \<and> Answers resp = [] \<and> mset (Authority resp) = served u at rs \<and>
    card (rr_Name ` set (Additional resp)) \<le> maxAdditional \<and>
    (\<exists>ns. mset ns = rs \<and> (\<forall>x \<in> set (Additional resp). glueIs enc u (dbOf (hs_res h)) (z_Name zone) ns x))"
proof -
  obtain s m where t: "ok s" "setIs enc (dbOf s) = setIs enc (dbOf (hs_res h))" "firstTurn R enc u (dbOf (hs_res h)) (h\<lparr>hs_res := s\<rparr>) req q zone m resp"
    using Handle_firstTurn [OF assms(1,2) zoneIs_name [OF assms(5,6)] assms(3-6)] by blast
  then have "matchIs enc u (dbOf (hs_res h)) (z_Name zone) (qnameOf u q) (q_Type q) m" by (simp add: firstTurn_def)
  then have c: "cutIs at rs m" using assms(7,8) matchIs_cut by blast
  then have ne: "m_cut m \<noteq> []" "m_cutName m = at" "mset (m_cut m) = rs"
    using assms(7,8) cutIs_fields [OF c] by (auto simp: delegated_def)
  let ?resp = "(clearAA (firstResponse req))\<lparr>Authority := rrsOf u at (m_cut m)\<rparr>"
  have resp: "resp = fst (addGlue R u (h\<lparr>hs_res := s\<rparr>) ?resp zone (m_cut m))"
    using t(3) ne(1,2) by (simp add: firstTurn_def matchTurn_def Let_def case_prod_beta foldl_appendRR)
  obtain add' s' where g: "addGlue_loop R u zone [] [] s (m_cut m) = (add', s')" by fastforce
  have add: "Additional resp = add'" using g unfolding resp by (simp add: addGlue_def)
  have "card (rr_Name ` set add') \<le> maxAdditional \<and> (\<forall>x \<in> set add'. glueIs enc u (dbOf s) (z_Name zone) (m_cut m) x)"
    using addGlue_loop_ok [OF t(1) zone_text [OF assms(1,5)] g] by auto
  moreover have "glueIs enc u (dbOf s) = glueIs enc u (dbOf (hs_res h))"
    unfolding fun_eq_iff glueIs_def setIs_determines(1) [OF t(2)] by simp
  ultimately show ?thesis using ne(3) unfolding add by (auto simp: resp mset_rrsOf)
qed

end

section \<open>Whatever the resolver\<close>

unbundle bit_operations_syntax

lemma keepBits_bit: "keepBits f = keepBits g \<Longrightarrow> 4 \<le> n \<Longrightarrow> n \<noteq> 10 \<Longrightarrow> bit f n = bit g n"
proof -
  assume k: "keepBits f = keepBits g" and n: "4 \<le> n" "n \<noteq> 10"
  show "bit f n = bit g n"
  proof (cases "n < 16")
    case True
    then have "n \<in> {4, 5, 6, 7, 8, 9, 11, 12, 13, 14, 15}" using n unfolding insert_iff empty_iff by presburger
    then have "bit (NOT (15 :: u16)) n" "bit (NOT (FlagAA :: u16)) n" by (auto simp: bit_simps)
    then have "bit (keepBits w) n = bit w n" for w by (simp add: keepBits_def bit_and_iff)
    then show ?thesis using k by metis
  next
    case False
    then show ?thesis using bit_imp_le_length [of f n] bit_imp_le_length [of g n] by auto
  qed
qed

lemma Handle_frame:
  "sameFrame (NewResponse req) (fst (Handle R u h req)) \<and> Rcode (fst (Handle R u h req)) \<in> {0, 1, 2, 3, 4, 5}"
proof (cases rule: Handle_cases [of R u h req])
  case (resolved q zone s e resp h')
  have "sameFrame (firstResponse req) resp \<and> Rcode resp \<in> {0, 2, 3}"
    using resolve_loop_ok [of "firstResponse req" "maxChain + 1" R u "h\<lparr>hs_res := s\<rparr>" zone "qnameOf u q" "ownerOf q" "q_Type q"] resolved(2)
    by (simp add: resolve_def)
  moreover have "sameFrame (NewResponse req) (firstResponse req)" by (simp add: firstResponse_def)
  ultimately show ?thesis using resolved(3) sameFrame_trans by auto
qed auto

lemma lookup_loop_dname:
  assumes "lookup_loop R u zone s name = (Inr (Some m, e), s')" "m_dname m = Some d"
  shows "TypeCode u (r_Type d) = TypeDNAME"
  using assms
proof (induction "length name" arbitrary: name s rule: less_induct)
  case less
  obtain i where i: "name \<noteq> z_Name zone" "IndexByte name CHR ''.'' = Some i"
    using less.prems(1) by (subst (asm) lookup_loop.simps) (auto split: if_splits option.splits)
  obtain out s1 where l: "rs_LookupName R s (z_Name zone) (drop (i + 1) name) = (out, s1)" by fastforce
  obtain ns where ns: "out = Inr ns" using less.prems(1) i l by (cases out) (auto simp: lookup_loop.simps [of R u zone s name])
  let ?dn = "filterType u (n_Records ns) TypeDNAME"
  have dn: "TypeCode u (r_Type (?dn ! 0)) = TypeDNAME" if "?dn \<noteq> []"
  proof -
    have "?dn ! 0 \<in> set ?dn" using that by simp
    then show ?thesis by (simp add: filterType_def)
  qed
  have "length (drop (i + 1) name) < length name" using IndexByte_Some [OF i(2)] by auto
  note IH = less.hyps [OF this]
  show ?case using less.prems i l ns dn IH
    by (auto simp: lookup_loop.simps [of R u zone s name] Let_def zero_match_def split: if_splits)
qed

lemma lookup_dname:
  assumes "lookup R u zone s name qtype = (Inr m, s')" "m_dname m = Some d"
  shows "TypeCode u (r_Type d) = TypeDNAME"
  using assms lookup_loop_dname [of R u zone _ name m _ _ d]
  by (auto simp: lookup_def Let_def zero_match_def split: prod.splits sum.splits if_splits option.splits)

lemma dnameTurn_servfail:
  assumes "TypeCode u (r_Type d) = TypeDNAME" "Rcode resp \<noteq> RcodeServerFailure"
    and "Rcode (fst (snd (dnameTurn R u h resp name owner d at))) = RcodeServerFailure"
  shows "fst (dnameTurn R u h resp name owner d at) = Done None \<and>
    Answers (fst (snd (dnameTurn R u h resp name owner d at))) = Answers resp @ [rrOf u at d]"
proof -
  have "rrsOf u at [d] = [rrOf u at d]" if "RDataNames TypeDNAME (wireOf u d) \<noteq> []"
    using RDataNames_servable [OF that assms(1)] by (simp add: rrsOf_def)
  then show ?thesis using assms(2,3)
    by (auto simp: dnameTurn_def Let_def case_prod_beta appendRR_eq split: option.splits if_splits)
qed

lemma matchTurn_servfail:
  assumes "\<And>d. m_dname m = Some d \<Longrightarrow> TypeCode u (r_Type d) = TypeDNAME" "Rcode resp \<noteq> RcodeServerFailure"
    and "Rcode (fst (snd (matchTurn R u h resp zone name owner qtype m))) = RcodeServerFailure"
  shows "\<exists>d at. rr_Type (rrOf u at d) = TypeDNAME \<and> fst (matchTurn R u h resp zone name owner qtype m) = Done None \<and>
    Answers (fst (snd (matchTurn R u h resp zone name owner qtype m))) = Answers resp @ [rrOf u at d]"
proof -
  have a: "Rcode (fst (snd (answerTurn R u h resp zone name owner qtype m))) \<noteq> RcodeServerFailure"
    using assms(2) by (simp add: answerTurn_def Let_def case_prod_beta split: sum.splits)
  then obtain d where d: "m_cut m = []" "m_dname m = Some d"
    using assms(2,3) by (auto simp: matchTurn_def Let_def case_prod_beta split: if_splits option.splits)
  then show ?thesis using dnameTurn_servfail [OF assms(1) [OF d(2)] assms(2), where R = R and h = h] assms(1) [OF d(2)] assms(3)
    by (intro exI [of _ d] exI [of _ "m_dnameAt m"]) (auto simp: matchTurn_def rrOf_def)
qed

lemma resolve_loop_servfail:
  assumes "resolve_loop k R u h resp zone name owner qtype = (None, resp', h')"
    and "Rcode resp \<noteq> RcodeServerFailure" "Rcode resp' = RcodeServerFailure"
  shows "Answers resp' \<noteq> [] \<and> rr_Type (last (Answers resp')) = TypeDNAME"
  using assms
proof (induction k arbitrary: h resp zone name owner)
  case (Suc k)
  obtain t resp1 h1 where t: "resolve_turn R u h resp zone name owner qtype = (t, resp1, h1)" by (metis prod_cases3)
  show ?case
  proof (cases t)
    case (Continue z n w)
    then have "Rcode resp1 = Rcode resp" using t resolve_turn_ok [of resp R u h zone name owner qtype] by (simp add: turnOk_def)
    then show ?thesis using Suc.IH [of h1 resp1] Suc.prems t Continue by simp
  next
    case (Done e)
    then have *: "Rcode (fst (snd (resolve_turn R u h resp zone name owner qtype))) = RcodeServerFailure" "resp1 = resp'" using Suc.prems t by simp_all
    obtain m s where l: "lookup R u zone (hs_res h) name qtype = (Inr m, s)"
      using *(1) Suc.prems(2) by (auto simp: resolve_turn_def split: prod.splits sum.splits)
    then show ?thesis
      using matchTurn_servfail [of m u resp R "h\<lparr>hs_res := s\<rparr>" zone name owner qtype] lookup_dname [OF l] Suc.prems(2) * t
      by (auto simp: resolve_turn_def)
  qed
qed simp

end
