(* ===== verification/Handler_Calm.thy ===== *)
theory Handler_Calm
  imports Handler_Props
begin

text \<open>
  The handler over a resolver that does not fail: such a resolver leaves it no reason to answer
  \<open>SERVFAIL\<close> except a zone whose SOA parameters cannot be packed or a DNAME. The store is one while its
  statements succeed, and the cached store with it.
\<close>


section \<open>A resolver that does not fail\<close>

text \<open>
  What is left of failures if the resolver itself does not fail: its zones satisfy \<open>zoneGood\<close> and its
  records \<open>recGood\<close>. The contract says so of every answer; the caching resolver keeps it.
\<close>

definition turnCalm :: "('s \<Rightarrow> bool) \<Rightarrow> (zone \<Rightarrow> bool) \<Rightarrow> turn \<times> message \<times> 's hstate \<Rightarrow> bool" where
  "turnCalm calm zoneGood x = (calm (hs_res (snd (snd x))) \<and> Rcode (fst (snd x)) \<noteq> RcodeServerFailure \<and>
     (case fst x of Done e \<Rightarrow> e = None | Continue z n w \<Rightarrow> zoneGood z))"

definition cachesCalm :: "(zone \<Rightarrow> bool) \<Rightarrow> (srecord \<Rightarrow> bool) \<Rightarrow> 's cres \<Rightarrow> bool" where
  "cachesCalm zoneGood recGood c = (cacheInv (cr_zones c) \<and> cacheInv (cr_names c) \<and>
     coherent (cached (cr_zones c)) (\<lambda>k v g. \<forall>z. v = Some z \<longrightarrow> zoneGood z) \<and>
     coherent (cached (cr_names c)) (\<lambda>k v g. \<forall>r \<in> set (n_Records v). recGood r))"

definition envCalm :: "(zone \<Rightarrow> bool) \<Rightarrow> (srecord \<Rightarrow> bool) \<Rightarrow> cenv \<Rightarrow> bool" where
  "envCalm zoneGood recGood env = (rangeOrder (ce_ord env) \<and>
     (\<forall>q v. ce_zoneFlight env q = Some v \<longrightarrow> (\<exists>r. v = Inr r \<and> (\<forall>z. r = Some z \<longrightarrow> zoneGood z))) \<and>
     (\<forall>k v. ce_nameFlight env k = Some v \<longrightarrow> (\<exists>ns. v = Inr ns \<and> (\<forall>r \<in> set (n_Records ns). recGood r))))"

definition csCalm :: "('s \<Rightarrow> bool) \<Rightarrow> (zone \<Rightarrow> bool) \<Rightarrow> (srecord \<Rightarrow> bool) \<Rightarrow> 's cres_state \<Rightarrow> bool" where
  "csCalm calm zoneGood recGood s =
    (calm (cr_next (cs_res s)) \<and> cachesCalm zoneGood recGood (cs_res s) \<and> (\<forall>i. envCalm zoneGood recGood (cs_envs s i)))"

lemma cachesCalm_simps [simp]:
  "cachesCalm Z S (c\<lparr>cr_next := s\<rparr>) = cachesCalm Z S c"
  "cachesCalm Z S (c\<lparr>cr_zones := snd (Get now (cr_zones c) k)\<rparr>) = cachesCalm Z S c"
  "cachesCalm Z S (c\<lparr>cr_names := snd (Get now (cr_names c) k)\<rparr>) = cachesCalm Z S c"
  by (simp_all add: cachesCalm_def mc.get_keeps)

lemma cachesCalm_Set:
  "cachesCalm Z S c \<Longrightarrow> rangeOrder ord \<Longrightarrow> \<forall>z. r = Some z \<longrightarrow> Z z \<Longrightarrow>
     cachesCalm Z S (c\<lparr>cr_zones := SetKey ord now (cr_zones c) q g r e\<rparr>)"
  "cachesCalm Z S c \<Longrightarrow> rangeOrder ord \<Longrightarrow> \<forall>r \<in> set (n_Records ns). S r \<Longrightarrow>
     cachesCalm Z S (c\<lparr>cr_names := SetKey ord now (cr_names c) k g ns e\<rparr>)"
  by (simp_all add: cachesCalm_def mc.put_inv mc.put_coherent)

locale calm_resolver =
  fixes R :: "'s resolver"
    and calm :: "'s \<Rightarrow> bool"
    and zoneGood :: "zone \<Rightarrow> bool"
    and recGood :: "srecord \<Rightarrow> bool"
  assumes find_calm: "calm s \<Longrightarrow> rs_FindZone R s q = (out, s') \<Longrightarrow>
      calm s' \<and> (case out of Inl e \<Rightarrow> e = ErrNotFound | Inr z \<Rightarrow> zoneGood z)"
    and lookup_calm: "calm s \<Longrightarrow> rs_LookupName R s zone name = (out', s') \<Longrightarrow>
      calm s' \<and> (case out' of Inl e \<Rightarrow> False | Inr ns \<Rightarrow> \<forall>r \<in> set (n_Records ns). recGood r)"
begin

lemma lookup_loop_calm:
  assumes "calm s" "lookup_loop R u zone s name = (out, s')"
  shows "calm s' \<and> (\<exists>mo e. out = Inr (mo, e) \<and>
    (\<forall>m. mo = Some m \<longrightarrow> (\<forall>d. m_dname m = Some d \<longrightarrow> recGood d \<and> TypeCode u (r_Type d) = TypeDNAME)))"
  using assms
proof (induction "length name" arbitrary: name s rule: less_induct)
  case less
  show ?case
  proof (cases "name = z_Name zone \<or> IndexByte name CHR ''.'' = None")
    case True
    then have "lookup_loop R u zone s name = (Inr (None, name), s)" by (subst lookup_loop.simps) auto
    then show ?thesis using less.prems by auto
  next
    case False
    then obtain i where i: "name \<noteq> z_Name zone" "IndexByte name CHR ''.'' = Some i" by auto
    obtain out1 s1 where l: "rs_LookupName R s (z_Name zone) (drop (i + 1) name) = (out1, s1)" by fastforce
    obtain ns where ns: "out1 = Inr ns" "calm s1" "\<forall>r \<in> set (n_Records ns). recGood r"
      using lookup_calm [OF less.prems(1) l] by (cases out1) auto
    let ?dn = "filterType u (n_Records ns) TypeDNAME"
    have dn: "recGood (?dn ! 0) \<and> TypeCode u (r_Type (?dn ! 0)) = TypeDNAME" if "?dn \<noteq> []"
    proof -
      have "?dn ! 0 \<in> set ?dn" using that by simp
      then show ?thesis using ns(3) by (simp add: filterType_def)
    qed
    have "length (drop (i + 1) name) < length name" using IndexByte_Some [OF i(2)] by auto
    note IH = less.hyps [OF this ns(2)]
    show ?thesis using less.prems(2) i l ns dn IH
      by (auto simp: lookup_loop.simps [of R u zone s name] Let_def zero_match_def split: if_splits)
  qed
qed

lemma lookup_calm_ok:
  assumes "calm s" "lookup R u zone s name qtype = (out, s')"
  shows "calm s' \<and> (\<exists>m. out = Inr m \<and> (\<forall>d. m_dname m = Some d \<longrightarrow> recGood d \<and> TypeCode u (r_Type d) = TypeDNAME))"
proof -
  obtain out1 s1 where l: "rs_LookupName R s (z_Name zone) name = (out1, s1)" by fastforce
  obtain ns where ns: "out1 = Inr ns" "calm s1" using lookup_calm [OF assms(1) l] by (cases out1) auto
  obtain out2 s2 where loop: "lookup_loop R u zone s1 name = (out2, s2)" by fastforce
  obtain mo e where c: "calm s2" "out2 = Inr (mo, e)"
      "\<And>m d. mo = Some m \<Longrightarrow> m_dname m = Some d \<Longrightarrow> recGood d \<and> TypeCode u (r_Type d) = TypeDNAME"
    using lookup_loop_calm [OF ns(2) loop] by blast
  obtain out3 s3 where w: "rs_LookupName R s2 (z_Name zone) (''*.'' @ e) = (out3, s3)" by fastforce
  obtain ws where ws: "out3 = Inr ws" "calm s3" using lookup_calm [OF c(1) w] by (cases out3) auto
  show ?thesis using assms(2) l ns loop c w ws
    by (cases mo) (auto simp: lookup_def Let_def zero_match_def split: if_splits)
qed

lemma addGlue_loop_calm: "calm s \<Longrightarrow> calm (snd (addGlue_loop R u zone seen add s rs))"
proof (induction rs arbitrary: seen add s)
  case (Cons r rs)
  let ?t = "ToLower u (RDataNames (TypeCode u (r_Type r)) (wireOf u r))"
  obtain out s1 where l: "rs_LookupName R s (z_Name zone) ?t = (out, s1)" by fastforce
  have "calm s1" using lookup_calm [OF Cons.prems l] by simp
  then show ?case using Cons l by (auto simp: Let_def split: sum.splits)
qed simp

lemma addGlue_calm [simp]: "calm (hs_res h) \<Longrightarrow> calm (hs_res (snd (addGlue R u h resp zone rs)))"
  by (simp add: addGlue_def case_prod_beta addGlue_loop_calm)

lemma addAdditional_calm [simp]: "calm (hs_res h) \<Longrightarrow> calm (hs_res (snd (addAdditional R u h resp zone t rs)))"
  by (simp add: addAdditional_def)

lemma follow_calm: "calm (hs_res h) \<Longrightarrow> Rcode resp \<noteq> RcodeServerFailure \<Longrightarrow> turnCalm calm zoneGood (follow R h resp target)"
proof -
  assume "calm (hs_res h)" "Rcode resp \<noteq> RcodeServerFailure"
  moreover obtain out s where "rs_FindZone R (hs_res h) target = (out, s)" by fastforce
  ultimately show ?thesis using find_calm [of "hs_res h" target out s]
    by (auto simp: turnCalm_def follow_def zoneFor_def split: sum.splits)
qed

lemma answerTurn_calm:
  assumes "calm (hs_res h)" "Rcode resp \<noteq> RcodeServerFailure" "soaRR zone = Inr soa"
  shows "turnCalm calm zoneGood (answerTurn R u h resp zone name owner qtype m)"
  using assms follow_calm
  by (auto simp: answerTurn_def turnCalm_def Let_def case_prod_beta)

lemma resolve_loop_calm:
  assumes "\<And>z. zoneGood z \<Longrightarrow> \<exists>soa. soaRR z = Inr soa" "\<And>r. recGood r \<Longrightarrow> TypeCode u (r_Type r) \<noteq> TypeDNAME"
    and "calm (hs_res h)" "Rcode resp \<noteq> RcodeServerFailure" "zoneGood zone"
    and "resolve_loop k R u h resp zone name owner qtype = (e, resp', h')"
  shows "e = None \<and> Rcode resp' \<noteq> RcodeServerFailure \<and> calm (hs_res h')"
  using assms(3-)
proof (induction k arbitrary: h resp zone name owner)
  case (Suc k)
  obtain out s where l: "lookup R u zone (hs_res h) name qtype = (out, s)" by fastforce
  obtain m where m: "calm s" "out = Inr m" "m_dname m = None"
    using lookup_calm_ok [OF Suc.prems(1) l] assms(2) by (metis not_None_eq)
  obtain soa where soa: "soaRR zone = Inr soa" using assms(1) Suc.prems(3) by blast
  have "turnCalm calm zoneGood (resolve_turn R u h resp zone name owner qtype)"
    using l m Suc.prems(2) answerTurn_calm [OF _ _ soa]
    by (auto simp: resolve_turn_def matchTurn_def Let_def case_prod_beta turnCalm_def)
  then show ?case using Suc by (auto simp: turnCalm_def split: prod.splits turn.splits)
qed simp

lemma Handle_calm:
  assumes "\<And>z. zoneGood z \<Longrightarrow> \<exists>soa. soaRR z = Inr soa" "\<And>r. recGood r \<Longrightarrow> TypeCode u (r_Type r) \<noteq> TypeDNAME"
    and "calm (hs_res h)"
  shows "Rcode (fst (Handle R u h req)) \<noteq> RcodeServerFailure \<and> calm (hs_res (snd (Handle R u h req)))"
proof (cases rule: Handle_cases [of R u h req])
  case (homeless q e s code)
  then show ?thesis using find_calm [OF assms(3) homeless(1)] by auto
next
  case (resolved q zone s e resp h')
  then have "e = None \<and> Rcode resp \<noteq> RcodeServerFailure \<and> calm (hs_res h')"
    using find_calm [OF assms(3) resolved(1)] by (intro resolve_loop_calm [OF assms(1,2)]) (auto simp: resolve_def)
  then show ?thesis using resolved(3) by simp
qed (use assms(3) in auto)

lemma cached_FindZone_calm:
  assumes "calm (cr_next c)" "cachesCalm zoneGood recGood c" "envCalm zoneGood recGood env" "cached_FindZone R env c q = (out, c')"
  shows "calm (cr_next c') \<and> cachesCalm zoneGood recGood c' \<and> (case out of Inl e \<Rightarrow> e = ErrNotFound | Inr z \<Rightarrow> zoneGood z)"
proof -
  let ?c = "c\<lparr>cr_zones := snd (Get (ce_get env) (cr_zones c) q)\<rparr>"
  have ord: "rangeOrder (ce_ord env)" using assms(3) by (simp add: envCalm_def)
  show ?thesis
  proof (cases "fst (Get (ce_get env) (cr_zones c) q)")
    case (Some r)
    then have "\<forall>z. r = Some z \<longrightarrow> zoneGood z"
      using mc.get_coherent [OF _ Some, of "\<lambda>k v g. \<forall>z. v = Some z \<longrightarrow> zoneGood z"] assms(2) by (auto simp: cachesCalm_def)
    then show ?thesis using Some assms
      by (auto simp: cached_FindZone_def Let_def case_prod_beta zoneOut_def split: option.splits)
  next
    case None
    obtain res s' where f: "rs_FindZone R (cr_next c) q = (res, s')" by fastforce
    have load: "calm (cr_next (snd (loadZone R env ?c q))) \<and> cachesCalm zoneGood recGood (snd (loadZone R env ?c q)) \<and>
        (case fst (loadZone R env ?c q) of Inl e \<Rightarrow> False | Inr r \<Rightarrow> \<forall>z. r = Some z \<longrightarrow> zoneGood z)"
      using find_calm [OF assms(1) f] f assms(2) ord cachesCalm_Set(1) [of zoneGood recGood "?c\<lparr>cr_next := s'\<rparr>" "ce_ord env" None]
        cachesCalm_Set(1) [of zoneGood recGood "?c\<lparr>cr_next := s'\<rparr>" "ce_ord env" "Some (projr res)"]
      by (auto simp: loadZone_def Let_def split: sum.splits)
    then show ?thesis using None assms
      by (auto simp: cached_FindZone_def Let_def case_prod_beta zoneOut_def envCalm_def split: option.splits sum.splits)
  qed
qed

lemma cached_LookupName_calm:
  assumes "calm (cr_next c)" "cachesCalm zoneGood recGood c" "envCalm zoneGood recGood env" "cached_LookupName R env c zone name = (out, c')"
  shows "calm (cr_next c') \<and> cachesCalm zoneGood recGood c' \<and> (case out of Inl e \<Rightarrow> False | Inr ns \<Rightarrow> \<forall>r \<in> set (n_Records ns). recGood r)"
proof -
  let ?k = "nameKey zone name" and ?c = "c\<lparr>cr_names := snd (Get (ce_get env) (cr_names c) (nameKey zone name))\<rparr>"
  have ord: "rangeOrder (ce_ord env)" using assms(3) by (simp add: envCalm_def)
  show ?thesis
  proof (cases "fst (Get (ce_get env) (cr_names c) ?k)")
    case (Some ns)
    then have "\<forall>r \<in> set (n_Records ns). recGood r"
      using mc.get_coherent [OF _ Some, of "\<lambda>k v g. \<forall>r \<in> set (n_Records v). recGood r"] assms(2) by (auto simp: cachesCalm_def)
    then show ?thesis using Some assms by (auto simp: cached_LookupName_def Let_def case_prod_beta)
  next
    case None
    obtain res s' where f: "rs_LookupName R (cr_next c) zone name = (res, s')" by fastforce
    have load: "calm (cr_next (snd (loadName R env ?c zone name))) \<and> cachesCalm zoneGood recGood (snd (loadName R env ?c zone name)) \<and>
        (case fst (loadName R env ?c zone name) of Inl e \<Rightarrow> False | Inr ns \<Rightarrow> \<forall>r \<in> set (n_Records ns). recGood r)"
      using lookup_calm [OF assms(1) f] f assms(2) ord cachesCalm_Set(2) [of zoneGood recGood "?c\<lparr>cr_next := s'\<rparr>" "ce_ord env"]
      by (auto simp: loadName_def Let_def split: sum.splits)
    then show ?thesis using None assms
      by (fastforce simp: cached_LookupName_def Let_def case_prod_beta envCalm_def split: option.splits)
  qed
qed

lemma cached_calm: "calm_resolver (cachedResolver R) (csCalm calm zoneGood recGood) zoneGood recGood"
proof (unfold_locales, goal_cases)
  case (1 s q out s')
  then show ?case
    using cached_FindZone_calm [of "cs_res s" "cs_envs s (cs_tick s)" q "fst (cached_FindZone R (cs_envs s (cs_tick s)) (cs_res s) q)"
        "snd (cached_FindZone R (cs_envs s (cs_tick s)) (cs_res s) q)"]
    by (auto simp: cachedResolver_def csCalm_def Let_def case_prod_beta)
next
  case (2 s zone name out s')
  then show ?case
    using cached_LookupName_calm [of "cs_res s" "cs_envs s (cs_tick s)" zone name "fst (cached_LookupName R (cs_envs s (cs_tick s)) (cs_res s) zone name)"
        "snd (cached_LookupName R (cs_envs s (cs_tick s)) (cs_res s) zone name)"]
    by (auto simp: cachedResolver_def csCalm_def Let_def case_prod_beta)
qed

end

text \<open>A store whose statements do not fail.\<close>

definition calmStore :: "db \<Rightarrow> store_state \<Rightarrow> bool" where
  "calmStore db s = (ss_db s = db \<and> (\<forall>i n. pg_fault (ss_envs s i) n = None) \<and> (\<forall>i ws. mset (pg_rows (ss_envs s i) ws) = mset ws))"

interpretation ca: calm_resolver "storeResolver u enc" "calmStore db" "\<lambda>z. z \<in> set (d_zones db)" "\<lambda>r. r \<in> scanRecord enc ` set (d_records db)"
  for u enc db
proof (unfold_locales, goal_cases)
  case (1 s q out s')
  have "z \<in> set (d_zones db)" if "out = Inr z" for z
    using 1 that longest_Some by (fastforce simp: calmStore_def storeResolver_def FindZone_def Let_def query_def scanZone_def split: if_splits option.splits)
  moreover have "e = ErrNotFound" if "out = Inl e" for e
    using 1 that by (auto simp: calmStore_def storeResolver_def FindZone_def Let_def query_def scanZone_def split: if_splits option.splits)
  ultimately show ?case using 1 by (auto simp: calmStore_def storeResolver_def split: sum.splits)
next
  case (2 s zone name out s')
  have "set (pg_rows (ss_envs s i) ws) = set ws" for i ws
    using 2(1) unfolding calmStore_def by (metis set_mset_mset)
  then show ?case using 2
    by (auto simp: calmStore_def storeResolver_def LookupName_def Let_def query_def recordsAt_def collectRecords_def split: if_splits)
qed

interpretation cca: calm_resolver "cachedResolver (storeResolver u enc)"
    "csCalm (calmStore db) (\<lambda>z. z \<in> set (d_zones db)) (\<lambda>r. r \<in> scanRecord enc ` set (d_records db))"
    "\<lambda>z. z \<in> set (d_zones db)" "\<lambda>r. r \<in> scanRecord enc ` set (d_records db)"
  for u enc db
  by (rule ca.cached_calm)

end
