(* ===== verification/Server.thy ===== *)
theory Server
  imports Handler_Props
begin

text \<open>
  The DNS server of \<open>src/internal/dns/server.go\<close>. \<open>serveUDP\<close> and \<open>tcpConnLoop\<close> are functions of the bytes
  read: a datagram, and what a connection yields before it fails, closes or times out; their results are
  the bytes written. The buffers of the pool are values here: a reply is built from strings and record data
  that do not share the buffer of the request, and \<open>writeTCP\<close> copies a message over itself at most. Logging
  is left out. The goroutines that \<open>Serve\<close> starts and their shutdown are a step relation on a state with the
  job channel, the running loops and the connection slots.
\<close>

unbundle bit_operations_syntax

abbreviation (input) bufSize :: nat where "bufSize \<equiv> 4096"
abbreviation (input) maxTCPConns :: nat where "maxTCPConns \<equiv> 4096"

record 'a job =
  j_data :: bytes
  j_addr :: 'a

section \<open>Replies\<close>

definition formErr :: "bytes \<Rightarrow> bytes" where
  "formErr req = take 2 req @ [0x80 OR (req ! 2 AND 0x79), word_of_int RcodeFormatError] @ replicate 8 0"

definition serveUDP ::
  "'s resolver \<Rightarrow> unicode_case \<Rightarrow> 's hstate \<Rightarrow> 'a job \<Rightarrow> (bytes \<times> 'a) option \<times> 's hstate" where
  "serveUDP R u h j =
    (let data = j_data j
     in case ParseMessage data of
          Inl _ \<Rightarrow> (if length data \<ge> 12 \<and> data ! 2 AND 0x80 = 0 then Some (formErr data, j_addr j) else None, h)
        | Inr req \<Rightarrow>
            if Flags req AND FlagQR \<noteq> 0 then (None, h)
            else let (resp, h) = Handle R u h req
                 in (case snd (PackUDP resp) of Inl _ \<Rightarrow> None | Inr out \<Rightarrow> Some (out, j_addr j), h))"

definition writeTCP :: "bytes \<Rightarrow> bytes" where
  "writeTCP msg = PutUint16 (word_of_nat (length msg)) @ msg"

text \<open>
  The loop over the requests of a connection: \<open>inp\<close> is what is still to be read, \<open>ws k\<close> tells whether the
  \<open>k\<close>-th write succeeds. The result lists the frames given to \<open>conn.Write\<close>.
\<close>

function tcpConnLoop ::
  "'s resolver \<Rightarrow> unicode_case \<Rightarrow> (nat \<Rightarrow> bool) \<Rightarrow> nat \<Rightarrow> 's hstate \<Rightarrow> bytes \<Rightarrow> bytes list \<times> 's hstate" where
  "tcpConnLoop R u ws k h inp =
    (if length inp < 2 then ([], h)
     else let msgLen = unat (Uint16 (take 2 inp))
          in if msgLen < 12 then ([], h)
             else if length (drop 2 inp) < msgLen then ([], h)
             else let data = take msgLen (drop 2 inp); rest = drop (2 + msgLen) inp
                  in case ParseMessage data of
                       Inl _ \<Rightarrow>
                         if data ! 2 AND 0x80 = 0 then
                           (if \<not> ws k then ([writeTCP (formErr data)], h)
                            else let (out, h) = tcpConnLoop R u ws (k + 1) h rest in (writeTCP (formErr data) # out, h))
                         else ([], h)
                     | Inr req \<Rightarrow>
                         if Flags req AND FlagQR \<noteq> 0 then ([], h)
                         else let (resp, h) = Handle R u h req
                              in case snd (Pack resp) of
                                   Inl _ \<Rightarrow> ([], h)
                                 | Inr msg \<Rightarrow>
                                     if length msg > 65535 then ([], h)
                                     else if \<not> ws k then ([writeTCP msg], h)
                                     else let (out, h) = tcpConnLoop R u ws (k + 1) h rest in (writeTCP msg # out, h))"
  by pat_completeness auto
termination by (relation "measure (\<lambda>(R, u, ws, k, h, inp). length inp)") auto

declare tcpConnLoop.simps [simp del]

section \<open>Goroutines\<close>

text \<open>
  The state of \<open>Serve\<close>: the channel \<open>jobs\<close>, whether it is closed, the jobs in the hands of workers and the
  workers that run, whether the two reading loops run, the slots taken and the connections served, whether
  the context is cancelled and whether \<open>Serve\<close> has returned. \<open>sv_received\<close>, \<open>sv_dropped\<close> and \<open>sv_served\<close>
  record the datagrams read, turned away and dealt with; \<open>sv_panic\<close> is set by a send on the closed channel.
\<close>

record 'a srv =
  sv_workers :: nat
  sv_jobs :: "'a job list"
  sv_closed :: bool
  sv_hands :: "'a job list"
  sv_running :: nat
  sv_udp :: bool
  sv_tcp :: bool
  sv_slots :: nat
  sv_conns :: nat
  sv_cancelled :: bool
  sv_returned :: bool
  sv_received :: "'a job list"
  sv_dropped :: "'a job list"
  sv_served :: "'a job list"
  sv_panic :: bool

definition NewServer :: "int \<Rightarrow> 'a srv" where
  "NewServer workers =
    (let n = (if workers < 1 then 1 else nat workers)
     in \<lparr>sv_workers = n, sv_jobs = [], sv_closed = False, sv_hands = [], sv_running = n, sv_udp = True, sv_tcp = True,
         sv_slots = 0, sv_conns = 0, sv_cancelled = False, sv_returned = False, sv_received = [], sv_dropped = [],
         sv_served = [], sv_panic = False\<rparr>)"

text \<open>The select of \<open>udpReadLoop\<close>: the job is queued, or dropped if the channel is full. A send on a closed
  channel panics.\<close>

definition enqueue :: "'a job \<Rightarrow> 'a srv \<Rightarrow> 'a srv" where
  "enqueue j s =
    (if sv_closed s then s\<lparr>sv_panic := True\<rparr>
     else let s = s\<lparr>sv_received := j # sv_received s\<rparr>
          in if length (sv_jobs s) < sv_workers s * 16 then s\<lparr>sv_jobs := sv_jobs s @ [j]\<rparr> else s\<lparr>sv_dropped := j # sv_dropped s\<rparr>)"

text \<open>The select of \<open>tcpAcceptLoop\<close>: the connection gets a slot or is closed at once.\<close>

definition admit :: "'a srv \<Rightarrow> 'a srv" where
  "admit s = (if sv_slots s < maxTCPConns then s\<lparr>sv_slots := sv_slots s + 1, sv_conns := sv_conns s + 1\<rparr> else s)"

text \<open>The steps of the loop over datagrams: it hands one on, or ends on an error once the context is
  cancelled. Other errors only make it wait.\<close>

inductive udpReadLoop :: "'a srv \<Rightarrow> 'a srv \<Rightarrow> bool" where
  datagram: "sv_udp s \<Longrightarrow> length (j_data j) \<le> bufSize \<Longrightarrow> udpReadLoop s (enqueue j s)"
| udp_ends: "sv_udp s \<Longrightarrow> sv_cancelled s \<Longrightarrow> udpReadLoop s (s\<lparr>sv_udp := False\<rparr>)"

text \<open>The steps of the loop over connections, and the end of the goroutine of one of them.\<close>

inductive tcpAcceptLoop :: "'a srv \<Rightarrow> 'a srv \<Rightarrow> bool" where
  accept: "sv_tcp s \<Longrightarrow> tcpAcceptLoop s (admit s)"
| tcp_ends: "sv_tcp s \<Longrightarrow> sv_cancelled s \<Longrightarrow> tcpAcceptLoop s (s\<lparr>sv_tcp := False\<rparr>)"
| conn_ends: "sv_conns s > 0 \<Longrightarrow> tcpAcceptLoop s (s\<lparr>sv_slots := sv_slots s - 1, sv_conns := sv_conns s - 1\<rparr>)"

inductive srv_step :: "'a srv \<Rightarrow> 'a srv \<Rightarrow> bool" where
  udp: "udpReadLoop s s' \<Longrightarrow> srv_step s s'"
| tcp: "tcpAcceptLoop s s' \<Longrightarrow> srv_step s s'"
| take_job: "sv_jobs s = j # js \<Longrightarrow> length (sv_hands s) < sv_running s \<Longrightarrow>
    srv_step s (s\<lparr>sv_jobs := js, sv_hands := j # sv_hands s\<rparr>)"
| finish_job: "j \<in> set (sv_hands s) \<Longrightarrow>
    srv_step s (s\<lparr>sv_hands := remove1 j (sv_hands s), sv_served := j # sv_served s\<rparr>)"
| worker_ends: "sv_closed s \<Longrightarrow> sv_jobs s = [] \<Longrightarrow> length (sv_hands s) < sv_running s \<Longrightarrow>
    srv_step s (s\<lparr>sv_running := sv_running s - 1\<rparr>)"
| cancel: "srv_step s (s\<lparr>sv_cancelled := True\<rparr>)"
| close_jobs: "sv_cancelled s \<Longrightarrow> \<not> sv_udp s \<Longrightarrow> \<not> sv_tcp s \<Longrightarrow> \<not> sv_closed s \<Longrightarrow> srv_step s (s\<lparr>sv_closed := True\<rparr>)"
| return: "sv_closed s \<Longrightarrow> sv_running s = 0 \<Longrightarrow> sv_conns s = 0 \<Longrightarrow> srv_step s (s\<lparr>sv_returned := True\<rparr>)"

section \<open>The goroutines stay within their bounds\<close>

definition srvInv :: "'a srv \<Rightarrow> bool" where
  "srvInv s =
    (length (sv_jobs s) \<le> sv_workers s * 16 \<and> sv_slots s = sv_conns s \<and> sv_slots s \<le> maxTCPConns \<and>
     length (sv_hands s) \<le> sv_running s \<and> sv_running s \<le> sv_workers s \<and> \<not> sv_panic s \<and>
     (sv_closed s \<longrightarrow> \<not> sv_udp s \<and> \<not> sv_tcp s) \<and> (sv_running s < sv_workers s \<longrightarrow> sv_closed s \<and> sv_jobs s = []) \<and>
     (sv_returned s \<longrightarrow> sv_closed s \<and> sv_running s = 0 \<and> sv_conns s = 0) \<and> 0 < sv_workers s \<and>
     mset (sv_received s) = mset (sv_dropped s) + mset (sv_jobs s) + mset (sv_hands s) + mset (sv_served s))"

lemma srvInv_New: "srvInv (NewServer w)"
  by (auto simp: srvInv_def NewServer_def Let_def)

lemma srvInv_udp: "udpReadLoop s s' \<Longrightarrow> srvInv s \<Longrightarrow> srvInv s'"
  by (induction rule: udpReadLoop.induct) (auto simp: srvInv_def enqueue_def Let_def)

lemma srvInv_tcp: "tcpAcceptLoop s s' \<Longrightarrow> srvInv s \<Longrightarrow> srvInv s'"
  by (induction rule: tcpAcceptLoop.induct) (auto simp: srvInv_def admit_def)

lemma srvInv_step: "srv_step s s' \<Longrightarrow> srvInv s \<Longrightarrow> srvInv s'"
proof (induction rule: srv_step.induct)
  case (finish_job j s)
  then have "mset (sv_hands s) = add_mset j (mset (remove1 j (sv_hands s)))" by simp
  moreover have "length (remove1 j (sv_hands s)) \<le> length (sv_hands s)" by (simp add: length_remove1)
  ultimately show ?case using finish_job by (simp add: srvInv_def)
qed (auto simp: srvInv_udp srvInv_tcp, auto simp: srvInv_def)

lemma srvInv_reach: "srv_step\<^sup>*\<^sup>* (NewServer w) s \<Longrightarrow> srvInv s"
  by (induction rule: rtranclp_induct) (simp_all add: srvInv_New srvInv_step)

text \<open>Claim C17. In every reachable state of the server the queue holds at most sixteen jobs per worker and at
  most 4096 connections are served, each with its slot; no job is lost on the way from the socket to a
  worker, and the queue is never written to after it is closed.\<close>

theorem server_bounded:
  assumes "srv_step\<^sup>*\<^sup>* (NewServer w) s"
  shows "length (sv_jobs s) \<le> sv_workers s * 16 \<and> sv_conns s = sv_slots s \<and> sv_slots s \<le> maxTCPConns \<and>
    length (sv_hands s) \<le> sv_workers s \<and> \<not> sv_panic s \<and>
    mset (sv_received s) = mset (sv_dropped s) + mset (sv_jobs s) + mset (sv_hands s) + mset (sv_served s)"
  using srvInv_reach [OF assms] by (simp add: srvInv_def)

text \<open>The work left to do in a shutdown.\<close>

definition workLeft :: "'a srv \<Rightarrow> nat" where
  "workLeft s = (if sv_udp s then 1 else 0) + (if sv_tcp s then 1 else 0) + (if sv_closed s then 0 else 1) + sv_conns s +
     2 * length (sv_jobs s) + length (sv_hands s) + sv_running s + (if sv_returned s then 0 else 1)"

lemma nearer: "srv_step s s' \<Longrightarrow> workLeft s' < workLeft s \<Longrightarrow> \<exists>s'. srv_step s s' \<and> workLeft s' < workLeft s"
  by blast

lemma shutdown_step:
  assumes "srvInv s" "sv_cancelled s" "\<not> sv_returned s"
  shows "\<exists>s'. srv_step s s' \<and> workLeft s' < workLeft s"
proof -
  consider (udp) "sv_udp s" | (tcp) "sv_tcp s" | (conn) "0 < sv_conns s" | (job) j where "j \<in> set (sv_hands s)"
    | (close) "\<not> sv_udp s" "\<not> sv_tcp s" "\<not> sv_closed s"
    | (take) j js where "sv_jobs s = j # js" "length (sv_hands s) < sv_running s"
    | (leave) "sv_closed s" "sv_jobs s = []" "length (sv_hands s) < sv_running s"
    | (finish) "sv_closed s" "sv_running s = 0" "sv_conns s = 0"
  proof (cases "sv_hands s = [] \<and> sv_jobs s \<noteq> []")
    case True
    then have "length (sv_hands s) < sv_running s" using assms(1) by (auto simp: srvInv_def)
    then show ?thesis using True that(6) by (cases "sv_jobs s") auto
  next
    case False
    then show ?thesis using that by (metis gr0I length_0_conv list.set_intros(1) neq_Nil_conv)
  qed
  then show ?thesis
  proof cases
    case udp
    show ?thesis by (rule nearer [OF srv_step.udp [OF udpReadLoop.udp_ends [OF udp assms(2)]]]) (simp add: workLeft_def udp)
  next
    case tcp
    show ?thesis by (rule nearer [OF srv_step.tcp [OF tcpAcceptLoop.tcp_ends [OF tcp assms(2)]]]) (simp add: workLeft_def tcp)
  next
    case conn
    show ?thesis by (rule nearer [OF srv_step.tcp [OF tcpAcceptLoop.conn_ends [OF conn]]]) (simp add: workLeft_def conn)
  next
    case (job j)
    then show ?thesis using length_pos_if_in_set [OF job]
      by (intro nearer [OF srv_step.finish_job [OF job]]) (simp add: workLeft_def length_remove1)
  next
    case close
    show ?thesis by (rule nearer [OF srv_step.close_jobs [OF assms(2) close]]) (simp add: workLeft_def close)
  next
    case (take j js)
    show ?thesis by (rule nearer [OF srv_step.take_job [OF take]]) (simp add: workLeft_def take(1))
  next
    case leave
    then show ?thesis by (intro nearer [OF srv_step.worker_ends [OF leave]]) (simp add: workLeft_def)
  next
    case finish
    show ?thesis by (rule nearer [OF srv_step.return [OF finish]]) (simp add: workLeft_def assms(3))
  qed
qed

text \<open>Claim C18. Shutdown is graceful: once the context is cancelled the server can always take a step that
  brings it nearer to its end, so \<open>Serve\<close> never blocks for good, and when it returns every datagram that was
  queued has been served and no connection is left.\<close>

theorem graceful_shutdown:
  assumes "srv_step\<^sup>*\<^sup>* (NewServer w) s"
  shows "(sv_cancelled s \<and> \<not> sv_returned s \<longrightarrow> (\<exists>s'. srv_step s s' \<and> workLeft s' < workLeft s)) \<and>
    (sv_returned s \<longrightarrow> sv_jobs s = [] \<and> sv_conns s = 0 \<and> mset (sv_received s) = mset (sv_dropped s) + mset (sv_served s))"
  using srvInv_reach [OF assms] shutdown_step [of s] by (auto simp: srvInv_def)

definition demoJob :: "nat job" where
  "demoJob = \<lparr>j_data = [], j_addr = 0\<rparr>"

definition demoRun :: "nat srv" where
  "demoRun = (NewServer 1)\<lparr>sv_received := [demoJob], sv_jobs := [demoJob], sv_cancelled := True\<rparr>"

lemma demoRun_reached: "srv_step\<^sup>*\<^sup>* (NewServer 1) demoRun"
proof -
  have "srv_step (NewServer 1) (enqueue demoJob (NewServer 1))" by (intro srv_step.udp udpReadLoop.datagram) (simp_all add: NewServer_def demoJob_def Let_def)
  moreover have "srv_step (enqueue demoJob (NewServer 1)) (enqueue demoJob (NewServer 1)\<lparr>sv_cancelled := True\<rparr>)" by (rule srv_step.cancel)
  moreover have "enqueue demoJob (NewServer 1)\<lparr>sv_cancelled := True\<rparr> = demoRun" by (simp add: enqueue_def NewServer_def demoRun_def Let_def)
  ultimately show ?thesis by (metis (no_types) rtranclp.simps)
qed

theorem server_bounded_witness: "length (sv_jobs demoRun) \<le> 16 \<and> sv_received demoRun = [demoJob]"
  using server_bounded [OF demoRun_reached] by (simp add: demoRun_def NewServer_def Let_def)

theorem graceful_shutdown_witness: "sv_cancelled demoRun \<and> (\<exists>s'. srv_step demoRun s' \<and> workLeft s' < workLeft demoRun)"
  using graceful_shutdown [OF demoRun_reached] by (simp add: demoRun_def NewServer_def Let_def)

section \<open>What is sent\<close>

lemma QR_bit: "b AND 0x80 \<noteq> 0 \<longleftrightarrow> bit b 7" "f AND FlagQR \<noteq> 0 \<longleftrightarrow> bit f 15" for b :: "8 word" and f :: u16
  using and_exp_eq_0_iff_not_bit [of b 7] and_exp_eq_0_iff_not_bit [of f 15] by simp_all






lemma formErr_header:
  "12 \<le> length data \<Longrightarrow> length (formErr data) = 12 \<and> take 2 (formErr data) = take 2 data \<and> bit (formErr data ! 2) 7"
  by (auto simp: formErr_def nth_append min_def bit_simps)

lemma Handle_wire:
  assumes "ParseMessage data = Inr req" "Handle R u h req = (resp, h')"
  shows "ID resp = ID req" "bit (Flags resp) 15" "EDNS0 resp = EDNS0 req" "Questions resp = Questions req"
    "UDPSize resp = (if EDNS0 req then MaxEDNSUDPSize else MaxUDPMessageSize)"
proof -
  have f: "sameFrame (NewResponse req) resp" using Handle_frame [of req R u h] assms(2) by simp
  then have "keepBits (Flags resp) = keepBits (Flags (NewResponse req))" by (simp add: sameFrame_def)
  from keepBits_bit [OF this, of 15] show "bit (Flags resp) 15" by (simp add: NewResponse_flag_bits)
  show "ID resp = ID req" "EDNS0 resp = EDNS0 req" "Questions resp = Questions req" using f by (simp_all add: sameFrame_def)
  have "EDNS0Size (NewResponse req) = (if EDNS0 req then of_nat MaxEDNSUDPSize else 0)"
    by (simp add: NewResponse_def SetEDNS0_def Let_def zero_message_def)
  then show "UDPSize resp = (if EDNS0 req then MaxEDNSUDPSize else MaxUDPMessageSize)"
    using f by (simp add: sameFrame_def UDPSize_def)
qed




lemma NewResponse_size: "NewResponse (req\<lparr>EDNS0Size := n\<rparr>) = NewResponse req"
  by (simp add: NewResponse_def Let_def)

lemma Handle_size: "Handle R u h (req\<lparr>EDNS0Size := n\<rparr>) = Handle R u h req"
proof -
  have eq: "Opcode (req\<lparr>EDNS0Size := n\<rparr>) = Opcode req" "Questions (req\<lparr>EDNS0Size := n\<rparr>) = Questions req" by (simp_all add: Opcode_def)
  show ?thesis unfolding Handle_def NewResponse_size eq ..
qed

text \<open>Claim C15. A UDP reply to a query with at most one question has at most 512 bytes, or 1232 if the query
  has an OPT record. The size that the OPT record advertises plays no part: the handler answers queries
  that differ only in it alike.\<close>

theorem udp_reply_size:
  assumes "ParseMessage (j_data j) = Inr req" "length (Questions req) \<le> 1" "serveUDP R u h j = (Some (out, a), h')"
  shows "length out \<le> (if EDNS0 req then MaxEDNSUDPSize else MaxUDPMessageSize) \<and>
    Handle R u h (req\<lparr>EDNS0Size := n\<rparr>) = Handle R u h req"
proof -
  obtain resp h1 where r: "Handle R u h req = (resp, h1)" by fastforce
  note hw = Handle_wire [OF assms(1) r]
  have "length (wire (truncated resp)) \<le> 282" using length_wire_truncated [of resp] assms(2) hw(4) by simp
  then have "length out \<le> UDPSize resp" using assms(1,3) r UDPSize_bounds(1) [of resp]
    by (auto simp: serveUDP_def Let_def PackUDP_eq split: if_splits)
  then show ?thesis using hw(5) Handle_size by simp
qed

text \<open>One request on a connection: its reply, or none if the connection is closed.\<close>

definition tcpReply :: "'s resolver \<Rightarrow> unicode_case \<Rightarrow> 's hstate \<Rightarrow> bytes \<Rightarrow> bytes option \<times> 's hstate" where
  "tcpReply R u h data =
    (case ParseMessage data of
       Inl _ \<Rightarrow> (if bit (data ! 2) 7 then None else Some (formErr data), h)
     | Inr req \<Rightarrow>
         if bit (Flags req) 15 then (None, h)
         else let (resp, h) = Handle R u h req
              in (case snd (Pack resp) of Inl _ \<Rightarrow> None | Inr msg \<Rightarrow> if length msg \<le> 65535 then Some msg else None, h))"

fun tcpReplies :: "'s resolver \<Rightarrow> unicode_case \<Rightarrow> 's hstate \<Rightarrow> bytes list \<Rightarrow> bytes list \<times> 's hstate" where
  "tcpReplies R u h [] = ([], h)"
| "tcpReplies R u h (d # ds) =
    (case tcpReply R u h d of
       (None, h) \<Rightarrow> ([], h)
     | (Some msg, h) \<Rightarrow> let (out, h) = tcpReplies R u h ds in (msg # out, h))"

lemma writeTCP_length: "length msg \<le> 65535 \<Longrightarrow> unat (Uint16 (take 2 (writeTCP msg @ rest))) = length msg"
  by (simp add: writeTCP_def unat_of_nat)

lemma tcpConnLoop_request:
  assumes "12 \<le> length d" "length d \<le> 65535"
  shows "tcpConnLoop R u ws k h (writeTCP d @ rest) =
    (case tcpReply R u h d of
       (None, h) \<Rightarrow> ([], h)
     | (Some msg, h) \<Rightarrow> if \<not> ws k then ([writeTCP msg], h)
         else let (out, h) = tcpConnLoop R u ws (k + 1) h rest in (writeTCP msg # out, h))"
proof -
  note len = writeTCP_length [OF assms(2), of rest]
  have "take (length d) (drop 2 (writeTCP d @ rest)) = d" "drop (2 + length d) (writeTCP d @ rest) = rest"
    by (simp_all add: writeTCP_def)
  then show ?thesis using assms(1) len
    unfolding tcpConnLoop.simps [of R u ws k h "writeTCP d @ rest"] tcpReply_def
    by (auto simp: Let_def QR_bit case_prod_beta simp flip: QR_bit split: sum.splits) (auto simp: writeTCP_def)
qed

lemma tcpReply_size: "tcpReply R u h d = (Some msg, h') \<Longrightarrow> 12 \<le> length d \<Longrightarrow> length msg \<le> 65535"
  using formErr_header [of d] by (auto simp: tcpReply_def Let_def case_prod_beta split: sum.splits if_splits)

text \<open>Claim C16. A connection is served in order: from a stream of framed requests the server writes the framed
  replies one after the other, until one of them makes it close the connection; the length in front of
  each reply is its length.\<close>

theorem tcp_in_order:
  assumes "list_all (\<lambda>d. 12 \<le> length d \<and> length d \<le> 65535) ds"
  shows "tcpConnLoop R u (\<lambda>_. True) k h (concat (map writeTCP ds)) =
      (map writeTCP (fst (tcpReplies R u h ds)), snd (tcpReplies R u h ds)) \<and>
    (\<forall>msg \<in> set (fst (tcpReplies R u h ds)). unat (Uint16 (take 2 (writeTCP msg))) = length msg)"
  using assms
proof (induction ds arbitrary: h k)
  case Nil
  then show ?case by (simp add: tcpConnLoop.simps)
next
  case (Cons d ds)
  obtain mo h1 where r: "tcpReply R u h d = (mo, h1)" by fastforce
  have "mo = Some msg \<Longrightarrow> unat (Uint16 (take 2 (writeTCP msg))) = length msg" for msg
    using tcpReply_size [of R u h d msg h1] writeTCP_length [of msg "[]"] r Cons.prems by simp
  then show ?case
    using tcpConnLoop_request [of d R u "\<lambda>_. True" k h "concat (map writeTCP ds)"] r Cons
    by (cases mo) (auto simp: case_prod_beta)
qed

definition shortData :: bytes where
  "shortData = [0, 7, 1, 0, 0, 1, 0, 0, 0, 0, 0, 0]"

lemma shortData_parse: "ParseMessage shortData = Inl QuestionCountExceeds"
  by (simp add: ParseMessage_def shortData_def Let_def slice_def Uint16_def)


definition emptyData :: bytes where
  "emptyData = replicate 12 0"

lemma emptyData_parse: "\<exists>req. ParseMessage emptyData = Inr req \<and> Questions req = [] \<and> Opcode req = 0 \<and> Flags req = 0"
proof -
  have "case ParseMessage emptyData of Inl _ \<Rightarrow> False | Inr req \<Rightarrow> Questions req = [] \<and> Opcode req = 0 \<and> Flags req = 0" by code_simp
  then show ?thesis by (cases "ParseMessage emptyData") auto
qed

theorem udp_reply_size_witness:
  "\<exists>out. fst (serveUDP (storeResolver asciiCase None) asciiCase (NewHandler exampleStore) \<lparr>j_data = emptyData, j_addr = ()\<rparr>) = Some (out, ()) \<and>
     length out \<le> 1232"
proof -
  let ?R = "storeResolver asciiCase None" and ?h = "NewHandler exampleStore" and ?j = "\<lparr>j_data = emptyData, j_addr = ()\<rparr>"
  obtain req where req: "ParseMessage emptyData = Inr req" "Questions req = []" "Opcode req = 0" "Flags req = 0"
    using emptyData_parse by blast
  have "Handle ?R asciiCase ?h req = (SetRcode (NewResponse req) RcodeFormatError, ?h)" using req(2,3) by (simp add: Handle_def)
  moreover have "\<exists>out. snd (PackUDP (SetRcode (NewResponse req) RcodeFormatError)) = Inr out"
    unfolding PackUDP_eq by (simp add: fits_def)
  ultimately obtain out where s: "serveUDP ?R asciiCase ?h ?j = (Some (out, ()), ?h)"
    using req(1,4) by (auto simp: serveUDP_def)
  then show ?thesis using udp_reply_size [of ?j req ?R asciiCase ?h out "()" ?h 0] req(1,2) by (cases "EDNS0 req") auto
qed

theorem tcp_in_order_witness:
  "tcpConnLoop (storeResolver asciiCase None) asciiCase (\<lambda>_. True) 0 (NewHandler exampleStore) (writeTCP shortData @ writeTCP shortData) =
     ([writeTCP (formErr shortData), writeTCP (formErr shortData)], NewHandler exampleStore)"
proof -
  have "tcpReply (storeResolver asciiCase None) asciiCase (NewHandler exampleStore) shortData = (Some (formErr shortData), NewHandler exampleStore)"
    by (simp add: tcpReply_def shortData_parse) (simp add: shortData_def bit_simps)
  then show ?thesis
    using tcp_in_order [of "[shortData, shortData]" "storeResolver asciiCase None" asciiCase 0 "NewHandler exampleStore"]
    by (simp add: shortData_def)
qed

end
