(* ===== verification/Api_Service.thy ===== *)
theory Api_Service
  imports Cached_Resolver
begin

text \<open>
  The control plane of \<open>src/internal/api/service.go\<close>: every RPC as a function of the request, the database
  and the environments of its database calls, which returns a response or an error code, the database after
  it, and the changes it announces through \<open>notify\<close>. The texts of errors and logging are left out. Requests
  and responses carry the fields of the messages of \<open>src/proto/sharddns/v1\<close>, a missing field being empty or
  zero, and their 32-bit numbers are integers; the codes are those of the Connect protocol.
\<close>

abbreviation (input) defaultPageSize :: nat where "defaultPageSize \<equiv> 100"
abbreviation (input) maxPageSize :: nat where "maxPageSize \<equiv> 1000"
abbreviation (input) defaultTTL :: int where "defaultTTL \<equiv> 300"
abbreviation (input) maxTTL :: int where "maxTTL \<equiv> 2 ^ 31 - 1"

datatype code =
    CodeInvalidArgument
  | CodeNotFound
  | CodeAlreadyExists
  | CodeFailedPrecondition
  | CodeCanceled
  | CodeDeadlineExceeded
  | CodeInternal
  | CodeUnauthenticated

datatype kind = KIND_UNSPECIFIED | KIND_ZONE | KIND_RECORD

type_synonym change = "kind \<times> string \<times> string"

record zone_req =
  zq_Name :: string
  zq_PrimaryNs :: string
  zq_AdminEmail :: string
  zq_Refresh :: int
  zq_Retry :: int
  zq_Expire :: int
  zq_MinimumTtl :: int

record record_req =
  rq_Zone :: string
  rq_Name :: string
  rq_Type :: string
  rq_Ttl :: int
  rq_Rdata :: string

record zone_msg =
  zm_Name :: string
  zm_PrimaryNs :: string
  zm_AdminEmail :: string
  zm_Serial :: int
  zm_Refresh :: int
  zm_Retry :: int
  zm_Expire :: int
  zm_MinimumTtl :: int
  zm_CreatedAt :: int
  zm_UpdatedAt :: int

record record_msg =
  rm_Zone :: string
  rm_Name :: string
  rm_Type :: string
  rm_Ttl :: int
  rm_Rdata :: string
  rm_CreatedAt :: int

section \<open>Helpers\<close>

definition toError :: "store_err \<Rightarrow> code \<Rightarrow> code" where
  "toError err conflictCode =
    (case err of
       ErrNotFound \<Rightarrow> CodeNotFound
     | ErrConflict _ \<Rightarrow> conflictCode
     | DbErr Canceled \<Rightarrow> CodeCanceled
     | DbErr DeadlineExceeded \<Rightarrow> CodeDeadlineExceeded
     | _ \<Rightarrow> CodeInternal)"

text \<open>\<open>ConstantTimeCompare\<close> compares like \<open>=\<close>.\<close>

definition NewAuthInterceptor :: "string \<Rightarrow> ('req \<Rightarrow> code + 'resp) \<Rightarrow> string \<Rightarrow> 'req \<Rightarrow> code + 'resp" where
  "NewAuthInterceptor token nxt authorization req =
    (if authorization \<noteq> ''Bearer '' @ token then Inl CodeUnauthenticated else nxt req)"

text \<open>The loop of \<open>validateSOA\<close> over the two names.\<close>

fun validateSOA_names :: "unicode_case \<Rightarrow> string list \<Rightarrow> bool" where
  "validateSOA_names u [] = True"
| "validateSOA_names u (n # ns) = (if snd (PackName [] (ToLower u n)) \<noteq> None then False else validateSOA_names u ns)"

definition validateSOA :: "unicode_case \<Rightarrow> zone \<Rightarrow> code option" where
  "validateSOA u z =
    (if \<not> validateSOA_names u [z_PrimaryNS z, Replace1 (z_AdminEmail z) CHR ''@'' CHR ''.''] then Some CodeInvalidArgument
     else if z_Refresh z < 0 \<or> z_Retry z < 0 \<or> z_Expire z < 0 \<or> z_MinTTL z < 0 then Some CodeInvalidArgument
     else None)"

definition pageSize :: "int \<Rightarrow> nat" where
  "pageSize n = (if n \<le> 0 then defaultPageSize else if n > int maxPageSize then maxPageSize else nat n)"

definition orString :: "string \<Rightarrow> string \<Rightarrow> string" where
  "orString v d = (if v = [] then d else v)"

definition orInt :: "int \<Rightarrow> int \<Rightarrow> int" where
  "orInt v d = (if v = 0 then d else v)"

definition zoneToProto :: "zone \<Rightarrow> zone_msg" where
  "zoneToProto z =
    \<lparr>zm_Name = z_Name z, zm_PrimaryNs = z_PrimaryNS z, zm_AdminEmail = z_AdminEmail z, zm_Serial = z_Serial z,
     zm_Refresh = z_Refresh z, zm_Retry = z_Retry z, zm_Expire = z_Expire z, zm_MinimumTtl = z_MinTTL z,
     zm_CreatedAt = z_CreatedAt z, zm_UpdatedAt = z_UpdatedAt z\<rparr>"

definition recordToProto :: "srecord \<Rightarrow> record_msg" where
  "recordToProto r =
    \<lparr>rm_Zone = r_Zone r, rm_Name = r_Name r, rm_Type = r_Type r, rm_Ttl = r_TTL r, rm_Rdata = r_RData r,
     rm_CreatedAt = r_CreatedAt r\<rparr>"

section \<open>Zones\<close>

text \<open>The zones that \<open>CreateZone\<close> and \<open>UpdateZone\<close> make of a request.\<close>

definition newZone :: "unicode_case \<Rightarrow> zone_req \<Rightarrow> zone" where
  "newZone u m =
    (let name = NormalizeZone u (zq_Name m)
     in \<lparr>z_Name = name, z_PrimaryNS = orString (zq_PrimaryNs m) (''ns1.'' @ name @ ''.''),
         z_AdminEmail = orString (zq_AdminEmail m) (''hostmaster.'' @ name @ ''.''), z_Serial = 0,
         z_Refresh = orInt (zq_Refresh m) 3600, z_Retry = orInt (zq_Retry m) 900,
         z_Expire = orInt (zq_Expire m) 604800, z_MinTTL = orInt (zq_MinimumTtl m) 300,
         z_CreatedAt = 0, z_UpdatedAt = 0\<rparr>)"

definition mergeZone :: "zone_req \<Rightarrow> zone \<Rightarrow> zone" where
  "mergeZone m z =
    z\<lparr>z_PrimaryNS := orString (zq_PrimaryNs m) (z_PrimaryNS z), z_AdminEmail := orString (zq_AdminEmail m) (z_AdminEmail z),
      z_Refresh := orInt (zq_Refresh m) (z_Refresh z), z_Retry := orInt (zq_Retry m) (z_Retry z),
      z_Expire := orInt (zq_Expire m) (z_Expire z), z_MinTTL := orInt (zq_MinimumTtl m) (z_MinTTL z)\<rparr>"

definition api_CreateZone ::
  "unicode_case \<Rightarrow> pgenv \<Rightarrow> db \<Rightarrow> zone_req \<Rightarrow> (code + zone_msg) \<times> db \<times> change list" where
  "api_CreateZone u pg db m =
    (let name = NormalizeZone u (zq_Name m); z = newZone u m
     in if ValidateName name \<noteq> None then (Inl CodeInvalidArgument, db, [])
        else case validateSOA u z of
               Some c \<Rightarrow> (Inl c, db, [])
             | None \<Rightarrow>
                 (case CreateZone u pg db z of
                    (Inl err, db) \<Rightarrow> (Inl (toError err CodeAlreadyExists), db, [])
                  | (Inr created, db) \<Rightarrow> (Inr (zoneToProto created), db, [(KIND_ZONE, z_Name created, [])])))"

definition api_GetZone :: "unicode_case \<Rightarrow> pgenv \<Rightarrow> db \<Rightarrow> string \<Rightarrow> code + zone_msg" where
  "api_GetZone u pg db name =
    (case GetZone u pg db name of Inl err \<Rightarrow> Inl (toError err CodeInternal) | Inr z \<Rightarrow> Inr (zoneToProto z))"

text \<open>The zone is read in one statement and written in another; \<open>db'\<close> is the database when the second runs.\<close>

definition api_UpdateZone ::
  "unicode_case \<Rightarrow> pgenv \<Rightarrow> pgenv \<Rightarrow> db \<Rightarrow> db \<Rightarrow> zone_req \<Rightarrow> (code + zone_msg) \<times> db \<times> change list" where
  "api_UpdateZone u pg pg' db db' m =
    (case GetZone u pg db (zq_Name m) of
       Inl err \<Rightarrow> (Inl (toError err CodeInternal), db', [])
     | Inr z \<Rightarrow>
        (let z = mergeZone m z
         in case validateSOA u z of
              Some c \<Rightarrow> (Inl c, db', [])
            | None \<Rightarrow>
                (case UpdateZone u pg' db' z of
                   (Inl err, db') \<Rightarrow> (Inl (toError err CodeInternal), db', [])
                 | (Inr updated, db') \<Rightarrow> (Inr (zoneToProto updated), db', [(KIND_ZONE, z_Name updated, [])]))))"

definition api_DeleteZone :: "unicode_case \<Rightarrow> pgenv \<Rightarrow> db \<Rightarrow> string \<Rightarrow> (code + unit) \<times> db \<times> change list" where
  "api_DeleteZone u pg db reqName =
    (let name = NormalizeZone u reqName
     in case DeleteZone u pg db name of
          (Inl err, db) \<Rightarrow> (Inl (toError err CodeInternal), db, [])
        | (Inr _, db) \<Rightarrow> (Inr (), db, [(KIND_ZONE, name, [])]))"

definition api_ListZones :: "pgenv \<Rightarrow> db \<Rightarrow> int \<Rightarrow> string \<Rightarrow> code + zone_msg list \<times> string" where
  "api_ListZones pg db page_size page_token =
    (case ListZones pg db (pageSize page_size) page_token of
       Inl err \<Rightarrow> Inl (toError err CodeInternal)
     | Inr (zones, nxt) \<Rightarrow> Inr (map zoneToProto zones, nxt))"

section \<open>Records\<close>

definition newRecord :: "unicode_case \<Rightarrow> record_req \<Rightarrow> srecord" where
  "newRecord u m =
    (let zone = NormalizeZone u (rq_Zone m)
     in \<lparr>r_ID = 0, r_Zone = zone, r_Name = NormalizeName u zone (rq_Name m), r_Type = NormalizeType u (rq_Type m),
         r_TTL = (if rq_Ttl m = 0 then defaultTTL else rq_Ttl m), r_RData = TrimSpace (rq_Rdata m),
         r_CreatedAt = 0, r_Wire = [], r_WireErr = None\<rparr>)"

definition api_CreateRecord ::
  "unicode_case \<Rightarrow> pgenv \<Rightarrow> encoder option \<Rightarrow> db \<Rightarrow> record_req \<Rightarrow> (code + record_msg) \<times> db \<times> change list" where
  "api_CreateRecord u pg enc db m =
    (let zone = NormalizeZone u (rq_Zone m);
         rtype = NormalizeType u (rq_Type m);
         tcode = TypeCode u rtype;
         name = NormalizeName u zone (rq_Name m);
         rdata = TrimSpace (rq_Rdata m);
         ttl = (if rq_Ttl m = 0 then defaultTTL else rq_Ttl m)
     in if zone = [] \<or> rq_Name m = [] \<or> rq_Type m = [] then (Inl CodeInvalidArgument, db, [])
        else if rtype = ''SOA'' then (Inl CodeInvalidArgument, db, [])
        else if \<not> SupportedType tcode then (Inl CodeInvalidArgument, db, [])
        else if ValidateName name \<noteq> None then (Inl CodeInvalidArgument, db, [])
        else if snd (BuildRData tcode rdata) \<noteq> None then (Inl CodeInvalidArgument, db, [])
        else if ttl < 0 \<or> ttl > maxTTL then (Inl CodeInvalidArgument, db, [])
        else (case CreateRecord u pg enc db (newRecord u m) of
                (Inl err, db) \<Rightarrow> (Inl (toError err CodeFailedPrecondition), db, [])
              | (Inr rec, db) \<Rightarrow> (Inr (recordToProto rec), db, [(KIND_RECORD, zone, name)])))"

definition api_DeleteRecord ::
  "unicode_case \<Rightarrow> pgenv \<Rightarrow> db \<Rightarrow> record_req \<Rightarrow> (code + unit) \<times> db \<times> change list" where
  "api_DeleteRecord u pg db m =
    (let zone = NormalizeZone u (rq_Zone m);
         name = NormalizeName u zone (rq_Name m)
     in case DeleteRecord u pg db zone name (rq_Type m) (TrimSpace (rq_Rdata m)) of
          (Inl err, db) \<Rightarrow> (Inl (toError err CodeInternal), db, [])
        | (Inr _, db) \<Rightarrow> (Inr (), db, [(KIND_RECORD, zone, name)]))"

definition api_ListRecords ::
  "unicode_case \<Rightarrow> pgenv \<Rightarrow> pgenv \<Rightarrow> encoder option \<Rightarrow> db \<Rightarrow> db \<Rightarrow> string \<Rightarrow> int \<Rightarrow> string \<Rightarrow> code + record_msg list \<times> string" where
  "api_ListRecords u pg pg' enc db db' zone page_size page_token =
    (if zone = [] then Inl CodeInvalidArgument
     else case GetZone u pg db zone of
            Inl err \<Rightarrow> Inl (toError err CodeInternal)
          | Inr _ \<Rightarrow>
             (case ListRecords u pg' enc db' zone (pageSize page_size) page_token of
                Inl _ \<Rightarrow> Inl CodeInvalidArgument
              | Inr (records, nxt) \<Rightarrow> Inr (map recordToProto records, nxt)))"

definition api_GetRecords ::
  "unicode_case \<Rightarrow> pgenv \<Rightarrow> encoder option \<Rightarrow> db \<Rightarrow> string \<Rightarrow> string \<Rightarrow> string \<Rightarrow> code + record_msg list" where
  "api_GetRecords u pg enc db zone name rtype =
    (case GetRecords u pg enc db zone name rtype of
       Inl err \<Rightarrow> Inl (toError err CodeInternal)
     | Inr records \<Rightarrow> Inr (map recordToProto records))"

section \<open>The calls that write\<close>

datatype api_req =
    CreateZoneReq zone_req
  | UpdateZoneReq zone_req
  | DeleteZoneReq string
  | CreateRecordReq record_req
  | DeleteRecordReq record_req

definition errOf :: "'e + 'a \<Rightarrow> 'e option" where
  "errOf r = (case r of Inl e \<Rightarrow> Some e | Inr _ \<Rightarrow> None)"

text \<open>A writing call: its error, the database after it and what it announces. \<open>db0\<close> and \<open>pg0\<close> are those of the
  statement that only reads, \<open>db\<close> and \<open>pg\<close> those of the one that writes.\<close>

fun api_write :: "unicode_case \<Rightarrow> encoder option \<Rightarrow> pgenv \<Rightarrow> db \<Rightarrow> pgenv \<Rightarrow> db \<Rightarrow> api_req \<Rightarrow> code option \<times> db \<times> change list" where
  "api_write u enc pg0 db0 pg db (CreateZoneReq m) = apfst errOf (api_CreateZone u pg db m)"
| "api_write u enc pg0 db0 pg db (UpdateZoneReq m) = apfst errOf (api_UpdateZone u pg0 pg db0 db m)"
| "api_write u enc pg0 db0 pg db (DeleteZoneReq n) = apfst errOf (api_DeleteZone u pg db n)"
| "api_write u enc pg0 db0 pg db (CreateRecordReq m) = apfst errOf (api_CreateRecord u pg enc db m)"
| "api_write u enc pg0 db0 pg db (DeleteRecordReq m) = apfst errOf (api_DeleteRecord u pg db m)"

end
