(* ===== verification/Daemon.thy ===== *)
theory Daemon
  imports Api_Service
begin

text \<open>
  The event bus of \<open>src/internal/events/bus.go\<close> and the wiring of the daemon, \<open>run\<close> in
  \<open>src/cmd/sharddnsd/main.go\<close>: which caches a change drops, on the instance that made it (\<open>notify\<close>), on the others (the
  handler given to \<open>Subscribe\<close>) and after a lost connection (\<open>onReconnect\<close>). Protocol Buffers and NATS are not part
  of the repository. \<open>marshal\<close> and \<open>unmarshal\<close> are arguments, and so is whether the client library accepts a
  message that is published.
\<close>

section \<open>The bus\<close>

record event =
  ev_Origin :: string
  ev_Kind :: kind
  ev_Zone :: string
  ev_Name :: string

text \<open>Of a bus, the identifier that \<open>Connect\<close> draws at random, in hexadecimal digits.\<close>

definition hexDigit :: "nat \<Rightarrow> char" where
  "hexDigit n = (if n < 10 then char_of (48 + n) else char_of (87 + n))"

definition EncodeToString :: "bytes \<Rightarrow> string" where
  "EncodeToString bs = concat (map (\<lambda>b. [hexDigit (unat b div 16), hexDigit (unat b mod 16)]) bs)"

record bus =
  bus_subject :: string
  bus_origin :: string

text \<open>\<open>random\<close> is what \<open>rand.Read\<close> delivers, \<open>reached\<close> whether the server could be connected to.\<close>

datatype connect_err = RandErr | ConnectErr

definition Connect :: "bytes option \<Rightarrow> bool \<Rightarrow> string \<Rightarrow> connect_err + bus" where
  "Connect random reached subject =
    (case random of
       None \<Rightarrow> Inl RandErr
     | Some raw \<Rightarrow>
         if \<not> reached then Inl ConnectErr
         else Inr \<lparr>bus_subject = subject, bus_origin = EncodeToString raw\<rparr>)"

text \<open>The message handed to the client library, if any: marshalling may fail, and so may publishing.\<close>

definition Publish :: "(event \<Rightarrow> 'm option) \<Rightarrow> ('m \<Rightarrow> bool) \<Rightarrow> bus \<Rightarrow> kind \<Rightarrow> string \<Rightarrow> string \<Rightarrow> 'm option" where
  "Publish marshal accepts b kind zone name =
    (case marshal \<lparr>ev_Origin = bus_origin b, ev_Kind = kind, ev_Zone = zone, ev_Name = name\<rparr> of
       None \<Rightarrow> None
     | Some data \<Rightarrow> if accepts data then Some data else None)"

text \<open>The callback that \<open>Subscribe\<close> registers.\<close>

definition Subscribe :: "('m \<Rightarrow> event option) \<Rightarrow> bus \<Rightarrow> (event \<Rightarrow> 's \<Rightarrow> 's) \<Rightarrow> 'm \<Rightarrow> 's \<Rightarrow> 's" where
  "Subscribe unmarshal b handler msg s =
    (case unmarshal msg of
       None \<Rightarrow> s
     | Some ev \<Rightarrow> if ev_Origin ev = bus_origin b then s else handler ev s)"

section \<open>The wiring of the daemon\<close>

text \<open>The encoder given to the store, the handler given to \<open>Subscribe\<close>, \<open>onReconnect\<close> and \<open>notify\<close>.\<close>

definition Encoder :: "unicode_case \<Rightarrow> encoder" where
  "Encoder u rtype rdata = BuildRData (TypeCode u rtype) rdata"

definition onEvent :: "event \<Rightarrow> 's cres \<Rightarrow> 's cres" where
  "onEvent ev cc =
    (if ev_Kind ev = KIND_ZONE then Invalidate cc (ev_Zone ev) [] else Invalidate cc (ev_Zone ev) (ev_Name ev))"

definition onReconnect :: "'s cres option \<Rightarrow> 's cres option" where
  "onReconnect cc = map_option InvalidateAll cc"

text \<open>\<open>notify\<close> gives the cache after the change and the message that goes out.\<close>

definition notify ::
  "(event \<Rightarrow> 'm option) \<Rightarrow> ('m \<Rightarrow> bool) \<Rightarrow> 's cres option \<Rightarrow> bus option \<Rightarrow> change \<Rightarrow> 's cres option \<times> 'm option" where
  "notify marshal accepts cc bus ch =
    (let (kind, zone, name) = ch;
         (cc, name) =
           (case cc of
              None \<Rightarrow> (None, name)
            | Some c \<Rightarrow> let name = (if kind = KIND_ZONE then [] else name) in (Some (Invalidate c zone name), name))
     in (cc, case bus of None \<Rightarrow> None | Some b \<Rightarrow> Publish marshal accepts b kind zone name))"

text \<open>\<open>NewService\<close> replaces a missing notifier by one that does nothing.\<close>

definition NewService :: "('s \<Rightarrow> change \<Rightarrow> 's) option \<Rightarrow> 's \<Rightarrow> change \<Rightarrow> 's" where
  "NewService nf = (case nf of None \<Rightarrow> (\<lambda>s _. s) | Some f \<Rightarrow> f)"

end
