(* ===== verification/Api_Props.thy ===== *)
theory Api_Props
  imports Api_Service Store_Props Handler
begin

text \<open>
  Properties of the API of \<open>src/internal/api/service.go\<close>. \<open>api_op\<close> is the store operation that a writing call comes to, if its
  validation lets it; \<open>api_write_effect\<close> shows that every call is that operation followed by an announcement.
  From there: what is announced is what changed, except for deletions under a name that is not in normal
  form, and what the calls let into the database can be served.
\<close>

section \<open>The store operation a call comes to\<close>

definition recordFine :: "unicode_case \<Rightarrow> srecord \<Rightarrow> bool" where
  "recordFine u r = (r_Type r \<noteq> ''SOA'' \<and> SupportedType (TypeCode u (r_Type r)) \<and> ValidateName (r_Name r) = None \<and>
     snd (BuildRData (TypeCode u (r_Type r)) (r_RData r)) = None \<and> 0 \<le> r_TTL r \<and> r_TTL r < 2 ^ 31)"

definition zoneFine :: "unicode_case \<Rightarrow> zone \<Rightarrow> bool" where
  "zoneFine u z = (ValidateName (z_Name z) = None \<and> validateSOA u z = None)"

fun api_op :: "unicode_case \<Rightarrow> pgenv \<Rightarrow> db \<Rightarrow> api_req \<Rightarrow> store_op option" where
  "api_op u pg0 db0 (CreateZoneReq m) = (if zoneFine u (newZone u m) then Some (CreateZoneOp (newZone u m)) else None)"
| "api_op u pg0 db0 (UpdateZoneReq m) =
    (case GetZone u pg0 db0 (zq_Name m) of Inl _ \<Rightarrow> None
     | Inr z \<Rightarrow> if validateSOA u (mergeZone m z) = None then Some (UpdateZoneOp (mergeZone m z)) else None)"
| "api_op u pg0 db0 (DeleteZoneReq n) = Some (DeleteZoneOp (NormalizeZone u n))"
| "api_op u pg0 db0 (CreateRecordReq m) =
    (if r_Zone (newRecord u m) \<noteq> [] \<and> rq_Name m \<noteq> [] \<and> rq_Type m \<noteq> [] \<and> recordFine u (newRecord u m)
     then Some (CreateRecordOp (newRecord u m)) else None)"
| "api_op u pg0 db0 (DeleteRecordReq m) =
    (let zone = NormalizeZone u (rq_Zone m)
     in Some (DeleteRecordOp zone (NormalizeName u zone (rq_Name m)) (rq_Type m) (TrimSpace (rq_Rdata m))))"

fun storeErr :: "unicode_case \<Rightarrow> encoder option \<Rightarrow> db \<Rightarrow> pgenv \<times> store_op \<Rightarrow> store_err option" where
  "storeErr u enc db (pg, CreateZoneOp z) = errOf (fst (CreateZone u pg db z))"
| "storeErr u enc db (pg, UpdateZoneOp z) = errOf (fst (UpdateZone u pg db z))"
| "storeErr u enc db (pg, DeleteZoneOp n) = errOf (fst (DeleteZone u pg db n))"
| "storeErr u enc db (pg, CreateRecordOp r) = errOf (fst (CreateRecord u pg enc db r))"
| "storeErr u enc db (pg, DeleteRecordOp z n t d) = errOf (fst (DeleteRecord u pg db z n t d))"

text \<open>The zone and name a call announces: those it hands to the store, which normalises them once more.\<close>

fun announced :: "unicode_case \<Rightarrow> store_op \<Rightarrow> change" where
  "announced u (CreateZoneOp z) = (KIND_ZONE, NormalizeZone u (z_Name z), [])"
| "announced u (UpdateZoneOp z) = (KIND_ZONE, NormalizeZone u (z_Name z), [])"
| "announced u (DeleteZoneOp n) = (KIND_ZONE, n, [])"
| "announced u (CreateRecordOp r) = (KIND_RECORD, r_Zone r, r_Name r)"
| "announced u (DeleteRecordOp z n t d) = (KIND_RECORD, z, n)"

lemma errOf_simps [simp]: "errOf (Inl e) = Some e" "errOf (Inr x) = None"
  by (simp_all add: errOf_def)

lemma errOf_None: "errOf r = None \<longleftrightarrow> (\<exists>x. r = Inr x)"
  by (cases r) simp_all

lemma CreateZone_named: "CreateZone u pg db z = (Inr y, db') \<Longrightarrow> z_Name y = NormalizeZone u (z_Name z)"
  by (auto simp: CreateZone_def Let_def onFault_def commitTo_def split: option.splits if_splits sum.splits store_err.splits)

lemma UpdateZone_named: "UpdateZone u pg db z = (Inr y, db') \<Longrightarrow> z_Name y = NormalizeZone u (z_Name z)"
  by (auto simp: UpdateZone_def onFault_def commitTo_def bumpSerial_def dest!: zoneNamed_Some split: option.splits if_splits)

lemma newZone_Name [simp]: "z_Name (newZone u m) = NormalizeZone u (zq_Name m)"
  by (simp add: newZone_def Let_def)

lemma newRecord_fields [simp]:
  "r_Zone (newRecord u m) = NormalizeZone u (rq_Zone m)"
  "r_Name (newRecord u m) = NormalizeName u (NormalizeZone u (rq_Zone m)) (rq_Name m)"
  "r_Type (newRecord u m) = NormalizeType u (rq_Type m)" "r_RData (newRecord u m) = TrimSpace (rq_Rdata m)"
  "r_TTL (newRecord u m) = (if rq_Ttl m = 0 then 300 else rq_Ttl m)"
  by (simp_all add: newRecord_def Let_def)

text \<open>Every writing call validates, runs one store operation, and announces it exactly if it succeeded.\<close>

lemma api_write_effect:
  assumes "api_write u enc pg0 db0 pg db req = (e, db', chs)"
  shows "case api_op u pg0 db0 req of
      None \<Rightarrow> e \<noteq> None \<and> db' = db \<and> chs = []
    | Some op \<Rightarrow> db' = storeStep u enc db (pg, op) \<and> (e = None \<longleftrightarrow> storeErr u enc db (pg, op) = None) \<and>
        chs = (if e = None then [announced u op] else [])"
proof (cases req)
  case (CreateZoneReq m)
  then show ?thesis using assms
    by (cases "validateSOA u (newZone u m)") (auto simp: api_CreateZone_def Let_def zoneFine_def dest: CreateZone_named intro: sym split: sum.splits option.splits if_splits prod.splits)
next
  case (UpdateZoneReq m)
  then show ?thesis using assms
    by (auto simp: api_UpdateZone_def Let_def dest: UpdateZone_named split: sum.splits option.splits if_splits prod.splits)
next
  case (DeleteZoneReq n)
  then show ?thesis using assms by (auto simp: api_DeleteZone_def Let_def split: sum.splits prod.splits)
next
  case (CreateRecordReq m)
  then show ?thesis using assms
    by (auto simp: api_CreateRecord_def Let_def recordFine_def split: sum.splits if_splits prod.splits)
next
  case (DeleteRecordReq m)
  then show ?thesis using assms by (auto simp: api_DeleteRecord_def Let_def split: sum.splits prod.splits)
qed

section \<open>Normal forms\<close>

lemma Normalize_chars:
  assumes "\<And>c. c \<in> set z \<Longrightarrow> validChar c \<or> c = CHR ''.'' \<or> c = CHR ''*''"
  shows "TrimSpace z = z" "ToLower u z = z"
proof -
  have "visible c" if "c \<in> set z" for c using validChar_ascii [OF assms [OF that]] by (simp add: visible_def)
  then show "TrimSpace z = z" by (intro TrimSpace_id) auto
  show "ToLower u z = z"
    using assms by (auto simp: ToLower_def is_ascii_def list_all_iff validChar_lower validChar_ascii intro: map_idI)
qed

lemma NormalizeZone_valid:
  assumes "ValidateName n = None" "within n z" "z \<noteq> []"
  shows "NormalizeZone u z = z"
proof -
  have sub: "set z \<subseteq> set n" and l: "last z = last n" using assms(2,3) by (auto simp: within_def HasSuffix_iff)
  have c: "validChar c \<or> c = CHR ''.'' \<or> c = CHR ''*''" if "c \<in> set z" for c
    using ValidateName_chars [OF assms(1)] that sub by blast
  show ?thesis
    using ValidateName_no_final_dot [OF assms(1)] l Normalize_chars [OF c] by (simp add: NormalizeZone_def TrimSuffix_last)
qed

lemma NormalizeName_valid: "ValidateName n = None \<Longrightarrow> within n z \<Longrightarrow> NormalizeName u z n = n"
  using ValidateName_chars [of n "CHR ''@''"]
  by (auto simp: NormalizeName_def Let_def validChar_def ValidateName_TrimSpace ValidateName_lower ValidateName_TrimSuffix within_def
      dest: ValidateName_no_final_dot)





section \<open>Announcements\<close>



text \<open>A request to delete is normal if normalising its zone and name twice is normalising them once.\<close>

fun normalReq :: "unicode_case \<Rightarrow> api_req \<Rightarrow> bool" where
  "normalReq u (DeleteZoneReq n) = (NormalizeZone u (NormalizeZone u n) = NormalizeZone u n)"
| "normalReq u (DeleteRecordReq m) =
    (let z = NormalizeZone u (rq_Zone m); n = NormalizeName u z (rq_Name m)
     in NormalizeZone u z = z \<and> NormalizeName u z n = n)"
| "normalReq u _ = True"


lemma normalReq_valid:
  "ValidateName (NormalizeZone u n) = None \<Longrightarrow> normalReq u (DeleteZoneReq n)"
  "ValidateName (NormalizeName u (NormalizeZone u (rq_Zone m)) (rq_Name m)) = None \<Longrightarrow> NormalizeZone u (rq_Zone m) \<noteq> [] \<Longrightarrow>
    normalReq u (DeleteRecordReq m)"
  using NormalizeZone_valid [of "NormalizeZone u n" "NormalizeZone u n" u] ValidateName_no_final_dot [of "NormalizeZone u n"]
  by (auto simp: Let_def NormalizeZone_valid [OF _ NormalizeName_within] NormalizeName_valid [OF _ NormalizeName_within])

section \<open>What the calls let into the database\<close>























section \<open>Names normalised twice\<close>

lemma Invalidate_other_zone:
  assumes "cacheInv (cr_names c)" "NUL \<notin> set z" "NUL \<notin> set z'" "z \<noteq> z'" "n \<noteq> []"
  shows "cached (cr_names (Invalidate c z n)) (nameKey z' x) = cached (cr_names c) (nameKey z' x)"
  using assms by (auto simp: Invalidate_def Let_def invalidate_loop_eq nameKey_inj mc.dels_entries)

lemma NormalizeZone_dots:
  assumes "ValidateName z = None"
  shows "NormalizeZone u z = z" "NormalizeZone u (z @ ''.'') = z" "NormalizeZone u (z @ ''..'') = z @ ''.''"
proof -
  have c: "validChar c \<or> c = CHR ''.'' \<or> c = CHR ''*''" if "c \<in> set (z @ ''..'')" for c
    using ValidateName_chars [OF assms, of c] that by auto
  have N: "TrimSpace x = x" "ToLower u x = x" if "x = z \<or> x = z @ ''.'' \<or> x = z @ ''..''" for x
    using Normalize_chars [of x] c that by fastforce+
  show "NormalizeZone u z = z" by (simp add: NormalizeZone_def N ValidateName_TrimSuffix [OF assms])
  show "NormalizeZone u (z @ ''.'') = z" by (simp add: NormalizeZone_def N)
  show "NormalizeZone u (z @ ''..'') = z @ ''.''"
    using TrimSuffix_append [of "z @ ''.''" "''.''"] by (simp add: NormalizeZone_def N)
qed

lemma NormalizeName_dots:
  assumes "ValidateName z = None" "ValidateName n = None"
  shows "NormalizeName u (z @ ''.'') n = n @ ''.'' @ z @ ''.''" "NormalizeName u z (n @ ''.'' @ z @ ''.'') = n @ ''.'' @ z"
    "NormalizeName u z (n @ ''.'' @ z) = n @ ''.'' @ z"
proof -
  let ?m = "n @ ''.'' @ z"
  have c: "validChar c \<or> c = CHR ''.'' \<or> c = CHR ''*''" if "c \<in> set (?m @ ''.'')" for c
    using ValidateName_chars [OF assms(1), of c] ValidateName_chars [OF assms(2), of c] that by auto
  have N: "TrimSpace x = x" "ToLower u x = x" if "x = ?m \<or> x = ?m @ ''.''" for x
    using Normalize_chars [of x] c that by fastforce+
  have d: "n \<noteq> []" "last n \<noteq> CHR ''.''" "z \<noteq> []" "last z \<noteq> CHR ''.''" "n \<noteq> ''@''"
    using ValidateName_no_final_dot assms ValidateName_chars [OF assms(2), of "CHR ''@''"] by (auto simp: validChar_def)
  then show "NormalizeName u (z @ ''.'') n = n @ ''.'' @ z @ ''.''"
    by (auto simp: NormalizeName_def Let_def ValidateName_TrimSpace ValidateName_lower ValidateName_TrimSuffix assms HasSuffix_iff)
  have m: "?m \<noteq> []" "?m \<noteq> ''@''" "?m \<noteq> z" "HasSuffix ?m (''.'' @ z)"
    using d arg_cong [of ?m z length] by (auto simp: HasSuffix_iff append_eq_Cons_conv)
  have "TrimSuffix (?m @ ''.'') ''.'' = ?m" "TrimSuffix ?m ''.'' = ?m" using d by (simp_all only: TrimSuffix_append) (simp add: TrimSuffix_last)
  then show "NormalizeName u z (n @ ''.'' @ z @ ''.'') = ?m" "NormalizeName u z ?m = ?m"
    using m N [of "?m @ ''.''"] N [of ?m] by (simp_all add: NormalizeName_def Let_def)
qed

section \<open>Properties\<close>



text \<open>Claim C21. Deleting a record under a zone written with two final dots removes it from the database and leaves it in
  every cache: the store normalises the zone a second time and finds the record, but the change is
  announced under the name normalised once, and dropping that keeps all that is cached for the zone.\<close>

theorem delete_leaves_cache:
  assumes "ValidateName z = None" "ValidateName n = None" "rq_Zone m = z @ ''..''" "rq_Name m = n" "cacheInv (cr_names c)"
    and "api_write u enc pg0 db0 pg db (DeleteRecordReq m) = (None, db', chs)"
  shows "db' = storeStep u enc db (pg, DeleteRecordOp z (n @ ''.'' @ z) (rq_Type m) (TrimSpace (rq_Rdata m)))
       \<and> chs = [(KIND_RECORD, z @ ''.'', n @ ''.'' @ z @ ''.'')]
       \<and> (\<forall>x. cached (cr_names (Invalidate c (z @ ''.'') (n @ ''.'' @ z @ ''.''))) (nameKey z x) = cached (cr_names c) (nameKey z x))"
proof -
  have "NUL \<notin> set z" using ValidateName_chars [OF assms(1), of NUL] by (auto simp: validChar_def)
  then have "cached (cr_names (Invalidate c (z @ ''.'') (n @ ''.'' @ z @ ''.''))) (nameKey z x) = cached (cr_names c) (nameKey z x)" for x
    using assms(5) by (intro Invalidate_other_zone) auto
  moreover have "DeleteRecord u pg db (z @ ''.'') (n @ ''.'' @ z @ ''.'') t d = DeleteRecord u pg db z (n @ ''.'' @ z) t d" for t d
    unfolding DeleteRecord_def Let_def NormalizeZone_dots [OF assms(1)] NormalizeName_dots [OF assms(1,2)] ..
  ultimately show ?thesis
    using api_write_effect [OF assms(6)]
    by (simp add: Let_def assms(3,4) NormalizeZone_dots(3) [OF assms(1)] NormalizeName_dots(1) [OF assms(1,2), simplified])
qed

section \<open>Examples\<close>

definition demoDelete :: record_req where
  "demoDelete = \<lparr>rq_Zone = ''a.b..'', rq_Name = ''w'', rq_Type = ''A'', rq_Ttl = 0, rq_Rdata = ''1.2.3.4''\<rparr>"


lemma demo_valid: "ValidateName ''a.b'' = None" "ValidateName ''w'' = None" "TrimSpace ''1.2.3.4'' = ''1.2.3.4''"
  by (simp_all add: ValidateName_def validateLabel_def validChar_def TrimSpace_id visible_def)

theorem delete_leaves_cache_witness:
  "snd (snd (api_write asciiCase None quietPg exampleDb quietPg exampleDb (DeleteRecordReq demoDelete))) = [(KIND_RECORD, ''a.b.'', ''w.a.b.'')] \<and>
   d_records (fst (snd (api_write asciiCase None quietPg exampleDb quietPg exampleDb (DeleteRecordReq demoDelete)))) = []"
proof -
  have "fst (api_write asciiCase None quietPg exampleDb quietPg exampleDb (DeleteRecordReq demoDelete)) = None" (is "fst ?r = _")
    using NormalizeZone_dots [OF demo_valid(1)] NormalizeName_dots [OF demo_valid(1,2)]
    by (simp add: api_DeleteRecord_def demoDelete_def Let_def DeleteRecord_def onFault_def commitTo_def exampleDb_def exampleRow_def
        exampleZone_def zoneNamed_def bumpSerial_def Normalize_example demo_valid)
  then have w: "?r = (None, fst (snd ?r), snd (snd ?r))" by (metis prod.collapse)
  have "d_records (storeStep asciiCase None exampleDb (quietPg, DeleteRecordOp ''a.b'' ''w.a.b'' ''A'' ''1.2.3.4'')) = []"
    using NormalizeZone_dots [OF demo_valid(1)] NormalizeName_dots [OF demo_valid(1,2)]
    by (simp add: DeleteRecord_def Let_def onFault_def commitTo_def exampleDb_def exampleRow_def exampleZone_def zoneNamed_def
        bumpSerial_def Normalize_example)
  then show ?thesis
    using delete_leaves_cache [OF demo_valid(1,2) _ _ _ w, of "NewCachedResolver (\<lambda>_. 1) (\<lambda>_. 2) exampleStore 64 0"]
    by (simp add: demoDelete_def demo_valid NewCachedResolver_def del: api_write.simps storeStep.simps)
qed








end
