(* ===== verification/Cluster.thy ===== *)
theory Cluster
  imports Daemon Api_Props
begin

text \<open>
  Several instances of the daemon of \<open>src/cmd/sharddnsd/main.go\<close> over one database and one message server, as a step relation.
  A node is an instance: its cache and bus as \<open>run\<close> makes them, the calls that have returned from the store and not
  yet run \<open>notify\<close>, the messages its client library has still to send and those it has received. Calls and lookups
  run one at a time here; how the load of a cache entry interleaves with an invalidation is the subject of
  \<open>Cache_Interleaving\<close>. Of NATS the model has what its documentation says: a message goes in order, at most
  once, to every subscriber that is connected, what is published without a connection waits for it, and after a reconnection
  the callback runs some time later. \<open>nd_missed\<close>, \<open>cl_unsent\<close> and \<open>cl_silent\<close> are no part of the program; they record what an
  instance was not told of: messages that came while it was disconnected, changes no message was accepted for,
  and writes that were not announced or announced as something else.
\<close>

section \<open>The state of a cluster\<close>

record 'm node =
  nd_cached :: "store_state cres option"
  nd_bus :: "bus option"
  nd_up :: bool
  nd_callbacks :: nat
  nd_calls :: "change list"
  nd_out :: "'m list"
  nd_inbox :: "'m list"
  nd_missed :: "'m list"

record 'm cluster =
  cl_db :: db
  cl_nodes :: "'m node list"
  cl_unsent :: "(nat \<times> change) list"
  cl_silent :: "(string \<times> string) list"

section \<open>Steps\<close>

text \<open>The write of a call that is not announced as what it is: the call failed although the database had applied it, or
  the zone and name it announces are not those the store has worked on.\<close>

definition silentOf :: "unicode_case \<Rightarrow> pgenv \<Rightarrow> db \<Rightarrow> api_req \<Rightarrow> db \<Rightarrow> db \<Rightarrow> change list \<Rightarrow> (string \<times> string) list" where
  "silentOf u pg0 db0 req db db' chs =
    (case api_op u pg0 db0 req of
       None \<Rightarrow> []
     | Some op \<Rightarrow>
         if map snd chs = [notice u op] \<or> (d_zones db' = d_zones db \<and> d_records db' = d_records db) then []
         else [notice u op])"

definition arrive :: "'m \<Rightarrow> 'm node \<Rightarrow> 'm node" where
  "arrive d nd = (if nd_bus nd \<noteq> None \<and> nd_up nd then nd\<lparr>nd_inbox := nd_inbox nd @ [d]\<rparr> else nd\<lparr>nd_missed := nd_missed nd @ [d]\<rparr>)"

definition receive :: "('m \<Rightarrow> event option) \<Rightarrow> 'm \<Rightarrow> 'm node \<Rightarrow> 'm node" where
  "receive unmarshal d nd =
    (case nd_bus nd of
       None \<Rightarrow> nd
     | Some b \<Rightarrow> nd\<lparr>nd_cached := map_option (Subscribe unmarshal b onEvent d) (nd_cached nd)\<rparr>)"

definition announce :: "(event \<Rightarrow> 'm option) \<Rightarrow> ('m \<Rightarrow> bool) \<Rightarrow> nat \<Rightarrow> change \<Rightarrow> 'm cluster \<Rightarrow> 'm cluster" where
  "announce marshal accepts i ch cl =
    (let nd = cl_nodes cl ! i;
         (cc, msg) = notify marshal accepts (nd_cached nd) (nd_bus nd) ch;
         nd = nd\<lparr>nd_cached := cc, nd_calls := remove1 ch (nd_calls nd)\<rparr>
     in case msg of
          Some d \<Rightarrow> cl\<lparr>cl_nodes := (cl_nodes cl)[i := nd\<lparr>nd_out := nd_out nd @ [d]\<rparr>]\<rparr>
        | None \<Rightarrow> cl\<lparr>cl_nodes := (cl_nodes cl)[i := nd], cl_unsent := cl_unsent cl @ [(i, ch)]\<rparr>)"

text \<open>The steps other than calls and lookups: a call that has returned from the store runs \<open>notify\<close>; the client
  library sends what was published, in order, and the server passes it to the subscribers that are connected;
  a subscriber handles the messages it received, in order; a connection is lost, restored, and some time
  after that \<open>onReconnect\<close> runs.\<close>

inductive cl_calm :: "(event \<Rightarrow> 'm option) \<Rightarrow> ('m \<Rightarrow> event option) \<Rightarrow> 'm cluster \<Rightarrow> 'm cluster \<Rightarrow> bool" for marshal unmarshal where
  announced: "i < length (cl_nodes cl) \<Longrightarrow> ch \<in> set (nd_calls (cl_nodes cl ! i)) \<Longrightarrow>
    cl_calm marshal unmarshal cl (announce marshal accepts i ch cl)"
| sent: "i < length (cl_nodes cl) \<Longrightarrow> nd = cl_nodes cl ! i \<Longrightarrow> nd_up nd \<Longrightarrow> nd_out nd = d # ds \<Longrightarrow>
    cl_calm marshal unmarshal cl (cl\<lparr>cl_nodes := map (arrive d) ((cl_nodes cl)[i := nd\<lparr>nd_out := ds\<rparr>])\<rparr>)"
| received: "i < length (cl_nodes cl) \<Longrightarrow> nd = cl_nodes cl ! i \<Longrightarrow> nd_bus nd \<noteq> None \<Longrightarrow> nd_inbox nd = d # ds \<Longrightarrow>
    cl_calm marshal unmarshal cl (cl\<lparr>cl_nodes := (cl_nodes cl)[i := receive unmarshal d (nd\<lparr>nd_inbox := ds\<rparr>)]\<rparr>)"
| lost: "i < length (cl_nodes cl) \<Longrightarrow> nd = cl_nodes cl ! i \<Longrightarrow>
    cl_calm marshal unmarshal cl (cl\<lparr>cl_nodes := (cl_nodes cl)[i := nd\<lparr>nd_up := False\<rparr>]\<rparr>)"
| restored: "i < length (cl_nodes cl) \<Longrightarrow> nd = cl_nodes cl ! i \<Longrightarrow> \<not> nd_up nd \<Longrightarrow>
    cl_calm marshal unmarshal cl (cl\<lparr>cl_nodes := (cl_nodes cl)[i := nd\<lparr>nd_up := True, nd_callbacks := nd_callbacks nd + 1\<rparr>]\<rparr>)"
| reconnected: "i < length (cl_nodes cl) \<Longrightarrow> nd = cl_nodes cl ! i \<Longrightarrow> nd_callbacks nd > 0 \<Longrightarrow>
    cl_calm marshal unmarshal cl (cl\<lparr>cl_nodes := (cl_nodes cl)[i := nd\<lparr>nd_callbacks := nd_callbacks nd - 1,
      nd_cached := onReconnect (nd_cached nd), nd_missed := []\<rparr>]\<rparr>)"

text \<open>All steps: those, a call of the API up to its return from the store, and the lookups of the DNS server through
  the cache of an instance. A call that reads before it writes may have read any database.\<close>

inductive cl_step ::
  "unicode_case \<Rightarrow> encoder option \<Rightarrow> (event \<Rightarrow> 'm option) \<Rightarrow> ('m \<Rightarrow> event option) \<Rightarrow> 'm cluster \<Rightarrow> 'm cluster \<Rightarrow> bool"
  for u enc marshal unmarshal where
  calm: "cl_calm marshal unmarshal cl cl' \<Longrightarrow> cl_step u enc marshal unmarshal cl cl'"
| called: "i < length (cl_nodes cl) \<Longrightarrow> nd = cl_nodes cl ! i \<Longrightarrow> api_write u enc pg0 db0 pg (cl_db cl) req = (e, db', chs) \<Longrightarrow>
    cl_step u enc marshal unmarshal cl (cl\<lparr>cl_db := db', cl_nodes := (cl_nodes cl)[i := nd\<lparr>nd_calls := nd_calls nd @ chs\<rparr>],
      cl_silent := cl_silent cl @ silentOf u pg0 db0 req (cl_db cl) db' chs\<rparr>)"
| found: "i < length (cl_nodes cl) \<Longrightarrow> nd = cl_nodes cl ! i \<Longrightarrow> nd_cached nd = Some c \<Longrightarrow> ss_db s = cl_db cl \<Longrightarrow>
    (\<And>j ws. mset (pg_rows (ss_envs s j) ws) = mset ws) \<Longrightarrow> envOk (zoneIs u (cl_db cl)) (setIs enc (cl_db cl)) env \<Longrightarrow>
    cached_FindZone (storeResolver u enc) env (c\<lparr>cr_next := s\<rparr>) q = (out, c') \<Longrightarrow>
    cl_step u enc marshal unmarshal cl (cl\<lparr>cl_nodes := (cl_nodes cl)[i := nd\<lparr>nd_cached := Some c'\<rparr>]\<rparr>)"
| looked: "i < length (cl_nodes cl) \<Longrightarrow> nd = cl_nodes cl ! i \<Longrightarrow> nd_cached nd = Some c \<Longrightarrow> ss_db s = cl_db cl \<Longrightarrow>
    (\<And>j ws. mset (pg_rows (ss_envs s j) ws) = mset ws) \<Longrightarrow> envOk (zoneIs u (cl_db cl)) (setIs enc (cl_db cl)) env \<Longrightarrow>
    NUL \<notin> set zone \<Longrightarrow> cached_LookupName (storeResolver u enc) env (c\<lparr>cr_next := s\<rparr>) zone name = (out, c') \<Longrightarrow>
    cl_step u enc marshal unmarshal cl (cl\<lparr>cl_nodes := (cl_nodes cl)[i := nd\<lparr>nd_cached := Some c'\<rparr>]\<rparr>)"

text \<open>A cluster that has just started: fresh caches, empty queues, every bus with an identifier of its own.\<close>

definition dbText :: "db \<Rightarrow> bool" where
  "dbText db = ((\<forall>w \<in> set (d_records db). w_name_rev w = reverseName (w_name w)) \<and> (\<forall>z \<in> set (d_zones db). NUL \<notin> set (z_Name z)))"

definition fresh :: "store_state cres \<Rightarrow> bool" where
  "fresh c = (cacheInv (cr_zones c) \<and> cacheInv (cr_names c) \<and> cached (cr_zones c) = (\<lambda>_. None) \<and> cached (cr_names c) = (\<lambda>_. None))"

definition originsDiffer :: "bus option list \<Rightarrow> bool" where
  "originsDiffer bs = (\<forall>i < length bs. \<forall>j < length bs. i \<noteq> j \<longrightarrow> bs ! i \<noteq> None \<longrightarrow>
     map_option bus_origin (bs ! i) \<noteq> map_option bus_origin (bs ! j))"

definition cl_init :: "'m cluster \<Rightarrow> bool" where
  "cl_init cl = (dbText (cl_db cl) \<and> cl_unsent cl = [] \<and> cl_silent cl = [] \<and>
     originsDiffer (map nd_bus (cl_nodes cl)) \<and>
     (\<forall>nd \<in> set (cl_nodes cl). nd_calls nd = [] \<and> nd_out nd = [] \<and> nd_inbox nd = [] \<and> nd_missed nd = [] \<and> nd_callbacks nd = 0 \<and>
        (\<forall>c. nd_cached nd = Some c \<longrightarrow> fresh c)))"

inductive cl_reach :: "unicode_case \<Rightarrow> encoder option \<Rightarrow> (event \<Rightarrow> 'm option) \<Rightarrow> ('m \<Rightarrow> event option) \<Rightarrow> 'm cluster \<Rightarrow> bool"
  for u enc marshal unmarshal where
  started: "cl_init cl \<Longrightarrow> cl_reach u enc marshal unmarshal cl"
| stepped: "cl_reach u enc marshal unmarshal cl \<Longrightarrow> cl_step u enc marshal unmarshal cl cl' \<Longrightarrow> cl_reach u enc marshal unmarshal cl'"

section \<open>What an instance has still to be told\<close>

definition noticeOf :: "change \<Rightarrow> string \<times> string" where
  "noticeOf ch = (case ch of (kind, zone, name) \<Rightarrow> (zone, if kind = KIND_ZONE then [] else name))"

definition msgNotices :: "('m \<Rightarrow> event option) \<Rightarrow> bus option \<Rightarrow> 'm \<Rightarrow> (string \<times> string) set" where
  "msgNotices unmarshal b d =
    (case unmarshal d of
       None \<Rightarrow> {}
     | Some ev \<Rightarrow> if map_option bus_origin b = Some (ev_Origin ev) then {} else {noticeOf (ev_Kind ev, ev_Zone ev, ev_Name ev)})"

definition pending :: "('m \<Rightarrow> event option) \<Rightarrow> 'm cluster \<Rightarrow> nat \<Rightarrow> (string \<times> string) set" where
  "pending unmarshal cl i =
    (let nd = cl_nodes cl ! i
     in noticeOf ` set (concat (map nd_calls (cl_nodes cl))) \<union>
        (\<Union>d \<in> set (concat (map nd_out (cl_nodes cl))). msgNotices unmarshal (nd_bus nd) d) \<union>
        (\<Union>d \<in> set (nd_inbox nd) \<union> set (nd_missed nd). msgNotices unmarshal (nd_bus nd) d) \<union>
        {noticeOf ch | j ch. (j, ch) \<in> set (cl_unsent cl) \<and> j \<noteq> i} \<union> set (cl_silent cl))"

definition about :: "(string \<times> string) set \<Rightarrow> string \<Rightarrow> string \<Rightarrow> bool" where
  "about ps z n = (\<exists>(zone, name) \<in> ps. z = zone \<and> (name = [] \<or> within name n))"

definition zoneOr :: "unicode_case \<Rightarrow> db \<Rightarrow> (string \<times> string) set \<Rightarrow> string \<Rightarrow> zone option \<Rightarrow> bool" where
  "zoneOr u db ps q r = (zoneIs u db q r \<or> ps \<noteq> {} \<and> (\<forall>y. r = Some y \<longrightarrow> NUL \<notin> set (z_Name y)))"

definition setOr :: "encoder option \<Rightarrow> db \<Rightarrow> (string \<times> string) set \<Rightarrow> string \<Rightarrow> string \<Rightarrow> name_set \<Rightarrow> bool" where
  "setOr enc db ps z n v = (setIs enc db z n v \<or> about ps z n)"

abbreviation cachesOr :: "unicode_case \<Rightarrow> encoder option \<Rightarrow> db \<Rightarrow> (string \<times> string) set \<Rightarrow> store_state cres \<Rightarrow> bool" where
  "cachesOr u enc db ps c \<equiv> cachesOk (zoneOr u db ps) (setOr enc db ps) c"

end
