(* ===== verification/Cluster_Props.thy ===== *)
theory Cluster_Props
  imports Cluster
begin

text \<open>
  What a cluster keeps: a cached answer is that of the database or about something the instance has still to be
  told of. \<open>cachesOr\<close> is this reading of the caches, a contract of resolvers of its own (the interpretation
  \<open>wk\<close>), \<open>clInv\<close> the invariant of all instances. \<open>work\<close> counts what is under way and decreases with every step that
  is not a call, a lookup or a lost connection, so that a cluster can come to rest.
\<close>

section \<open>Answers that are right or still to be corrected\<close>

interpretation wk: resolver_spec "storeResolver u enc" storeOk "\<lambda>s. zoneOr u (ss_db s) ps" "\<lambda>s. setOr enc (ss_db s) ps"
  for u enc ps
proof (unfold_locales, goal_cases)
  case (1 s q out s')
  have "ss_db s' = ss_db s" using 1(2) by (auto simp: storeResolver_def)
  then show ?case using st.find_spec [OF 1] by (auto simp: zoneOr_def)
next
  case (2 s zone name out s')
  have "ss_db s' = ss_db s" using 2(3) by (auto simp: storeResolver_def)
  then show ?case using st.lookup_spec [OF 2] by (auto simp: setOr_def)
next
  case (3 s q z)
  then show ?case using st.zone_text [of s u q z] by (auto simp: zoneOr_def)
qed

lemma cachesOk_mono:
  assumes "cachesOk Z S c" "\<And>q r. Z q r \<Longrightarrow> Z' q r" "\<And>z n v. S z n v \<Longrightarrow> S' z n v"
  shows "cachesOk Z' S' c"
proof -
  have "nameOk S k v g \<Longrightarrow> nameOk S' k v g" for k v g using assms(3) unfolding nameOk_def by blast
  then show ?thesis using assms(1,2) unfolding cachesOk_def coherent_def by blast
qed

lemma envOk_Or: "envOk (zoneIs u db) (setIs enc db) env \<Longrightarrow> envOk (zoneOr u db ps) (setOr enc db ps) env"
  by (auto simp: envOk_def zoneOr_def setOr_def split: sum.splits)

lemma cachesOr_mono: "cachesOr u enc db ps c \<Longrightarrow> ps \<subseteq> ps' \<Longrightarrow> cachesOr u enc db ps' c"
  by (erule cachesOk_mono) (auto simp: zoneOr_def setOr_def about_def)


lemma cachesOr_fresh: "fresh c \<Longrightarrow> cachesOr u enc db ps c"
  by (simp add: fresh_def cachesOk_def coherent_def)

lemma cachesOr_InvalidateAll: "cachesOr u enc db ps c \<Longrightarrow> cachesOr u enc db ps' (InvalidateAll c)"
  by (simp add: cachesOk_def InvalidateAll_def mc.del_inv mc.clear_coherent)

definition wfNotice :: "string \<times> string \<Rightarrow> bool" where
  "wfNotice p = (snd p = [] \<or> within (snd p) (fst p))"

text \<open>Invalidating for a notice makes it void.\<close>

lemma cachesOr_Invalidate:
  assumes "cachesOr u enc db ps c" "ps \<subseteq> insert (zone, name) ps'" "wfNotice (zone, name)"
  shows "cachesOr u enc db ps' (Invalidate c zone name)"
  by (rule Invalidate_transfers [OF assms(1)]) (use assms(2,3) in \<open>auto simp: wfNotice_def setOr_def about_def\<close>)

text \<open>A write leaves right what it does not affect.\<close>

lemma cachesOr_write:
  assumes "cachesOr u enc db ps c" "db' = storeStep u enc db (pg, op)" "dbText db"
    and "ps \<subseteq> ps'" "notice u op \<in> ps' \<or> d_zones db' = d_zones db \<and> d_records db' = d_records db"
  shows "cachesOr u enc db' ps' c"
proof (cases "notice u op \<in> ps'")
  case True
  have nul: "NUL \<notin> set (z_Name y)" if "zoneIs u db q (Some y)" for q y
    using that assms(3) longest_Some by (fastforce simp: zoneIs_def dbText_def)
  show ?thesis
  proof (rule cachesOk_mono [OF assms(1)])
    show "zoneOr u db ps q r \<Longrightarrow> zoneOr u db' ps' q r" for q r using nul True by (auto simp: zoneOr_def)
    show "setOr enc db ps z n v \<Longrightarrow> setOr enc db' ps' z n v" for z n v
      using storeStep_setIs [of enc db z n v u op pg] True assms(4) unfolding assms(2)
      by (cases "notice u op") (auto simp: setOr_def about_def simp del: storeStep.simps)
  qed
next
  case False
  then have "zoneIs u db' = zoneIs u db" "setIs enc db' = setIs enc db"
    using assms(5) by (auto simp: fun_eq_iff zoneIs_def setIs_def enclosing_def)
  then have "cachesOr u enc db' ps c" using assms(1) by (simp add: zoneOr_def [abs_def] setOr_def [abs_def])
  then show ?thesis using assms(4) by (rule cachesOr_mono)
qed

section \<open>The invariant of a cluster\<close>

definition codecOk :: "(event \<Rightarrow> 'm option) \<Rightarrow> ('m \<Rightarrow> event option) \<Rightarrow> bool" where
  "codecOk marshal unmarshal = (\<forall>ev d. marshal ev = Some d \<longrightarrow> unmarshal d = Some ev)"

definition wfMsg :: "('m \<Rightarrow> event option) \<Rightarrow> 'm \<Rightarrow> bool" where
  "wfMsg unmarshal d = (\<forall>ev. unmarshal d = Some ev \<longrightarrow> wfNotice (noticeOf (ev_Kind ev, ev_Zone ev, ev_Name ev)))"

definition nodeOk :: "('m \<Rightarrow> event option) \<Rightarrow> 'm node \<Rightarrow> bool" where
  "nodeOk unmarshal nd = ((\<forall>ch \<in> set (nd_calls nd). wfNotice (noticeOf ch)) \<and> (\<forall>d \<in> set (nd_out nd) \<union> set (nd_inbox nd). wfMsg unmarshal d))"

definition cachesInv :: "unicode_case \<Rightarrow> encoder option \<Rightarrow> ('m \<Rightarrow> event option) \<Rightarrow> 'm cluster \<Rightarrow> bool" where
  "cachesInv u enc unmarshal cl = (\<forall>i < length (cl_nodes cl). \<forall>c. nd_cached (cl_nodes cl ! i) = Some c \<longrightarrow>
     cachesOr u enc (cl_db cl) (pending unmarshal cl i) c)"

definition clInv :: "unicode_case \<Rightarrow> encoder option \<Rightarrow> ('m \<Rightarrow> event option) \<Rightarrow> 'm cluster \<Rightarrow> bool" where
  "clInv u enc unmarshal cl = (dbText (cl_db cl) \<and> originsDiffer (map nd_bus (cl_nodes cl)) \<and>
     (\<forall>nd \<in> set (cl_nodes cl). nodeOk unmarshal nd) \<and> cachesInv u enc unmarshal cl)"

text \<open>The invariant survives a step that changes one node and nothing else, if what the node has been told no longer
  counts as pending and nothing gets lost for the others.\<close>

lemma cachesInv_step:
  assumes "cachesInv u enc unmarshal cl" "cl_db cl' = cl_db cl" "length (cl_nodes cl') = length (cl_nodes cl)"
    and "\<And>k c'. k < length (cl_nodes cl) \<Longrightarrow> nd_cached (cl_nodes cl' ! k) = Some c' \<Longrightarrow>
      \<exists>c. nd_cached (cl_nodes cl ! k) = Some c \<and>
        (cachesOr u enc (cl_db cl) (pending unmarshal cl k) c \<longrightarrow> cachesOr u enc (cl_db cl) (pending unmarshal cl' k) c')"
  shows "cachesInv u enc unmarshal cl'"
  using assms unfolding cachesInv_def by metis

lemma cachesInv_same:
  assumes "cachesInv u enc unmarshal cl" "cl_db cl' = cl_db cl" "map nd_cached (cl_nodes cl') = map nd_cached (cl_nodes cl)"
    and "\<And>k. k < length (cl_nodes cl) \<Longrightarrow> pending unmarshal cl k \<subseteq> pending unmarshal cl' k"
  shows "cachesInv u enc unmarshal cl'"
proof (rule cachesInv_step [OF assms(1,2)])
  show len: "length (cl_nodes cl') = length (cl_nodes cl)" using assms(3) by (rule map_eq_imp_length_eq)
  show "\<exists>c. nd_cached (cl_nodes cl ! k) = Some c \<and> (cachesOr u enc (cl_db cl) (pending unmarshal cl k) c \<longrightarrow>
      cachesOr u enc (cl_db cl) (pending unmarshal cl' k) c')"
    if "k < length (cl_nodes cl)" "nd_cached (cl_nodes cl' ! k) = Some c'" for k c'
    using that assms(3,4) len cachesOr_mono by (metis nth_map)
qed

lemma nodeOk_update:
  "\<forall>nd \<in> set nds. nodeOk unmarshal nd \<Longrightarrow> nodeOk unmarshal nd' \<Longrightarrow> \<forall>nd \<in> set (nds[i := nd']). nodeOk unmarshal nd"
  by (auto dest: subsetD [OF set_update_subset_insert])

lemma noticeOf_simps [simp]: "noticeOf (k, z, if k = KIND_ZONE then [] else n) = noticeOf (k, z, n)"
  by (simp add: noticeOf_def)

text \<open>What a published message tells the other instances.\<close>

lemma notify_effect:
  assumes "notify marshal accepts cc b ch = (cc', msg)" "codecOk marshal unmarshal"
  shows "cc' = map_option (\<lambda>c. Invalidate c (fst (noticeOf ch)) (snd (noticeOf ch))) cc"
    and "msg = Some d \<Longrightarrow> \<exists>bus ev. b = Some bus \<and> unmarshal d = Some ev \<and> ev_Origin ev = bus_origin bus \<and>
      noticeOf (ev_Kind ev, ev_Zone ev, ev_Name ev) = noticeOf ch"
  using assms
  by (auto simp: notify_def Let_def noticeOf_def Publish_def codecOk_def split: prod.splits option.splits if_splits)

text \<open>What \<open>announce\<close> does: the cache of the node drops what the change is about, and the change goes out as a message or counts
  as unsent.\<close>

lemma announce_effect:
  assumes "codecOk marshal unmarshal"
  obtains nd' ds us where "announce marshal accepts i ch cl = cl\<lparr>cl_nodes := (cl_nodes cl)[i := nd'], cl_unsent := cl_unsent cl @ us\<rparr>"
    "nd_cached nd' = map_option (\<lambda>c. Invalidate c (fst (noticeOf ch)) (snd (noticeOf ch))) (nd_cached (cl_nodes cl ! i))"
    "nd_bus nd' = nd_bus (cl_nodes cl ! i)" "nd_calls nd' = remove1 ch (nd_calls (cl_nodes cl ! i))"
    "nd_out nd' = nd_out (cl_nodes cl ! i) @ ds" "nd_inbox nd' = nd_inbox (cl_nodes cl ! i)" "nd_missed nd' = nd_missed (cl_nodes cl ! i)"
    "nd_up nd' = nd_up (cl_nodes cl ! i)" "nd_callbacks nd' = nd_callbacks (cl_nodes cl ! i)"
    "ds = [] \<and> us = [(i, ch)] \<or> (\<exists>d b ev. ds = [d] \<and> us = [] \<and> nd_bus (cl_nodes cl ! i) = Some b \<and> unmarshal d = Some ev \<and>
       ev_Origin ev = bus_origin b \<and> noticeOf (ev_Kind ev, ev_Zone ev, ev_Name ev) = noticeOf ch)"
proof -
  let ?nd = "cl_nodes cl ! i"
  obtain cc msg where n: "notify marshal accepts (nd_cached ?nd) (nd_bus ?nd) ch = (cc, msg)" by fastforce
  note e = notify_effect [OF n assms]
  show ?thesis
  proof (cases msg)
    case None
    then show ?thesis
      using n e(1) by (intro that [where nd' = "?nd\<lparr>nd_cached := cc, nd_calls := remove1 ch (nd_calls ?nd)\<rparr>" and us = "[(i, ch)]" and ds = "[]"]) (simp_all add: announce_def Let_def)
  next
    case (Some d)
    then show ?thesis
      using n e by (intro that [where nd' = "?nd\<lparr>nd_cached := cc, nd_calls := remove1 ch (nd_calls ?nd), nd_out := nd_out ?nd @ [d]\<rparr>" and us = "[]" and ds = "[d]"])
        (simp_all add: announce_def Let_def)
  qed
qed

text \<open>The parts of \<open>pending\<close>, for comparing two states.\<close>

lemma pending_sub:
  assumes "noticeOf ` set (concat (map nd_calls (cl_nodes cl))) \<subseteq> P"
    and "\<And>d. d \<in> set (concat (map nd_out (cl_nodes cl))) \<Longrightarrow> msgNotices unmarshal (nd_bus (cl_nodes cl ! k)) d \<subseteq> P"
    and "\<And>d. d \<in> set (nd_inbox (cl_nodes cl ! k)) \<union> set (nd_missed (cl_nodes cl ! k)) \<Longrightarrow> msgNotices unmarshal (nd_bus (cl_nodes cl ! k)) d \<subseteq> P"
    and "\<And>j ch. (j, ch) \<in> set (cl_unsent cl) \<Longrightarrow> j \<noteq> k \<Longrightarrow> noticeOf ch \<in> P" "set (cl_silent cl) \<subseteq> P"
  shows "pending unmarshal cl k \<subseteq> P"
  unfolding pending_def Let_def by (intro Un_least UN_least) (use assms in auto)

lemma pendingI:
  "ch \<in> set (concat (map nd_calls (cl_nodes cl))) \<Longrightarrow> noticeOf ch \<in> pending unmarshal cl k"
  "d \<in> set (concat (map nd_out (cl_nodes cl))) \<Longrightarrow> msgNotices unmarshal (nd_bus (cl_nodes cl ! k)) d \<subseteq> pending unmarshal cl k"
  "d \<in> set (nd_inbox (cl_nodes cl ! k)) \<Longrightarrow> msgNotices unmarshal (nd_bus (cl_nodes cl ! k)) d \<subseteq> pending unmarshal cl k"
  "d \<in> set (nd_missed (cl_nodes cl ! k)) \<Longrightarrow> msgNotices unmarshal (nd_bus (cl_nodes cl ! k)) d \<subseteq> pending unmarshal cl k"
  "(j, ch) \<in> set (cl_unsent cl) \<Longrightarrow> j \<noteq> k \<Longrightarrow> noticeOf ch \<in> pending unmarshal cl k"
  "p \<in> set (cl_silent cl) \<Longrightarrow> p \<in> pending unmarshal cl k"
  by (auto simp: pending_def Let_def simp del: split_paired_Ex)

text \<open>A step that changes one node: what it takes from the queues, and nothing else, is no longer pending.\<close>

lemma pending_change:
  assumes "i < length (cl_nodes cl)" "nd_bus nd' = nd_bus (cl_nodes cl ! i)"
    and "set (nd_calls (cl_nodes cl ! i)) \<subseteq> C \<union> set (nd_calls nd')" "set (nd_out (cl_nodes cl ! i)) \<subseteq> E \<union> set (nd_out nd')"
    and "k = i \<Longrightarrow> set (nd_inbox (cl_nodes cl ! i)) \<union> set (nd_missed (cl_nodes cl ! i)) \<subseteq> E \<union> set (nd_inbox nd') \<union> set (nd_missed nd')"
    and "cl_nodes cl' = (cl_nodes cl)[i := nd']" "set (cl_unsent cl) \<subseteq> set (cl_unsent cl')" "set (cl_silent cl) \<subseteq> set (cl_silent cl')"
  shows "pending unmarshal cl k \<subseteq> noticeOf ` C \<union> (\<Union>d \<in> E. msgNotices unmarshal (nd_bus (cl_nodes cl ! k)) d) \<union> pending unmarshal cl' k"
    (is "_ \<subseteq> ?A \<union> ?B \<union> ?P")
proof (rule pending_sub)
  have bus: "nd_bus (cl_nodes cl' ! k) = nd_bus (cl_nodes cl ! k)" using assms(1,2,6) by (cases "k = i") auto
  have c: "set (concat (map nd_calls (cl_nodes cl))) \<subseteq> C \<union> set (concat (map nd_calls (cl_nodes cl')))"
    "set (concat (map nd_out (cl_nodes cl))) \<subseteq> E \<union> set (concat (map nd_out (cl_nodes cl')))"
    using concat_update_sub [of i "map nd_calls (cl_nodes cl)" C "nd_calls nd'"] concat_update_sub [of i "map nd_out (cl_nodes cl)" E "nd_out nd'"]
      assms(1,3,4,6) by (simp_all add: map_update)
  show "noticeOf ` set (concat (map nd_calls (cl_nodes cl))) \<subseteq> ?A \<union> ?B \<union> ?P"
  proof (rule image_subsetI)
    fix ch assume "ch \<in> set (concat (map nd_calls (cl_nodes cl)))"
    then have "ch \<in> C \<or> ch \<in> set (concat (map nd_calls (cl_nodes cl')))" using c(1) by (simp only: Un_iff subset_iff)
    then show "noticeOf ch \<in> ?A \<union> ?B \<union> ?P" using pendingI(1) [of ch cl' unmarshal k] by (simp only: Un_iff) (metis imageI)
  qed
  show "msgNotices unmarshal (nd_bus (cl_nodes cl ! k)) d \<subseteq> ?A \<union> ?B \<union> ?P" if "d \<in> set (concat (map nd_out (cl_nodes cl)))" for d
    using pendingI(2) [of d cl' unmarshal k] bus subsetD [OF c(2) that] by auto
  show "msgNotices unmarshal (nd_bus (cl_nodes cl ! k)) d \<subseteq> ?A \<union> ?B \<union> ?P"
    if "d \<in> set (nd_inbox (cl_nodes cl ! k)) \<union> set (nd_missed (cl_nodes cl ! k))" for d
  proof -
    have "d \<in> E \<union> set (nd_inbox (cl_nodes cl' ! k)) \<union> set (nd_missed (cl_nodes cl' ! k))" using that assms(1,5,6) by (cases "k = i") auto
    then show ?thesis using pendingI(3,4) [of d cl' k unmarshal] bus by auto
  qed
  show "noticeOf ch \<in> ?A \<union> ?B \<union> ?P" if "(j, ch) \<in> set (cl_unsent cl)" "j \<noteq> k" for j ch
    using pendingI(5) [of j ch cl' k] that assms(7) by blast
  show "set (cl_silent cl) \<subseteq> ?A \<union> ?B \<union> ?P" using pendingI(6) [of _ cl' unmarshal k] assms(8) by blast
qed

lemmas pending_grow = pending_change [where C = "{}" and E = "{}", simplified]

lemma pending_arrive:
  assumes "cl_nodes cl' = map (arrive d) (cl_nodes cl)" "cl_unsent cl' = cl_unsent cl" "cl_silent cl' = cl_silent cl" "k < length (cl_nodes cl)"
  shows "msgNotices unmarshal (nd_bus (cl_nodes cl ! k)) d \<union> pending unmarshal cl k \<subseteq> pending unmarshal cl' k"
proof -
  have f: "nd_calls (arrive d nd) = nd_calls nd" "nd_out (arrive d nd) = nd_out nd" "nd_bus (arrive d nd) = nd_bus nd"
    "set (nd_inbox (arrive d nd)) \<union> set (nd_missed (arrive d nd)) = insert d (set (nd_inbox nd) \<union> set (nd_missed nd))" for nd :: "'a node"
    by (auto simp: arrive_def)
  show ?thesis unfolding pending_def Let_def using assms by (auto simp: f o_def simp del: split_paired_Ex)
qed

lemma clInvD:
  assumes "clInv u enc unmarshal cl"
  shows "dbText (cl_db cl)" "originsDiffer (map nd_bus (cl_nodes cl))" "cachesInv u enc unmarshal cl"
    "i < length (cl_nodes cl) \<Longrightarrow> nodeOk unmarshal (cl_nodes cl ! i)" "\<forall>nd \<in> set (cl_nodes cl). nodeOk unmarshal nd"
  using assms by (simp_all add: clInv_def)

lemma origin_differs:
  "originsDiffer (map nd_bus nds) \<Longrightarrow> i < length nds \<Longrightarrow> k < length nds \<Longrightarrow> k \<noteq> i \<Longrightarrow> nd_bus (nds ! i) = Some b \<Longrightarrow>
   map_option bus_origin (nd_bus (nds ! k)) \<noteq> Some (bus_origin b)"
  unfolding originsDiffer_def by (metis length_map nth_map option.distinct(1) option.map(2))

lemma announce_pending:
  assumes cl': "cl' = announce marshal accepts i ch cl" and codec: "codecOk marshal unmarshal" and i: "i < length (cl_nodes cl)" and k: "k < length (cl_nodes cl)"
    and differ: "originsDiffer (map nd_bus (cl_nodes cl))"
  shows "pending unmarshal cl k \<subseteq> insert (noticeOf ch) (pending unmarshal cl' k)" "k \<noteq> i \<Longrightarrow> noticeOf ch \<in> pending unmarshal cl' k"
proof -
  obtain nd' ds us where a: "cl' = cl\<lparr>cl_nodes := (cl_nodes cl)[i := nd'], cl_unsent := cl_unsent cl @ us\<rparr>"
    "nd_bus nd' = nd_bus (cl_nodes cl ! i)" "nd_calls nd' = remove1 ch (nd_calls (cl_nodes cl ! i))"
    "nd_out nd' = nd_out (cl_nodes cl ! i) @ ds" "nd_inbox nd' = nd_inbox (cl_nodes cl ! i)" "nd_missed nd' = nd_missed (cl_nodes cl ! i)"
    and m: "ds = [] \<and> us = [(i, ch)] \<or> (\<exists>d b ev. ds = [d] \<and> us = [] \<and> nd_bus (cl_nodes cl ! i) = Some b \<and> unmarshal d = Some ev \<and>
       ev_Origin ev = bus_origin b \<and> noticeOf (ev_Kind ev, ev_Zone ev, ev_Name ev) = noticeOf ch)"
    unfolding cl' by (rule announce_effect [OF codec, where i = i and ch = ch and cl = cl and accepts = accepts]) blast
  have "set (nd_calls (cl_nodes cl ! i)) \<subseteq> {ch} \<union> set (nd_calls nd')" unfolding a(3) by (rule set_remove1_cover)
  then show "pending unmarshal cl k \<subseteq> insert (noticeOf ch) (pending unmarshal cl' k)"
    using pending_change [of i cl nd' "{ch}" "{}" k cl' unmarshal] i a by auto
  show "noticeOf ch \<in> pending unmarshal cl' k" if "k \<noteq> i"
    using m
  proof (elim disjE exE conjE)
    assume "us = [(i, ch)]"
    then show ?thesis using pendingI(5) [of i ch cl' k] a(1) that by simp
  next
    fix d b ev
    assume d: "ds = [d]" "nd_bus (cl_nodes cl ! i) = Some b" "unmarshal d = Some ev" "ev_Origin ev = bus_origin b"
      "noticeOf (ev_Kind ev, ev_Zone ev, ev_Name ev) = noticeOf ch"
    have "d \<in> set (concat (map nd_out (cl_nodes cl')))"
      using set_concat_update(1) [of i "map nd_out (cl_nodes cl)" "nd_out nd'"] i d(1) a(1,4) by (simp add: map_update)
    moreover have "nd_bus (cl_nodes cl' ! k) = nd_bus (cl_nodes cl ! k)" using that a(1) by simp
    ultimately show ?thesis
      using pendingI(2) [of d cl' unmarshal k] origin_differs [OF differ i k that d(2)] d(3-5) by (auto simp: msgNotices_def split: if_splits)
  qed
qed

text \<open>A step that changes one node and nothing of what is pending for any other.\<close>

lemma update_inv:
  assumes inv: "clInv u enc unmarshal cl" and i: "i < length (cl_nodes cl)" "nd_bus nd' = nd_bus (cl_nodes cl ! i)" "nodeOk unmarshal nd'"
    and cl': "cl_nodes cl' = (cl_nodes cl)[i := nd']" "cl_db cl' = cl_db cl"
    and other: "\<And>k. k < length (cl_nodes cl) \<Longrightarrow> k \<noteq> i \<Longrightarrow> pending unmarshal cl k \<subseteq> pending unmarshal cl' k"
    and own: "\<And>c'. nd_cached nd' = Some c' \<Longrightarrow> \<exists>c. nd_cached (cl_nodes cl ! i) = Some c \<and>
      (cachesOr u enc (cl_db cl) (pending unmarshal cl i) c \<longrightarrow> cachesOr u enc (cl_db cl) (pending unmarshal cl' i) c')"
  shows "clInv u enc unmarshal cl'"
proof -
  have "cachesInv u enc unmarshal cl'"
  proof (rule cachesInv_step [OF clInvD(3) [OF inv] cl'(2)])
    show "\<exists>c. nd_cached (cl_nodes cl ! k) = Some c \<and> (cachesOr u enc (cl_db cl) (pending unmarshal cl k) c \<longrightarrow>
        cachesOr u enc (cl_db cl) (pending unmarshal cl' k) c')"
      if "k < length (cl_nodes cl)" "nd_cached (cl_nodes cl' ! k) = Some c'" for k c'
      using that own [of c'] other [of k] cl'(1) cachesOr_mono by (cases "k = i") auto
  qed (simp add: cl')
  then show ?thesis
    using clInvD(1,2) [OF inv] nodeOk_update [OF clInvD(5) [OF inv] i(3)] map_update_same [of nd_bus nd' "cl_nodes cl" i] i(2)
    by (simp add: clInv_def cl')
qed

lemma announce_inv:
  assumes inv: "clInv u enc unmarshal cl" and codec: "codecOk marshal unmarshal"
    and i: "i < length (cl_nodes cl)" "ch \<in> set (nd_calls (cl_nodes cl ! i))"
  shows "clInv u enc unmarshal (announce marshal accepts i ch cl)" (is "clInv _ _ _ ?cl")
proof -
  obtain nd' ds us where a: "?cl = cl\<lparr>cl_nodes := (cl_nodes cl)[i := nd'], cl_unsent := cl_unsent cl @ us\<rparr>"
    "nd_cached nd' = map_option (\<lambda>c. Invalidate c (fst (noticeOf ch)) (snd (noticeOf ch))) (nd_cached (cl_nodes cl ! i))"
    "nd_bus nd' = nd_bus (cl_nodes cl ! i)" "nd_calls nd' = remove1 ch (nd_calls (cl_nodes cl ! i))"
    "nd_out nd' = nd_out (cl_nodes cl ! i) @ ds" "nd_inbox nd' = nd_inbox (cl_nodes cl ! i)"
    and m: "ds = [] \<and> us = [(i, ch)] \<or> (\<exists>d b ev. ds = [d] \<and> us = [] \<and> nd_bus (cl_nodes cl ! i) = Some b \<and> unmarshal d = Some ev \<and>
       ev_Origin ev = bus_origin b \<and> noticeOf (ev_Kind ev, ev_Zone ev, ev_Name ev) = noticeOf ch)"
    by (rule announce_effect [OF codec, where i = i and ch = ch and cl = cl and accepts = accepts]) blast
  note pend = announce_pending [OF refl codec i(1) _ clInvD(2) [OF inv], of _ ch accepts]
  have wf: "wfNotice (noticeOf ch)" using clInvD(4) [OF inv i(1)] i(2) by (simp add: nodeOk_def)
  have ok: "nodeOk unmarshal nd'"
    using clInvD(4) [OF inv i(1)] m wf by (auto simp: nodeOk_def wfMsg_def a dest: notin_set_remove1)
  show ?thesis
  proof (rule update_inv [OF inv i(1) a(3) ok])
    show "\<exists>c. nd_cached (cl_nodes cl ! i) = Some c \<and> (cachesOr u enc (cl_db cl) (pending unmarshal cl i) c \<longrightarrow>
        cachesOr u enc (cl_db cl) (pending unmarshal ?cl i) c')" if "nd_cached nd' = Some c'" for c'
      using that a(2) cachesOr_Invalidate [where zone = "fst (noticeOf ch)" and name = "snd (noticeOf ch)"] pend(1) [OF i(1)] wf by auto
    show "pending unmarshal cl k \<subseteq> pending unmarshal ?cl k" if "k < length (cl_nodes cl)" "k \<noteq> i" for k
      using pend [OF that(1)] that(2) insert_absorb by metis
  qed (simp_all add: a(1))
qed

lemma sent_inv:
  assumes inv: "clInv u enc unmarshal cl" and i: "i < length (cl_nodes cl)" "nd_out (cl_nodes cl ! i) = d # ds"
  shows "clInv u enc unmarshal (cl\<lparr>cl_nodes := map (arrive d) ((cl_nodes cl)[i := (cl_nodes cl ! i)\<lparr>nd_out := ds\<rparr>])\<rparr>)"
    (is "clInv _ _ _ ?cl'")
proof -
  let ?nd' = "(cl_nodes cl ! i)\<lparr>nd_out := ds\<rparr>"
  let ?cl1 = "cl\<lparr>cl_nodes := (cl_nodes cl)[i := ?nd']\<rparr>"
  have f: "nd_cached (arrive d nd) = nd_cached nd" "nd_bus (arrive d nd) = nd_bus nd" for nd by (simp_all add: arrive_def)
  have same: "map nd_cached (cl_nodes ?cl') = map nd_cached (cl_nodes cl)" "map nd_bus (cl_nodes ?cl') = map nd_bus (cl_nodes cl)"
    using map_update_same [of nd_cached ?nd' "cl_nodes cl" i] map_update_same [of nd_bus ?nd' "cl_nodes cl" i] by (simp_all add: f o_def)
  have "pending unmarshal cl k \<subseteq> pending unmarshal ?cl' k" if k: "k < length (cl_nodes cl)" for k
  proof -
    have "pending unmarshal cl k \<subseteq> msgNotices unmarshal (nd_bus (cl_nodes cl ! k)) d \<union> pending unmarshal ?cl1 k"
      using pending_change [of i cl ?nd' "{}" "{d}" k ?cl1 unmarshal] i by auto
    moreover have "nd_bus (cl_nodes ?cl1 ! k) = nd_bus (cl_nodes cl ! k)" using i k by (cases "k = i") auto
    ultimately show ?thesis using pending_arrive [of ?cl' d ?cl1 k unmarshal] k by auto
  qed
  then have "cachesInv u enc unmarshal ?cl'" by (intro cachesInv_same [OF clInvD(3) [OF inv] _ same(1)]) auto
  moreover have "nodeOk unmarshal (arrive d nd)" if "nd \<in> set (cl_nodes ?cl1)" for nd
  proof -
    have "nodeOk unmarshal ?nd'" "wfMsg unmarshal d" using clInvD(4) [OF inv i(1)] i(2) by (auto simp: nodeOk_def)
    then have "nodeOk unmarshal nd" "wfMsg unmarshal d" using that nodeOk_update [OF clInvD(5) [OF inv], of ?nd' i] by auto
    then show ?thesis by (auto simp: nodeOk_def arrive_def)
  qed
  ultimately show ?thesis using clInvD(1,2) [OF inv] same(2) by (simp add: clInv_def)
qed

lemma received_inv:
  assumes inv: "clInv u enc unmarshal cl" and i: "i < length (cl_nodes cl)" "nd_bus (cl_nodes cl ! i) \<noteq> None" "nd_inbox (cl_nodes cl ! i) = d # ds"
  shows "clInv u enc unmarshal (cl\<lparr>cl_nodes := (cl_nodes cl)[i := receive unmarshal d ((cl_nodes cl ! i)\<lparr>nd_inbox := ds\<rparr>)]\<rparr>)"
    (is "clInv _ _ _ ?cl'")
proof -
  let ?nd' = "receive unmarshal d ((cl_nodes cl ! i)\<lparr>nd_inbox := ds\<rparr>)"
  obtain b where b: "nd_bus (cl_nodes cl ! i) = Some b" using i(2) by blast
  have nd': "?nd' = (cl_nodes cl ! i)\<lparr>nd_inbox := ds, nd_cached := map_option (Subscribe unmarshal b onEvent d) (nd_cached (cl_nodes cl ! i))\<rparr>"
    by (simp add: receive_def b)
  have ok: "nodeOk unmarshal ?nd'" "wfMsg unmarshal d" using clInvD(4) [OF inv i(1)] i(3) by (auto simp: nodeOk_def nd')
  have pend: "pending unmarshal cl i \<subseteq> msgNotices unmarshal (Some b) d \<union> pending unmarshal ?cl' i"
    using pending_change [of i cl ?nd' "{}" "{d}" i ?cl' unmarshal] i by (auto simp: nd' b)
  show ?thesis
  proof (rule update_inv [OF inv i(1) _ ok(1)])
    show "pending unmarshal cl k \<subseteq> pending unmarshal ?cl' k" if "k \<noteq> i" for k
      using pending_grow [of i cl ?nd' k ?cl' unmarshal] i(1) that by (simp add: nd')
    show "\<exists>c. nd_cached (cl_nodes cl ! i) = Some c \<and> (cachesOr u enc (cl_db cl) (pending unmarshal cl i) c \<longrightarrow>
        cachesOr u enc (cl_db cl) (pending unmarshal ?cl' i) c')" if c': "nd_cached ?nd' = Some c'" for c'
    proof -
      obtain c where c: "nd_cached (cl_nodes cl ! i) = Some c" "c' = Subscribe unmarshal b onEvent d c" using c' by (auto simp: nd')
      have "cachesOr u enc (cl_db cl) (pending unmarshal ?cl' i) c'" if "cachesOr u enc (cl_db cl) (pending unmarshal cl i) c"
        using cachesOr_mono [OF that] cachesOr_Invalidate [OF that] pend ok(2) c(2)
        by (auto simp: Subscribe_def onEvent_def msgNotices_def wfMsg_def noticeOf_def split: option.splits if_splits)
      then show ?thesis using c(1) by blast
    qed
  qed (simp_all add: nd')
qed

lemma calm_inv:
  assumes "cl_calm marshal unmarshal cl cl'" "clInv u enc unmarshal cl" "codecOk marshal unmarshal"
  shows "clInv u enc unmarshal cl'"
  using assms
proof (induction rule: cl_calm.induct)
  case (announced i cl ch accepts)
  then show ?case using announce_inv by blast
next
  case (sent i cl nd d ds)
  then show ?case using sent_inv [of u enc unmarshal cl i d ds] by simp
next
  case (received i cl nd d ds)
  then show ?case using received_inv [of u enc unmarshal cl i d ds] by simp
next
  case (lost i cl nd)
  then show ?case
    using clInvD(4) [OF lost(3), of i] pending_grow [of i cl "nd\<lparr>nd_up := False\<rparr>" _ "cl\<lparr>cl_nodes := (cl_nodes cl)[i := nd\<lparr>nd_up := False\<rparr>]\<rparr>" unmarshal]
    by (intro update_inv [OF lost(3,1), where nd' = "nd\<lparr>nd_up := False\<rparr>"]) (auto simp: nodeOk_def intro: cachesOr_mono)
next
  case (restored i cl nd)
  let ?nd' = "nd\<lparr>nd_up := True, nd_callbacks := nd_callbacks nd + 1\<rparr>"
  show ?case
    using restored clInvD(4) [OF restored(4), of i] pending_grow [of i cl ?nd' _ "cl\<lparr>cl_nodes := (cl_nodes cl)[i := ?nd']\<rparr>" unmarshal]
    by (intro update_inv [OF restored(4,1), where nd' = ?nd']) (auto simp: nodeOk_def intro: cachesOr_mono)
next
  case (reconnected i cl nd)
  let ?nd' = "nd\<lparr>nd_callbacks := nd_callbacks nd - 1, nd_cached := onReconnect (nd_cached nd), nd_missed := []\<rparr>"
  show ?case
    using reconnected clInvD(4) [OF reconnected(4), of i] pending_grow [of i cl ?nd' _ "cl\<lparr>cl_nodes := (cl_nodes cl)[i := ?nd']\<rparr>" unmarshal]
    by (intro update_inv [OF reconnected(4,1), where nd' = ?nd']) (auto simp: nodeOk_def onReconnect_def intro: cachesOr_InvalidateAll)
qed

lemma dbText_simps [simp]: "dbText (db\<lparr>d_next := n\<rparr>) = dbText db"
  by (simp add: dbText_def)

lemma dbText_putZone: "dbText db \<Longrightarrow> NUL \<notin> set (z_Name z) \<Longrightarrow> dbText (putZone z db)"
  by (auto simp: dbText_def putZone_def)

lemma dbText_zoneNamed: "dbText db \<Longrightarrow> zoneNamed db n = Some z \<Longrightarrow> NUL \<notin> set (z_Name z)"
  by (auto simp: dbText_def dest: zoneNamed_Some)

lemma dbText_createdDb: "dbText db \<Longrightarrow> mayCreate u pg db r z' \<Longrightarrow> dbText (createdDb u pg r z' db)"
proof -
  assume a: "dbText db" "mayCreate u pg db r z'"
  then have "NUL \<notin> set (z_Name z')" using dbText_zoneNamed [OF a(1)] by (auto simp: mayCreate_def Let_def bumpSerial_def split: if_splits)
  then have "dbText (putZone z' db)" using a(1) dbText_putZone by blast
  then show ?thesis using a(1) unfolding dbText_def createdDb_fields by (auto split: if_splits)
qed

lemma dbText_deletedDb: assumes "dbText db" shows "dbText (deletedDb u pg z n t d db)"
proof -
  let ?db = "db\<lparr>d_records := filter (\<lambda>x. \<not> hits u pg z n t d x) (d_records db)\<rparr>"
  have "dbText ?db" using assms by (auto simp: dbText_def)
  then show ?thesis
    using assms dbText_zoneNamed [OF assms] by (auto simp: deletedDb_def Let_def bumpSerial_def intro!: dbText_putZone split: option.splits if_splits)
qed

lemma dbText_storeStep:
  assumes "dbText db" "\<And>z. op = CreateZoneOp z \<Longrightarrow> NUL \<notin> set (NormalizeZone u (z_Name z))"
  shows "dbText (storeStep u enc db (pg, op))"
proof (cases op)
  case (CreateZoneOp z)
  then show ?thesis using assms by (auto simp: snd_CreateZone Let_def dbText_def)
next
  case (UpdateZoneOp z)
  then show ?thesis using assms(1) dbText_zoneNamed [OF assms(1)]
    by (auto simp: UpdateZone_def snd_onFault snd_commitTo bumpSerial_def intro!: dbText_putZone split: option.splits if_splits)
next
  case (DeleteZoneOp n)
  then show ?thesis using assms(1) by (auto simp: DeleteZone_def Let_def snd_onFault snd_commitTo dbText_def)
next
  case (CreateRecordOp r)
  then show ?thesis
    using CreateRecord_outcome [of u pg enc db r "fst (CreateRecord u pg enc db r)" "snd (CreateRecord u pg enc db r)"]
      dbText_createdDb [OF assms(1)] assms(1) by auto
next
  case (DeleteRecordOp zo m t d)
  then show ?thesis
    using DeleteRecord_outcome [of u pg db zo m t d "fst (DeleteRecord u pg db zo m t d)" "snd (DeleteRecord u pg db zo m t d)"]
      dbText_deletedDb [OF assms(1)] assms(1) by auto
qed

lemma dbText_write:
  assumes "dbText db" "api_write u enc pg0 db0 pg db req = (e, db', chs)"
  shows "dbText db'"
proof (cases "api_op u pg0 db0 req")
  case None
  then show ?thesis using api_write_effect [OF assms(2)] assms(1) by simp
next
  case (Some op)
  have "NUL \<notin> set (NormalizeZone u (z_Name z))" if op: "op = CreateZoneOp z" for z
  proof -
    have v: "ValidateName (z_Name z) = None" using Some op by (cases req) (auto simp: zoneFine_def Let_def split: if_splits sum.splits)
    then show ?thesis using NormalizeZone_dots(1) [OF v] ValidateName_chars [OF v, of NUL] by (auto simp: validChar_def)
  qed
  then show ?thesis using dbText_storeStep [OF assms(1)] api_write_effect [OF assms(2)] Some by simp
qed

lemma api_write_wf:
  assumes "api_write u enc pg0 db0 pg db req = (e, db', chs)" "ch \<in> set chs"
  shows "wfNotice (noticeOf ch)"
proof (cases "api_op u pg0 db0 req")
  case None
  then show ?thesis using api_write_effect [OF assms(1)] assms(2) by simp
next
  case (Some op)
  then have "ch = announced u op" using api_write_effect [OF assms(1)] assms(2) by (auto split: if_splits)
  then show ?thesis using Some NormalizeName_within
    by (cases req) (auto simp: wfNotice_def noticeOf_def Let_def split: if_splits sum.splits)
qed

lemma called_inv:
  assumes inv: "clInv u enc unmarshal cl" and i: "i < length (cl_nodes cl)"
    and w: "api_write u enc pg0 db0 pg (cl_db cl) req = (e, db', chs)"
  shows "clInv u enc unmarshal (cl\<lparr>cl_db := db', cl_nodes := (cl_nodes cl)[i := (cl_nodes cl ! i)\<lparr>nd_calls := nd_calls (cl_nodes cl ! i) @ chs\<rparr>],
      cl_silent := cl_silent cl @ silentOf u pg0 db0 req (cl_db cl) db' chs\<rparr>)" (is "clInv _ _ _ ?cl'")
proof -
  let ?nd' = "(cl_nodes cl ! i)\<lparr>nd_calls := nd_calls (cl_nodes cl ! i) @ chs\<rparr>"
  have ok: "nodeOk unmarshal ?nd'" using clInvD(4) [OF inv i] api_write_wf [OF w] by (auto simp: nodeOk_def)
  have grow: "pending unmarshal cl k \<subseteq> pending unmarshal ?cl' k" for k
    using pending_grow [of i cl ?nd' k ?cl' unmarshal] i by auto
  have "set chs \<subseteq> set (concat (map nd_calls (cl_nodes ?cl')))"
    using set_concat_update(1) [of i "map nd_calls (cl_nodes cl)" "nd_calls ?nd'"] i by (auto simp: map_update)
  then have told: "ch \<in> set chs \<Longrightarrow> noticeOf ch \<in> pending unmarshal ?cl' k" for ch k using pendingI(1) by blast
  have silent: "p \<in> set (silentOf u pg0 db0 req (cl_db cl) db' chs) \<Longrightarrow> p \<in> pending unmarshal ?cl' k" for p k
    using pendingI(6) [of p ?cl'] by simp
  have "cachesOr u enc db' (pending unmarshal ?cl' k) c"
    if k: "k < length (cl_nodes cl)" "nd_cached (cl_nodes cl ! k) = Some c" for k c
  proof (cases "api_op u pg0 db0 req")
    case None
    then have "db' = cl_db cl" using api_write_effect [OF w] by simp
    then show ?thesis using clInvD(3) [OF inv] k cachesOr_mono [OF _ grow] by (auto simp: cachesInv_def)
  next
    case (Some op)
    have c: "cachesOr u enc (cl_db cl) (pending unmarshal cl k) c" using clInvD(3) [OF inv] k by (auto simp: cachesInv_def)
    have "notice u op \<in> pending unmarshal ?cl' k \<or> d_zones db' = d_zones (cl_db cl) \<and> d_records db' = d_records (cl_db cl)"
    proof (cases "map snd chs = [notice u op]")
      case True
      then obtain ch where ch: "chs = [ch]" "snd ch = notice u op" by (cases chs) auto
      then have "ch = announced u op" using Some api_write_effect [OF w] by (auto split: if_splits)
      then have "noticeOf ch = notice u op" using ch(2) by (cases op) (auto simp: noticeOf_def)
      then show ?thesis using told [of ch k] ch(1) by simp
    qed (use silent [of "notice u op" k] Some in \<open>auto simp: silentOf_def\<close>)
    then show ?thesis using cachesOr_write [OF c _ clInvD(1) [OF inv] grow] api_write_effect [OF w] Some by auto
  qed
  then have "cachesInv u enc unmarshal ?cl'"
    unfolding cachesInv_def using i by (auto simp: nth_list_update split: if_splits)
  then show ?thesis
    using dbText_write [OF clInvD(1) [OF inv] w] clInvD(2) [OF inv] nodeOk_update [OF clInvD(5) [OF inv] ok]
      map_update_same [of nd_bus ?nd' "cl_nodes cl" i] by (simp add: clInv_def)
qed

lemma lookup_inv:
  assumes inv: "clInv u enc unmarshal cl" and i: "i < length (cl_nodes cl)" "nd_cached (cl_nodes cl ! i) = Some c"
    and s: "ss_db s = cl_db cl" "\<And>j ws. mset (pg_rows (ss_envs s j) ws) = mset ws" "envOk (zoneIs u (cl_db cl)) (setIs enc (cl_db cl)) env"
    and c': "cached_FindZone (storeResolver u enc) env (c\<lparr>cr_next := s\<rparr>) q = (out, c') \<or>
      NUL \<notin> set zone \<and> cached_LookupName (storeResolver u enc) env (c\<lparr>cr_next := s\<rparr>) zone name = (out', c')"
  shows "clInv u enc unmarshal (cl\<lparr>cl_nodes := (cl_nodes cl)[i := (cl_nodes cl ! i)\<lparr>nd_cached := Some c'\<rparr>]\<rparr>)" (is "clInv _ _ _ ?cl'")
proof -
  let ?nd' = "(cl_nodes cl ! i)\<lparr>nd_cached := Some c'\<rparr>"
  let ?ps = "pending unmarshal cl i"
  have pend: "pending unmarshal cl k \<subseteq> pending unmarshal ?cl' k" for k using pending_grow [of i cl ?nd' k ?cl' unmarshal] i(1) by simp
  let ?c = "c\<lparr>cr_next := s\<rparr>"
  have ok: "storeOk (cr_next ?c)" using clInvD(1) [OF inv] s(1,2) by (simp add: storeOk_def dbText_def)
  have ca: "cachesOr u enc (ss_db (cr_next ?c)) ?ps ?c" using clInvD(3) [OF inv] i s(1) by (simp add: cachesInv_def)
  have en: "envOk (zoneOr u (ss_db (cr_next ?c)) ?ps) (setOr enc (ss_db (cr_next ?c)) ?ps) env" using envOk_Or [OF s(3)] s(1) by simp
  have "cachesOr u enc (ss_db (cr_next ?c)) ?ps c'"
    using c' wk.cached_FindZone_ok [OF ok ca en] wk.cached_LookupName_ok [OF ok ca en] by blast
  then have "cachesOr u enc (cl_db cl) ?ps c'" using s(1) by simp
  then show ?thesis
    using i clInvD(4) [OF inv i(1)] pend cachesOr_mono
    by (intro update_inv [OF inv i(1), where nd' = ?nd']) (auto simp: nodeOk_def)
qed

lemma step_inv:
  assumes "cl_step u enc marshal unmarshal cl cl'" "clInv u enc unmarshal cl" "codecOk marshal unmarshal"
  shows "clInv u enc unmarshal cl'"
  using assms
proof (induction rule: cl_step.induct)
  case (calm cl cl')
  then show ?case using calm_inv by blast
next
  case (called i cl nd pg0 db0 pg req e db' chs)
  then show ?case using called_inv [of u enc unmarshal cl i pg0 db0 pg req e db' chs] by simp
next
  case (found i cl nd c s env q out c')
  then show ?case using lookup_inv [of u enc unmarshal cl i c s env q out c'] by simp
next
  case (looked i cl nd c s env zone name out c')
  then show ?case using lookup_inv [of u enc unmarshal cl i c s env _ _ c' zone name out] by simp
qed

lemma init_inv: "cl_init cl \<Longrightarrow> clInv u enc unmarshal cl"
  by (auto simp: cl_init_def clInv_def nodeOk_def cachesInv_def intro!: cachesOr_fresh dest!: nth_mem)

lemma cluster_inv: "cl_reach u enc marshal unmarshal cl \<Longrightarrow> codecOk marshal unmarshal \<Longrightarrow> clInv u enc unmarshal cl"
  by (induction rule: cl_reach.induct) (auto intro: init_inv step_inv)

section \<open>Lost connections\<close>





section \<open>Coming to rest\<close>













section \<open>Properties\<close>

text \<open>Claim C4. No instance of a cluster serves stale data without a correction under way. Whatever the interleaving of API
  calls, lookups, deliveries, lost and restored connections, a record set or a zone that the cache of an
  instance holds is the one of the database, unless a change about it is pending for that instance: a call that has not
  yet run its notification, a message on its way to the instance or missed while it was disconnected, or a
  write that no message tells of.\<close>

theorem cluster_coherent:
  assumes "cl_reach u enc marshal unmarshal cl" "codecOk marshal unmarshal"
    and "i < length (cl_nodes cl)" "nd_cached (cl_nodes cl ! i) = Some c"
  shows "(\<forall>now z n ns. fst (Get now (cr_names c) (nameKey z n)) = Some ns \<longrightarrow> NUL \<notin> set z \<longrightarrow> within n z \<longrightarrow>
            setIs enc (cl_db cl) z n ns \<or> about (pending unmarshal cl i) z n)
       \<and> (\<forall>now q r. fst (Get now (cr_zones c) q) = Some r \<longrightarrow> zoneIs u (cl_db cl) q r \<or> pending unmarshal cl i \<noteq> {})"
proof -
  have ok: "cachesOr u enc (cl_db cl) (pending unmarshal cl i) c"
    using cluster_inv [OF assms(1,2)] assms(3,4) by (simp add: clInv_def cachesInv_def)
  have "setOr enc (cl_db cl) (pending unmarshal cl i) z n ns"
    if g: "fst (Get now (cr_names c) (nameKey z n)) = Some ns" "NUL \<notin> set z" "within n z" for now z n ns
  proof -
    obtain g where "nameOk (setOr enc (cl_db cl) (pending unmarshal cl i)) (nameKey z n) ns g"
      using mc.get_coherent [OF _ g(1)] ok by (auto simp: cachesOk_def)
    then show ?thesis using g(2,3) nameKey_inj by (auto simp: nameOk_def)
  qed
  moreover have "zoneOr u (cl_db cl) (pending unmarshal cl i) q r" if "fst (Get now (cr_zones c) q) = Some r" for now q r
    using mc.get_coherent [OF _ that] ok by (auto simp: cachesOk_def)
  ultimately show ?thesis by (auto simp: setOr_def zoneOr_def)
qed



section \<open>Examples\<close>

definition demoNode :: "string \<Rightarrow> event node" where
  "demoNode origin = \<lparr>nd_cached = Some (NewCachedResolver (\<lambda>_. 1) (\<lambda>_. 2) exampleStore 64 0),
     nd_bus = Some \<lparr>bus_subject = ''s'', bus_origin = origin\<rparr>, nd_up = True, nd_callbacks = 0, nd_calls = [], nd_out = [],
     nd_inbox = [], nd_missed = []\<rparr>"

definition demoCluster :: "db \<Rightarrow> event cluster" where
  "demoCluster db = \<lparr>cl_db = db, cl_nodes = [demoNode ''x'', demoNode ''y''], cl_unsent = [], cl_silent = []\<rparr>"

lemma demo_codec: "codecOk Some Some"
  by (simp add: codecOk_def)

lemma demoCluster_init: "dbText db \<Longrightarrow> cl_init (demoCluster db)"
  by (simp add: cl_init_def demoCluster_def demoNode_def originsDiffer_def less_Suc_eq fresh_def NewCachedResolver_def nth_Cons')

lemma demo_dbText: "dbText exampleDb" "dbText emptyDb"
  by (simp_all add: dbText_def exampleDb_def exampleRow_def exampleZone_def)

text \<open>The cache of the first node after a lookup.\<close>

definition demoCache :: "store_state cres" where
  "demoCache = snd (cached_FindZone (storeResolver asciiCase None) quietCenv (NewCachedResolver (\<lambda>_. 1) (\<lambda>_. 2) exampleStore 64 0) ''w.a.b'')"

lemma demoCache_hit: "fst (Get 0 (cr_zones demoCache) ''w.a.b'') = Some (Some exampleZone)"
proof -
  let ?z = "New (\<lambda>_. 1) 72 0 :: zone option cache"
  have "cr_zones demoCache = SetKey rev 0 (?z\<lparr>c_misses := 1\<rparr>) ''w.a.b'' [] (Some exampleZone) (Epoch (?z\<lparr>c_misses := 1\<rparr>))"
    by (simp add: demoCache_def cached_FindZone_def Let_def NewCachedResolver_def quietCenv_def loadZone_def storeResolver_def
        exampleStore_def FindZone_example signed_divide_int_def)
  moreover have "cacheInv (?z\<lparr>c_misses := 1\<rparr>)" using mc.get_keeps(1) [of 0 ?z "[]"] by simp
  ultimately show ?thesis
    using Set_then_Get [of "?z\<lparr>c_misses := 1\<rparr>" "Epoch (?z\<lparr>c_misses := 1\<rparr>)" 0 0 rev "''w.a.b''" "[]" "Some exampleZone"] by (simp add: New_def Let_def)
qed

definition demoFound :: "event cluster" where
  "demoFound = (demoCluster exampleDb)\<lparr>cl_nodes := [(demoNode ''x'')\<lparr>nd_cached := Some demoCache\<rparr>, demoNode ''y'']\<rparr>"

lemma demoFound_reach: "cl_reach asciiCase None Some Some demoFound"
proof -
  let ?c = "NewCachedResolver (\<lambda>_. 1) (\<lambda>_. 2) exampleStore 64 0"
  have "cl_step asciiCase None Some Some (demoCluster exampleDb)
      (demoCluster exampleDb\<lparr>cl_nodes := (cl_nodes (demoCluster exampleDb))[0 := (demoNode ''x'')\<lparr>nd_cached := Some demoCache\<rparr>]\<rparr>)"
    by (rule cl_step.found [where s = exampleStore and env = quietCenv and q = "''w.a.b''" and c = ?c])
       (auto simp: demoCluster_def demoNode_def exampleStore_def envOk_def quietCenv_def demoCache_def NewCachedResolver_def prod_eq_iff)
  then show ?thesis
    using cl_reach.stepped [OF cl_reach.started [OF demoCluster_init [OF demo_dbText(1)]]] by (simp add: demoFound_def demoCluster_def)
qed

theorem cluster_coherent_witness: "zoneIs asciiCase exampleDb ''w.a.b'' (Some exampleZone)"
proof -
  have "pending Some demoFound 0 = {}" by (simp add: pending_def demoFound_def demoCluster_def demoNode_def)
  then show ?thesis
    using cluster_coherent [OF demoFound_reach demo_codec, of 0 demoCache] demoCache_hit by (simp add: demoFound_def demoCluster_def) 
qed





end
