(* ===== verification/Config.thy ===== *)
theory Config
  imports Store_Props
begin

text \<open>
  The configuration of \<open>src/internal/config/config.go\<close>. The environment of the process is a map from names to values and the
  number of processors an argument. \<open>time.ParseDuration\<close> is written out, with the arithmetic of \<open>float64\<close> that it
  uses for fractions done exactly, on natural numbers.
\<close>

section \<open>Fractions in \<open>float64\<close>\<close>

text \<open>The number of binary digits, and the nearest number of 53 binary digits to \<open>n / d\<close>, ties to even, as a fraction.
  Neither overflow nor subnormal numbers occur in the range of \<open>ParseDuration\<close>.\<close>

function bitLen :: "nat \<Rightarrow> nat" where
  "bitLen n = (if n = 0 then 0 else bitLen (n div 2) + 1)"
  by pat_completeness auto
termination by (relation "measure id") auto

declare bitLen.simps [simp del]

definition scaled :: "nat \<Rightarrow> nat \<Rightarrow> int \<Rightarrow> nat \<times> nat" where
  "scaled n d s = (if s \<ge> 0 then (n * 2 ^ nat s, d) else (n, d * 2 ^ nat (- s)))"

definition round53 :: "nat \<Rightarrow> nat \<Rightarrow> nat \<times> nat" where
  "round53 n d =
    (if n = 0 then (0, 1)
     else let s = 53 + int (bitLen d) - int (bitLen n);
              (p, q) = scaled n d s;
              s = (if p div q \<ge> 2 ^ 53 then s - 1 else s);
              (p, q) = scaled n d s;
              m = p div q; r = p mod q;
              m = (if 2 * r > q \<or> 2 * r = q \<and> odd m then m + 1 else m)
          in if s \<ge> 0 then (m, 2 ^ nat s) else (m * 2 ^ nat (- s), 1))"

text \<open>\<open>uint64(float64(f) * (float64(unit) / scale))\<close>.\<close>

definition fraction :: "nat \<Rightarrow> nat \<Rightarrow> nat \<Rightarrow> nat" where
  "fraction f unit scale =
    (let (a, b) = round53 f 1; (c, d) = round53 unit scale; (n, m) = round53 (a * c) (b * d) in n div m)"

section \<open>Durations\<close>

text \<open>\<open>leadingInt\<close> and \<open>leadingFraction\<close>: what follows the digits, and the digits read; of a fraction, those that fit.\<close>

fun leadingInt :: "nat \<Rightarrow> string \<Rightarrow> (nat \<times> string) option" where
  "leadingInt x [] = Some (x, [])"
| "leadingInt x (c # s) =
    (if \<not> isDigit c then Some (x, c # s)
     else if x > 2 ^ 63 div 10 then None
     else let x = x * 10 + digit_val c in if x > 2 ^ 63 then None else leadingInt x s)"

fun leadingFraction :: "nat \<Rightarrow> nat \<Rightarrow> bool \<Rightarrow> string \<Rightarrow> nat \<times> nat \<times> string" where
  "leadingFraction x scale overflow [] = (x, scale, [])"
| "leadingFraction x scale overflow (c # s) =
    (if \<not> isDigit c then (x, scale, c # s)
     else if overflow then leadingFraction x scale overflow s
     else if x > (2 ^ 63 - 1) div 10 then leadingFraction x scale True s
     else let y = x * 10 + digit_val c
          in if y > 2 ^ 63 then leadingFraction x scale True s else leadingFraction y (scale * 10) overflow s)"

definition unitMap :: "(string \<times> nat) list" where
  "unitMap = [(''ns'', 1), (''us'', 1000), ([CHR 0xC2, CHR 0xB5, CHR ''s''], 1000), ([CHR 0xCE, CHR 0xBC, CHR ''s''], 1000),
     (''ms'', 1000000), (''s'', 1000000000), (''m'', 60 * 1000000000), (''h'', 3600 * 1000000000)]"

text \<open>One turn of the loop of \<open>ParseDuration\<close>: the value read and the rest.\<close>

definition durationTurn :: "string \<Rightarrow> (nat \<times> string) option" where
  "durationTurn s =
    (if \<not> (hd s = CHR ''.'' \<or> isDigit (hd s)) then None
     else case leadingInt 0 s of
            None \<Rightarrow> None
          | Some (v, s1) \<Rightarrow>
             (let pre = length s \<noteq> length s1;
                  (f, scale, s2, post) =
                    (if s1 \<noteq> [] \<and> hd s1 = CHR ''.''
                     then let (f, scale, s2) = leadingFraction 0 1 False (tl s1) in (f, scale, s2, length (tl s1) \<noteq> length s2)
                     else (0, 1, s1, False));
                  name = takeWhile (\<lambda>c. \<not> (c = CHR ''.'' \<or> isDigit c)) s2
              in if \<not> pre \<and> \<not> post then None
                 else if name = [] then None
                 else case map_of unitMap name of
                        None \<Rightarrow> None
                      | Some unit \<Rightarrow>
                          if v > 2 ^ 63 div unit then None
                          else let v = v * unit; v = (if f > 0 then v + fraction f unit scale else v)
                               in if f > 0 \<and> v > 2 ^ 63 then None else Some (v, drop (length name) s2)))"

lemma leadingInt_shorter: "leadingInt x s = Some (v, s') \<Longrightarrow> length s' \<le> length s"
  by (induction x s rule: leadingInt.induct) (auto simp: Let_def split: if_splits)

lemma leadingFraction_shorter: "leadingFraction x scale ov s = (f, sc, s') \<Longrightarrow> length s' \<le> length s"
  by (induction x scale ov s rule: leadingFraction.induct) (auto simp: Let_def split: if_splits)

lemma durationTurn_shorter: "durationTurn s = Some (v, s') \<Longrightarrow> length s' < length s"
  by (cases s) (auto simp: durationTurn_def Let_def split: if_splits option.splits prod.splits
      dest!: leadingInt_shorter leadingFraction_shorter takeWhile_eq_Nil_iff [THEN iffD2])

function duration_loop :: "nat \<Rightarrow> string \<Rightarrow> nat option" where
  "duration_loop d s =
    (if s = [] then Some d
     else case durationTurn s of
            None \<Rightarrow> None
          | Some (v, s') \<Rightarrow> let d = (d + v) mod 2 ^ 64 in if d > 2 ^ 63 then None else duration_loop d s')"
  by pat_completeness auto
termination by (relation "measure (\<lambda>(d, s). length s)") (auto dest: durationTurn_shorter)

declare duration_loop.simps [simp del]

definition ParseDuration :: "string \<Rightarrow> int option" where
  "ParseDuration s =
    (let neg = (s \<noteq> [] \<and> hd s = CHR ''-'');
         s = (if s \<noteq> [] \<and> (hd s = CHR ''-'' \<or> hd s = CHR ''+'') then tl s else s)
     in if s = ''0'' then Some 0
        else if s = [] then None
        else case duration_loop 0 s of
               None \<Rightarrow> None
             | Some d \<Rightarrow> if neg then Some (- int d) else if d > 2 ^ 63 - 1 then None else Some (int d))"

section \<open>Configuration\<close>

record config =
  DNSAddr :: string
  APIAddr :: string
  APIToken :: string
  DatabaseURL :: string
  DBMaxConns :: int
  Workers :: int
  LogLevel :: string
  CacheEnabled :: bool
  CacheTTL :: int
  CacheMaxEntries :: int
  NATSURL :: string
  NATSSubject :: string

datatype config_err = BadCacheTTL | NoDatabaseURL | BadCacheMaxEntries

type_synonym environ = "string \<rightharpoonup> string"

definition Getenv :: "environ \<Rightarrow> string \<Rightarrow> string" where
  "Getenv env k = (case env k of None \<Rightarrow> [] | Some v \<Rightarrow> v)"

definition getenv :: "environ \<Rightarrow> string \<Rightarrow> string \<Rightarrow> string" where
  "getenv env k d = (case env k of Some v \<Rightarrow> if v \<noteq> [] then v else d | None \<Rightarrow> d)"

definition getenvInt :: "environ \<Rightarrow> string \<Rightarrow> int \<Rightarrow> int" where
  "getenvInt env k d = (case ParseInt (Getenv env k) of None \<Rightarrow> d | Some n \<Rightarrow> n)"

definition getenvBool :: "unicode_case \<Rightarrow> environ \<Rightarrow> string \<Rightarrow> bool \<Rightarrow> bool" where
  "getenvBool u env k d =
    (let v = ToLower u (Getenv env k)
     in if v \<in> {''1'', ''true'', ''yes'', ''on''} then True
        else if v \<in> {''0'', ''false'', ''no'', ''off''} then False
        else d)"

definition Load :: "unicode_case \<Rightarrow> int \<Rightarrow> environ \<Rightarrow> config_err + config" where
  "Load u numCPU env =
    (let cfg = \<lparr>DNSAddr = getenv env ''DNS_ADDR'' '':53'', APIAddr = getenv env ''API_ADDR'' '':9053'',
                APIToken = Getenv env ''API_TOKEN'', DatabaseURL = Getenv env ''DATABASE_URL'',
                DBMaxConns = getenvInt env ''DB_MAX_CONNS'' 0, Workers = getenvInt env ''WORKERS'' 0,
                LogLevel = getenv env ''LOG_LEVEL'' ''info'', CacheEnabled = getenvBool u env ''CACHE_ENABLED'' False,
                CacheTTL = 0, CacheMaxEntries = getenvInt env ''CACHE_MAX_ENTRIES'' 100000,
                NATSURL = Getenv env ''NATS_URL'', NATSSubject = getenv env ''NATS_SUBJECT'' ''sharddns.changes''\<rparr>
     in case ParseDuration (getenv env ''CACHE_TTL'' ''0'') of
          None \<Rightarrow> Inl BadCacheTTL
        | Some ttl \<Rightarrow>
            if ttl < 0 then Inl BadCacheTTL
            else let cfg = cfg\<lparr>CacheTTL := ttl\<rparr>
                 in if DatabaseURL cfg = [] then Inl NoDatabaseURL
                    else let cfg = (if Workers cfg \<le> 0 then cfg\<lparr>Workers := 4 * numCPU\<rparr> else cfg);
                             cfg = (if DBMaxConns cfg \<le> 0 then cfg\<lparr>DBMaxConns := max 8 (2 * numCPU)\<rparr> else cfg)
                         in if CacheMaxEntries cfg \<le> 0 then Inl BadCacheMaxEntries else Inr cfg)"

section \<open>Lemmas\<close>

lemma leadingInt_FormatNat: "n \<le> 2 ^ 63 \<Longrightarrow> leadingInt 0 (FormatNat n @ s) = leadingInt n s"
proof (induction n arbitrary: s rule: FormatNat.induct)
  case (1 n)
  have d: "isDigit (char_of (48 + k)) \<and> digit_val (char_of (48 + k)) = k" if "k < 10" for k using isDigit_char_of [OF that] .
  show ?case
  proof (cases "n < 10")
    case True
    then show ?thesis using d [OF True] by (simp add: FormatNat.simps [of n])
  next
    case False
    have "leadingInt 0 (FormatNat (n div 10) @ char_of (48 + n mod 10) # s) = leadingInt (n div 10) (char_of (48 + n mod 10) # s)"
      using 1 False by simp
    moreover have "n div 10 \<le> 2 ^ 63 div 10" using 1(2) by (rule div_le_mono)
    ultimately show ?thesis using False 1(2) d [of "n mod 10"] by (simp add: FormatNat.simps [of n] Let_def)
  qed
qed

lemma unitMap_names:
  assumes "(name, unit) \<in> set unitMap"
  shows "name \<noteq> []" "\<not> isDigit (hd name)" "hd name \<noteq> CHR ''.''" "takeWhile (\<lambda>c. \<not> (c = CHR ''.'' \<or> isDigit c)) name = name"
    "map_of unitMap name = Some unit" "0 < unit"
  using assms by (auto simp: unitMap_def isDigit_def Let_def)

lemma durationTurn_FormatNat:
  assumes "(name, unit) \<in> set unitMap" "n * unit < 2 ^ 63"
  shows "durationTurn (FormatNat n @ name) = Some (n * unit, [])"
proof -
  note u = unitMap_names [OF assms(1)]
  have "n \<le> n * unit" using u(6) by (cases unit) simp_all
  then have n: "n \<le> 2 ^ 63" using assms(2) by linarith
  have n': "n \<le> 2 ^ 63 div unit" using assms(2) less_eq_div_iff_mult_less_eq [OF u(6), of n "2 ^ 63"] by linarith
  have "leadingInt n name = Some (n, name)" using u(1,2) by (cases name) simp_all
  then have "leadingInt 0 (FormatNat n @ name) = Some (n, name)" using leadingInt_FormatNat [OF n] by simp
  moreover have "isDigit (hd (FormatNat n @ name))" using FormatNat_digits [of n] by (cases "FormatNat n") auto
  moreover have "length (FormatNat n @ name) \<noteq> length name" by simp
  moreover have t: "takeWhile (\<lambda>c. c \<noteq> CHR ''.'' \<and> \<not> isDigit c) name = name" using u(4) by simp
  ultimately show ?thesis using u(1,3,5) n' by (simp add: durationTurn_def t)
qed

lemma ParseDuration_FormatNat:
  assumes "(name, unit) \<in> set unitMap" "n * unit < 2 ^ 63"
  shows "ParseDuration (FormatNat n @ name) = Some (int (n * unit))"
proof -
  obtain c cs where c: "FormatNat n = c # cs" by (cases "FormatNat n") auto
  then have h: "c \<noteq> CHR ''-''" "c \<noteq> CHR ''+''" using FormatNat_hd [of n] by auto
  have z: "FormatNat n @ name \<noteq> ''0''" using unitMap_names(1) [OF assms(1)] by (auto simp: append_eq_Cons_conv)
  have "duration_loop 0 (FormatNat n @ name) = Some (n * unit)"
    using durationTurn_FormatNat [OF assms] assms(2) by (subst duration_loop.simps) (simp add: duration_loop.simps [of _ "[]"] Let_def)
  then show ?thesis using c h z assms(2) by (auto simp: ParseDuration_def Let_def)
qed

lemma duration_loop_bound: "duration_loop d s = Some v \<Longrightarrow> d \<le> 2 ^ 63 \<Longrightarrow> v \<le> 2 ^ 63"
proof (induction "length s" arbitrary: d s rule: less_induct)
  case less
  show ?case
  proof (cases "s = []")
    case True
    then show ?thesis using less(2,3) by (simp add: duration_loop.simps [of d])
  next
    case False
    then obtain a b where "durationTurn s = Some (a, b)" "(d + a) mod 2 ^ 64 \<le> 2 ^ 63" "duration_loop ((d + a) mod 2 ^ 64) b = Some v"
      using less(2) by (subst (asm) duration_loop.simps) (auto simp: Let_def split: if_splits option.splits)
    then show ?thesis using less(1) [of b] durationTurn_shorter by blast
  qed
qed

lemma ParseDuration_bound: "ParseDuration s = Some v \<Longrightarrow> - (2 ^ 63) \<le> v \<and> v < 2 ^ 63"
  using duration_loop_bound [of 0]
  by (fastforce simp: ParseDuration_def Let_def split: if_splits option.splits)

lemma ParseInt_bound: "ParseInt s = Some v \<Longrightarrow> - (2 ^ 63) \<le> v \<and> v < 2 ^ 63"
  by (auto simp: ParseInt_def split: list.splits if_splits option.splits)

section \<open>Properties\<close>

text \<open>A configuration that loads is one the daemon can run with: there is a database to connect to, at least one worker and
  one database connection, room for a cache entry, and a lifetime of cache entries that is not negative; the
  numbers fit the types they are kept in.\<close>

lemma Load_valid:
  assumes "Load u numCPU env = Inr cfg" "1 \<le> numCPU" "numCPU < 2 ^ 60"
  shows "DatabaseURL cfg \<noteq> [] \<and> 1 \<le> Workers cfg \<and> Workers cfg < 2 ^ 63 \<and> 1 \<le> DBMaxConns cfg \<and> DBMaxConns cfg < 2 ^ 63 \<and>
    1 \<le> CacheMaxEntries cfg \<and> CacheMaxEntries cfg < 2 ^ 63 \<and> 0 \<le> CacheTTL cfg \<and> CacheTTL cfg < 2 ^ 63 \<and>
    DNSAddr cfg \<noteq> [] \<and> APIAddr cfg \<noteq> [] \<and> NATSSubject cfg \<noteq> []"
proof -
  have i: "d < 2 ^ 63 \<Longrightarrow> getenvInt env k d < 2 ^ 63" for k d using ParseInt_bound by (auto simp: getenvInt_def split: option.splits)
  have g: "d \<noteq> [] \<Longrightarrow> getenv env k d \<noteq> []" for k d by (auto simp: getenv_def split: option.splits)
  show ?thesis using assms ParseDuration_bound i g
    by (auto simp: Load_def Let_def split: option.splits if_splits)
qed

text \<open>Claim C37. The lifetime is read as written: a number and a unit give that many units, in nanoseconds, whenever the
  product fits.\<close>

theorem Load_CacheTTL:
  assumes "env ''CACHE_TTL'' = Some (FormatNat n @ name)" "(name, unit) \<in> set unitMap" "n * unit < 2 ^ 63"
    and "Getenv env ''DATABASE_URL'' \<noteq> []" "0 < getenvInt env ''CACHE_MAX_ENTRIES'' 100000"
  shows "\<exists>cfg. Load u numCPU env = Inr cfg \<and> CacheTTL cfg = int (n * unit)"
proof -
  have "getenv env ''CACHE_TTL'' ''0'' = FormatNat n @ name" using assms(1) by (simp add: getenv_def)
  then have "ParseDuration (getenv env ''CACHE_TTL'' ''0'') = Some (int (n * unit))" using ParseDuration_FormatNat [OF assms(2,3)] by simp
  then show ?thesis using assms(4,5) by (simp add: Load_def Let_def not_less)
qed

definition demoEnv :: environ where
  "demoEnv = [''DATABASE_URL'' \<mapsto> ''postgres://db'', ''CACHE_TTL'' \<mapsto> FormatNat 90 @ ''s'']"

theorem Load_CacheTTL_witness: "\<exists>cfg. Load asciiCase 4 demoEnv = Inr cfg \<and> CacheTTL cfg = 90 * 1000000000"
  using Load_CacheTTL [of demoEnv 90 "''s''" 1000000000 asciiCase 4]
  by (simp add: demoEnv_def unitMap_def Getenv_def getenvInt_def ParseInt_def)

lemma demoEnv_loads: "\<exists>cfg. Load asciiCase 4 demoEnv = Inr cfg"
  using ParseDuration_FormatNat [of "''s''" 1000000000 90]
  by (simp add: Load_def Let_def getenv_def demoEnv_def unitMap_def Getenv_def getenvInt_def ParseInt_def)

lemma Load_valid_witness: "\<exists>cfg. Load asciiCase 4 demoEnv = Inr cfg \<and> 1 \<le> Workers cfg \<and> 1 \<le> DBMaxConns cfg"
  using demoEnv_loads Load_valid [of asciiCase 4 demoEnv] by auto

end
