(* ===== verification/Startup.thy ===== *)
theory Startup
  imports Config Cluster Server
begin

text \<open>
  How a process of \<open>src/cmd/sharddnsd/main.go\<close> comes up: its arguments, the health check, the connection to the
  database (\<open>Open\<close> and \<open>Migrate\<close> of \<open>src/internal/store/store.go\<close>) and \<open>run\<close> up to the point where it serves.
  What the operating system, the database, NATS and HTTP answer is given as arguments. The node that \<open>run\<close> starts is a node of
  \<open>Cluster\<close>.
\<close>

section \<open>Host and port\<close>

text \<open>\<open>net.SplitHostPort\<close> and \<open>net.JoinHostPort\<close>.\<close>

definition lastIndexByte :: "string \<Rightarrow> char \<Rightarrow> nat option" where
  "lastIndexByte s c = map_option (\<lambda>i. length s - 1 - i) (IndexByte (rev s) c)"

datatype addr_err = MissingPort | TooManyColons | MissingBracket | UnexpectedOpen | UnexpectedClose

definition SplitHostPort :: "string \<Rightarrow> addr_err + string \<times> string" where
  "SplitHostPort hostport =
    (case lastIndexByte hostport CHR '':'' of
       None \<Rightarrow> Inl MissingPort
     | Some i \<Rightarrow>
        (let rest = (\<lambda>host j k. if IndexByte (drop j hostport) CHR ''['' \<noteq> None then Inl UnexpectedOpen
                                else if IndexByte (drop k hostport) CHR '']'' \<noteq> None then Inl UnexpectedClose
                                else Inr (host, drop (i + 1) hostport))
         in if hd hostport = CHR ''['' then
              (case IndexByte hostport CHR '']'' of
                 None \<Rightarrow> Inl MissingBracket
               | Some e \<Rightarrow>
                   if e + 1 = length hostport then Inl MissingPort
                   else if e + 1 = i then rest (slice 1 e hostport) 1 (e + 1)
                   else if hostport ! (e + 1) = CHR '':'' then Inl TooManyColons
                   else Inl MissingPort)
            else let host = take i hostport
                 in if IndexByte host CHR '':'' \<noteq> None then Inl TooManyColons else rest host 0 0))"

definition JoinHostPort :: "string \<Rightarrow> string \<Rightarrow> string" where
  "JoinHostPort host port =
    (if IndexByte host CHR '':'' \<noteq> None then ''['' @ host @ '']:'' @ port else host @ '':'' @ port)"

section \<open>The command line\<close>

datatype action = ShowVersion | Healthcheck | Run

definition daemon_main :: "string list \<Rightarrow> action" where
  "daemon_main args =
    (case args of
       [] \<Rightarrow> Run
     | a # _ \<Rightarrow>
         if a = ''-version'' \<or> a = ''--version'' then ShowVersion
         else if a = ''-healthcheck'' \<or> a = ''--healthcheck'' then Healthcheck
         else Run)"

text \<open>The exit code; \<open>get\<close> gives the status of an HTTP request, if there is a response in time.\<close>

definition healthcheck :: "environ \<Rightarrow> (string \<Rightarrow> nat option) \<Rightarrow> nat" where
  "healthcheck env get =
    (let addr = Getenv env ''API_ADDR''; addr = (if addr = [] then '':9053'' else addr)
     in case SplitHostPort addr of
          Inl _ \<Rightarrow> 1
        | Inr (host, port) \<Rightarrow>
            (let host = (if host = [] \<or> host = ''0.0.0.0'' \<or> host = ''::'' then ''127.0.0.1'' else host)
             in case get (''http://'' @ JoinHostPort host port @ ''/readyz'') of
                  None \<Rightarrow> 1
                | Some status \<Rightarrow> if status \<noteq> 200 then 1 else 0))"

section \<open>The database\<close>

datatype open_err = ParseConfigErr | PoolErr | PingErr

text \<open>Of \<open>Open\<close>, the number of connections of the pool: \<open>parsed\<close> is the one of the URL.\<close>

definition Open :: "int option \<Rightarrow> bool \<Rightarrow> bool \<Rightarrow> int \<Rightarrow> open_err + int" where
  "Open parsed created pinged optMaxConns =
    (case parsed of
       None \<Rightarrow> Inl ParseConfigErr
     | Some urlMaxConns \<Rightarrow>
         (let maxConns = (if optMaxConns > 0 then optMaxConns else urlMaxConns)
          in if \<not> created then Inl PoolErr else if \<not> pinged then Inl PingErr else Inr maxConns))"

text \<open>\<open>int32\<close> of an \<open>int\<close>.\<close>

definition int32 :: "int \<Rightarrow> int" where
  "int32 n = (n + 2 ^ 31) mod 2 ^ 32 - 2 ^ 31"

datatype conn_err = Cancelled | OpenErr open_err | NoErr

text \<open>\<open>opens n\<close> is the outcome of the n-th attempt, \<open>cancelled n\<close> whether the context ends during the pause after it. The
  result is the attempt that succeeded, with the size of its pool.\<close>

function connectStore_loop :: "(nat \<Rightarrow> open_err + int) \<Rightarrow> (nat \<Rightarrow> bool) \<Rightarrow> conn_err \<Rightarrow> nat \<Rightarrow> conn_err + nat \<times> int" where
  "connectStore_loop opens cancelled lastErr attempt =
    (if attempt \<le> 30 then
       (case opens attempt of
          Inr st \<Rightarrow> Inr (attempt, st)
        | Inl err \<Rightarrow>
            if cancelled attempt then Inl Cancelled
            else connectStore_loop opens cancelled (OpenErr err) (attempt + 1))
     else Inl lastErr)"
  by pat_completeness auto
termination by (relation "measure (\<lambda>(opens, cancelled, lastErr, attempt). 31 - attempt)") auto

declare connectStore_loop.simps [simp del]

text \<open>\<open>parse\<close> is \<open>pgxpool.ParseConfig\<close>: the pool size of a URL.\<close>

definition connectStore ::
  "(string \<Rightarrow> int option) \<Rightarrow> (nat \<Rightarrow> bool) \<Rightarrow> (nat \<Rightarrow> bool) \<Rightarrow> (nat \<Rightarrow> bool) \<Rightarrow> config \<Rightarrow> conn_err + nat \<times> int" where
  "connectStore parse created pinged cancelled cfg =
    connectStore_loop (\<lambda>n. Open (parse (DatabaseURL cfg)) (created n) (pinged n) (int32 (DBMaxConns cfg))) cancelled NoErr 1"

text \<open>The tables that exist, with their rows.\<close>

record tables =
  tb_zones :: "zone list option"
  tb_records :: "(srow list \<times> int) option"

text \<open>\<open>schema.sql\<close> creates what is missing; sent in one simple query, its statements take effect together or not at all.\<close>

definition applySchema :: "tables \<Rightarrow> tables" where
  "applySchema tb =
    \<lparr>tb_zones = (case tb_zones tb of None \<Rightarrow> Some [] | Some zs \<Rightarrow> Some zs),
     tb_records = (case tb_records tb of None \<Rightarrow> Some ([], 1) | Some rs \<Rightarrow> Some rs)\<rparr>"

datatype migrate_err = AcquireErr | LockErr | CheckErr | ApplyErr

text \<open>The first four flags tell which statement reports success, \<open>committed\<close> whether a schema whose success was not
  reported took effect all the same.\<close>

definition Migrate :: "bool \<Rightarrow> bool \<Rightarrow> bool \<Rightarrow> bool \<Rightarrow> bool \<Rightarrow> tables \<Rightarrow> migrate_err option \<times> tables" where
  "Migrate acquired locked checked applied committed tb =
    (if \<not> acquired then (Some AcquireErr, tb)
     else if \<not> locked then (Some LockErr, tb)
     else if \<not> checked then (Some CheckErr, tb)
     else if tb_zones tb \<noteq> None \<and> tb_records tb \<noteq> None then (None, tb)
     else if \<not> applied then (Some ApplyErr, if committed then applySchema tb else tb)
     else (None, applySchema tb))"

section \<open>The API server and its probes\<close>

definition apiHandler :: "config \<Rightarrow> ('req \<Rightarrow> code + 'resp) \<Rightarrow> string \<Rightarrow> 'req \<Rightarrow> code + 'resp" where
  "apiHandler cfg svc authorization req =
    (if APIToken cfg \<noteq> [] then NewAuthInterceptor (APIToken cfg) svc authorization req else svc req)"

definition readyz :: "bool \<Rightarrow> bool option \<Rightarrow> nat \<times> string" where
  "readyz pinged healthy =
    (if \<not> pinged then (503, ''database unavailable'' @ [CHR 0x0A])
     else if healthy = Some False then (503, ''nats unavailable'' @ [CHR 0x0A])
     else (200, ''ok'' @ [CHR 0x0A]))"

definition healthz :: "nat \<times> string" where
  "healthz = (200, ''ok'' @ [CHR 0x0A])"

datatype level = LevelDebug | LevelInfo | LevelWarn | LevelError

definition newLogger :: "unicode_case \<Rightarrow> string \<Rightarrow> level" where
  "newLogger u lvl =
    (let l = ToLower u lvl
     in if l = ''debug'' then LevelDebug
        else if l = ''warn'' \<or> l = ''warning'' then LevelWarn
        else if l = ''error'' then LevelError
        else LevelInfo)"

section \<open>\<open>run\<close>\<close>






section \<open>Host and port again\<close>

lemma lastIndexByte_append: "c \<notin> set b \<Longrightarrow> lastIndexByte (a @ c # b) c = Some (length a)"
  using IndexByte_append [of c "rev b" "rev a"] by (simp add: lastIndexByte_def)

lemma IndexByte_absent [simp]: "c \<notin> set s \<Longrightarrow> IndexByte s c = None"
  by (simp add: IndexByte_None)

definition plainAddr :: "string \<Rightarrow> string \<Rightarrow> bool" where
  "plainAddr host port = (set host \<inter> {CHR ''['', CHR '']''} = {} \<and> set port \<inter> {CHR '':'', CHR ''['', CHR '']''} = {})"

lemma SplitHostPort_bracket:
  assumes "plainAddr host port"
  shows "SplitHostPort (''['' @ host @ '']:'' @ port) = Inr (host, port)"
proof -
  let ?a = "''['' @ host @ '']:'' @ port"
  have l: "lastIndexByte ?a CHR '':'' = Some (length host + 2)"
    using lastIndexByte_append [of "CHR '':''" port "''['' @ host @ '']''"] assms by (simp add: plainAddr_def)
  have e: "IndexByte ?a CHR '']'' = Some (length host + 1)"
    using IndexByte_append [of "CHR '']''" "''['' @ host" "'':'' @ port"] assms by (simp add: plainAddr_def)
  have o1: "IndexByte (drop 1 ?a) CHR ''['' = None" "IndexByte (drop (length host + 2) ?a) CHR '']'' = None"
    using assms by (simp_all add: IndexByte_None plainAddr_def)
  show ?thesis using l e o1 by (simp add: SplitHostPort_def Let_def slice_def)
qed

lemma SplitHostPort_plain:
  assumes "plainAddr host port" "CHR '':'' \<notin> set host"
  shows "SplitHostPort (host @ '':'' @ port) = Inr (host, port)"
proof -
  have l: "lastIndexByte (host @ '':'' @ port) CHR '':'' = Some (length host)"
    using lastIndexByte_append [of "CHR '':''" port host] assms by (simp add: plainAddr_def)
  have h: "hd (host @ '':'' @ port) \<noteq> CHR ''[''" using assms by (cases host) (auto simp: plainAddr_def)
  show ?thesis using l h assms by (simp add: SplitHostPort_def Let_def plainAddr_def IndexByte_None)
qed

lemma SplitHostPort_JoinHostPort: "plainAddr host port \<Longrightarrow> SplitHostPort (JoinHostPort host port) = Inr (host, port)"
  using SplitHostPort_bracket SplitHostPort_plain by (auto simp: JoinHostPort_def IndexByte_None)

lemma JoinHostPort_nonempty [simp]: "JoinHostPort host port \<noteq> []"
  by (simp add: JoinHostPort_def)

definition localHost :: "string \<Rightarrow> string" where
  "localHost host = (if host = [] \<or> host = ''0.0.0.0'' \<or> host = ''::'' then ''127.0.0.1'' else host)"

text \<open>Claim C36. The health check agrees with the readiness probe of the server it runs beside: where \<open>API_ADDR\<close> is a host and a
  port (an IPv6 host in brackets), or unset for the default, the configured server listens on that address, and the check,
  which asks its \<open>/readyz\<close> at the loopback address if the host is empty or unspecified, exits with 0 exactly if the
  database answers and NATS, where there is one, is connected.\<close>

theorem healthcheck_ready:
  assumes "Load u numCPU env = Inr cfg" "APIAddr cfg = JoinHostPort host port" "plainAddr host port"
    and "get (''http://'' @ JoinHostPort (localHost host) port @ ''/readyz'') = Some (fst (readyz pinged healthy))"
  shows "healthcheck env get = 0 \<longleftrightarrow> pinged \<and> healthy \<noteq> Some False"
proof -
  have "APIAddr cfg = getenv env ''API_ADDR'' '':9053''"
    using assms(1) by (auto simp: Load_def Let_def split: option.splits if_splits)
  then have "(if Getenv env ''API_ADDR'' = [] then '':9053'' else Getenv env ''API_ADDR'') = JoinHostPort host port"
    using assms(2) by (auto simp: getenv_def Getenv_def split: option.splits if_splits)
  then show ?thesis
    using assms(4) SplitHostPort_JoinHostPort [OF assms(3)]
    by (simp add: healthcheck_def Let_def localHost_def readyz_def)
qed

section \<open>Connecting\<close>

lemma connectStore_loop_Inr:
  "connectStore_loop opens cancelled e a = Inr (k, st) \<longleftrightarrow>
    a \<le> k \<and> k \<le> 30 \<and> opens k = Inr st \<and> (\<forall>j. a \<le> j \<and> j < k \<longrightarrow> isl (opens j) \<and> \<not> cancelled j)"
proof (induction opens cancelled e a rule: connectStore_loop.induct)
  case (1 opens cancelled e a)
  show ?case
  proof (cases "a \<le> 30 \<and> isl (opens a) \<and> \<not> cancelled a")
    case True
    then obtain err where o: "opens a = Inl err" by (auto simp: isl_def)
    have s: "a \<le> j \<longleftrightarrow> j = a \<or> a + 1 \<le> j" for j by auto
    have "(a + 1 \<le> k \<and> k \<le> 30 \<and> opens k = Inr st \<and> (\<forall>j. a + 1 \<le> j \<and> j < k \<longrightarrow> isl (opens j) \<and> \<not> cancelled j)) \<longleftrightarrow>
       (a \<le> k \<and> k \<le> 30 \<and> opens k = Inr st \<and> (\<forall>j. a \<le> j \<and> j < k \<longrightarrow> isl (opens j) \<and> \<not> cancelled j))"
      unfolding s [of k] s using True o by (auto simp: isl_def)
    then show ?thesis using 1 True o by (subst connectStore_loop.simps) simp
  next
    case False
    then show ?thesis
      by (subst connectStore_loop.simps) (cases "opens a"; cases "a = k"; auto)
  qed
qed

text \<open>Claim C35. Connecting to the database (a loop that ends after thirty attempts) gives a store exactly if one of these
  attempts succeeds before the process is told to stop: it is the first attempt that succeeds, and its pool has the
  configured number of connections (as a 32-bit number), or the one of the URL where that is not positive.\<close>

theorem connectStore_connects:
  "connectStore parse created pinged cancelled cfg = Inr (k, conns) \<longleftrightarrow>
    1 \<le> k \<and> k \<le> 30 \<and> created k \<and> pinged k \<and> (\<forall>j. 1 \<le> j \<and> j < k \<longrightarrow> \<not> (created j \<and> pinged j) \<and> \<not> cancelled j) \<and>
    (\<exists>m. parse (DatabaseURL cfg) = Some m \<and> conns = (if 0 < int32 (DBMaxConns cfg) then int32 (DBMaxConns cfg) else m))"
proof (cases "parse (DatabaseURL cfg)")
  case None
  then show ?thesis by (simp add: connectStore_def connectStore_loop_Inr Open_def)
next
  case (Some m)
  have "isl (Open (Some m) (created j) (pinged j) n) \<longleftrightarrow> \<not> (created j \<and> pinged j)" for j n
    by (simp add: Open_def Let_def)
  moreover have "Open (Some m) c p n = Inr conns \<longleftrightarrow> c \<and> p \<and> conns = (if 0 < n then n else m)" for c p n
    by (auto simp: Open_def Let_def)
  ultimately show ?thesis using Some by (simp add: connectStore_def connectStore_loop_Inr conj_ac)
qed

text \<open>Preparing the database never loses a row: whatever fails on the way, a table that exists keeps its contents, and
  when \<open>Migrate\<close> succeeds both tables exist.\<close>

lemma Migrate_keeps:
  assumes "Migrate acquired locked checked applied committed tb = (err, tb')"
  shows "(tb_zones tb \<noteq> None \<longrightarrow> tb_zones tb' = tb_zones tb) \<and> (tb_records tb \<noteq> None \<longrightarrow> tb_records tb' = tb_records tb) \<and>
    (err = None \<longrightarrow> tb_zones tb' \<noteq> None \<and> tb_records tb' \<noteq> None)"
  using assms by (auto simp: Migrate_def applySchema_def split: if_splits option.splits)

section \<open>The nodes that start\<close>









section \<open>Examples\<close>


definition demoConfig :: config where
  "demoConfig = \<lparr>DNSAddr = '':53'', APIAddr = '':9053'', APIToken = [], DatabaseURL = ''postgres://db'', DBMaxConns = 8, Workers = 16,
     LogLevel = ''info'', CacheEnabled = True, CacheTTL = 0, CacheMaxEntries = 100000, NATSURL = ''nats'', NATSSubject = ''sharddns.changes''\<rparr>"

definition demoStart :: environ where
  "demoStart = [''DATABASE_URL'' \<mapsto> ''postgres://db'', ''CACHE_ENABLED'' \<mapsto> ''true'', ''NATS_URL'' \<mapsto> ''nats'']"


lemma demoStart_Load: "Load asciiCase 4 demoStart = Inr demoConfig"
  by code_simp

theorem connectStore_connects_witness:
  "connectStore (\<lambda>_. Some 4) (\<lambda>_. True) (\<lambda>n. n = 3) (\<lambda>_. False) demoConfig = Inr (3, 8)"
  using connectStore_connects [of "\<lambda>_. Some 4" "\<lambda>_. True" "\<lambda>n. n = 3" "\<lambda>_. False" demoConfig 3 8]
  by (simp add: demoConfig_def int32_def)




lemma Migrate_keeps_witness:
  "\<exists>tb'. Migrate True True True False True \<lparr>tb_zones = Some [exampleZone], tb_records = None\<rparr> = (Some ApplyErr, tb') \<and>
    tb_zones tb' = Some [exampleZone]"
  using Migrate_keeps [of True True True False True "\<lparr>tb_zones = Some [exampleZone], tb_records = None\<rparr>" "Some ApplyErr"]
  by (simp add: Migrate_def)

theorem healthcheck_ready_witness:
  "healthcheck demoStart (\<lambda>url. if url = ''http://127.0.0.1:9053/readyz'' then Some 200 else None) = 0"
  using healthcheck_ready [of asciiCase 4 demoStart demoConfig "[]" "''9053''"
      "\<lambda>url. if url = ''http://127.0.0.1:9053/readyz'' then Some 200 else None" True "Some True"] demoStart_Load
  by (simp add: demoConfig_def JoinHostPort_def plainAddr_def localHost_def readyz_def)

end
