(* ===== verification/Cli.thy ===== *)
theory Cli
  imports Startup
begin

text \<open>
  The command-line client, \<open>src/cmd/sharddns/main.go\<close>. The generated client and the network are the argument \<open>client\<close>:
  a function per call, over a state that stands for the server and whatever lies between. The flag package and
  \<open>strconv.ParseInt\<close> with base 0, which it uses for numbers, are those of the standard library. Output is given by the messages
  that are printed; their layout in columns is left out. What ends in \<open>os.Exit\<close> gives the exit code and the reason.
\<close>

section \<open>Numbers with a base prefix\<close>

definition lowerByte :: "char \<Rightarrow> char" where
  "lowerByte c = (let n = of_char c in if 65 \<le> n \<and> n \<le> 90 then char_of (n + 32 :: nat) else c)"

definition digitOf :: "char \<Rightarrow> nat option" where
  "digitOf c =
    (let n = of_char c; l = of_char (lowerByte c)
     in if 48 \<le> n \<and> n \<le> (57 :: nat) then Some (n - 48) else if 97 \<le> l \<and> l \<le> (122 :: nat) then Some (l - 97 + 10) else None)"

fun digits_loop :: "nat \<Rightarrow> nat \<Rightarrow> string \<Rightarrow> nat option" where
  "digits_loop base n [] = Some n"
| "digits_loop base n (c # cs) =
    (if c = CHR ''_'' then digits_loop base n cs
     else case digitOf c of
            None \<Rightarrow> None
          | Some d \<Rightarrow> if base \<le> d then None else digits_loop base (n * base + d) cs)"

datatype seen = AtStart | AtDigit | AtUnderscore | AtOther

fun underscore_loop :: "bool \<Rightarrow> seen \<Rightarrow> string \<Rightarrow> bool" where
  "underscore_loop hex i [] = (i \<noteq> AtUnderscore)"
| "underscore_loop hex i (c # cs) =
    (let n = of_char c; l = of_char (lowerByte c)
     in if 48 \<le> n \<and> n \<le> (57 :: nat) \<or> hex \<and> 97 \<le> l \<and> l \<le> (102 :: nat) then underscore_loop hex AtDigit cs
        else if c = CHR ''_'' then (if i \<noteq> AtDigit then False else underscore_loop hex AtUnderscore cs)
        else if i = AtUnderscore then False
        else underscore_loop hex AtOther cs)"

definition prefixOf :: "string \<Rightarrow> char option" where
  "prefixOf s = (case s of c # p # _ \<Rightarrow> if c = CHR ''0'' \<and> lowerByte p \<in> set ''box'' then Some (lowerByte p) else None | _ \<Rightarrow> None)"

definition underscoreOK :: "string \<Rightarrow> bool" where
  "underscoreOK s =
    (case prefixOf s of
       Some p \<Rightarrow> underscore_loop (p = CHR ''x'') AtDigit (drop 2 s)
     | None \<Rightarrow> underscore_loop False AtStart s)"

definition ParseUint0 :: "string \<Rightarrow> nat option" where
  "ParseUint0 s =
    (if s = [] then None
     else let (base, digits) =
                (if hd s = CHR ''0'' then
                   (case (if length s \<ge> 3 then prefixOf s else None) of
                      Some p \<Rightarrow> (if p = CHR ''b'' then 2 else if p = CHR ''o'' then 8 else 16, drop 2 s)
                    | None \<Rightarrow> (8, drop 1 s))
                 else (10, s))
          in case digits_loop base 0 digits of
               None \<Rightarrow> None
             | Some n \<Rightarrow> if 2 ^ 64 \<le> n then None else if CHR ''_'' \<in> set digits \<and> \<not> underscoreOK s then None else Some n)"

definition ParseInt0 :: "string \<Rightarrow> int option" where
  "ParseInt0 s =
    (case s of
       [] \<Rightarrow> None
     | c # cs \<Rightarrow>
        (case ParseUint0 (if c = CHR ''+'' \<or> c = CHR ''-'' then cs else s) of
           None \<Rightarrow> None
         | Some un \<Rightarrow>
             if c \<noteq> CHR ''-'' \<and> 2 ^ 63 \<le> un then None
             else if c = CHR ''-'' \<and> 2 ^ 63 < un then None
             else Some (if c = CHR ''-'' then - int un else int un)))"

section \<open>The client and what a run prints\<close>

record ('s, 'e) client =
  ct_CreateZone :: "zone_req \<Rightarrow> 's \<Rightarrow> ('e + zone_msg) \<times> 's"
  ct_GetZone :: "string \<Rightarrow> 's \<Rightarrow> ('e + zone_msg) \<times> 's"
  ct_UpdateZone :: "zone_req \<Rightarrow> 's \<Rightarrow> ('e + zone_msg) \<times> 's"
  ct_DeleteZone :: "string \<Rightarrow> 's \<Rightarrow> ('e + unit) \<times> 's"
  ct_ListZones :: "int \<Rightarrow> string \<Rightarrow> 's \<Rightarrow> ('e + zone_msg list \<times> string) \<times> 's"
  ct_CreateRecord :: "record_req \<Rightarrow> 's \<Rightarrow> ('e + record_msg) \<times> 's"
  ct_DeleteRecord :: "record_req \<Rightarrow> 's \<Rightarrow> ('e + unit) \<times> 's"
  ct_ListRecords :: "string \<Rightarrow> int \<Rightarrow> string \<Rightarrow> 's \<Rightarrow> ('e + record_msg list \<times> string) \<times> 's"
  ct_GetRecords :: "string \<Rightarrow> string \<Rightarrow> string \<Rightarrow> 's \<Rightarrow> ('e + record_msg list) \<times> 's"

datatype flag_err = FlagHelp | BadSyntax | NotDefined | NeedsArgument | InvalidValue

datatype 'e death =
    ValueRequired string | NoCommand | UnknownCommand string | SubcommandRequired | UnknownSubcommand string
  | ArgumentsRequired | BadTTL | BadFlags flag_err | CallFailed 'e

datatype 'e outcome =
    PrintUsage
  | PrintVersion
  | PrintZones "zone_msg list"
  | PrintRecords "record_msg list"
  | PrintDeletedZone string
  | PrintDeletedRecord string string string string
  | Die "'e death"

text \<open>\<open>die\<close> exits with 1; a missing command and bad flags exit with 2, and flags that ask for help with 0.\<close>

definition exitCode :: "'e outcome \<Rightarrow> nat" where
  "exitCode r =
    (case r of
       Die NoCommand \<Rightarrow> 2
     | Die (BadFlags e) \<Rightarrow> if e = FlagHelp then 0 else 2
     | Die _ \<Rightarrow> 1
     | _ \<Rightarrow> 0)"

section \<open>Zones\<close>

record zflags =
  zf_ns :: string
  zf_email :: string
  zf_refresh :: int
  zf_retry :: int
  zf_expire :: int
  zf_ttl :: int

definition setInt :: "string \<Rightarrow> (int \<Rightarrow> zflags) \<Rightarrow> flag_err + zflags" where
  "setInt v f = (case ParseInt0 v of None \<Rightarrow> Inl InvalidValue | Some n \<Rightarrow> Inr (f n))"

definition isFlag :: "string \<Rightarrow> bool" where
  "isFlag name = (name \<in> set [''ns'', ''email'', ''refresh'', ''retry'', ''expire'', ''ttl''])"

definition setFlag :: "zflags \<Rightarrow> string \<Rightarrow> string \<Rightarrow> flag_err + zflags" where
  "setFlag fl name v =
    (if name = ''ns'' then Inr (fl\<lparr>zf_ns := v\<rparr>)
     else if name = ''email'' then Inr (fl\<lparr>zf_email := v\<rparr>)
     else if name = ''refresh'' then setInt v (\<lambda>n. fl\<lparr>zf_refresh := n\<rparr>)
     else if name = ''retry'' then setInt v (\<lambda>n. fl\<lparr>zf_retry := n\<rparr>)
     else if name = ''expire'' then setInt v (\<lambda>n. fl\<lparr>zf_expire := n\<rparr>)
     else if name = ''ttl'' then setInt v (\<lambda>n. fl\<lparr>zf_ttl := n\<rparr>)
     else Inl NotDefined)"

text \<open>\<open>name=value\<close>, where the name has at least one character.\<close>

definition cutFlag :: "string \<Rightarrow> string \<times> string option" where
  "cutFlag name =
    (case IndexByte (tl name) CHR ''='' of
       None \<Rightarrow> (name, None)
     | Some i \<Rightarrow> (take (i + 1) name, Some (drop (i + 2) name)))"

text \<open>\<open>FlagSet.Parse\<close>: it stops at the first argument that is no flag, or after \<open>--\<close>.\<close>

fun fs_Parse :: "zflags \<Rightarrow> string list \<Rightarrow> flag_err + zflags" where
  "fs_Parse fl [] = Inr fl"
| "fs_Parse fl (s # args) =
    (if length s < 2 \<or> hd s \<noteq> CHR ''-'' \<or> s = ''--'' then Inr fl
     else let name = (if s ! 1 = CHR ''-'' then drop 2 s else drop 1 s)
          in if hd name = CHR ''-'' \<or> hd name = CHR ''='' then Inl BadSyntax
             else let (name, val) = cutFlag name
                  in if \<not> isFlag name then Inl (if name = ''help'' \<or> name = ''h'' then FlagHelp else NotDefined)
                     else (case val of
                             Some v \<Rightarrow> (case setFlag fl name v of Inl e \<Rightarrow> Inl e | Inr fl \<Rightarrow> fs_Parse fl args)
                           | None \<Rightarrow>
                               (case args of
                                  [] \<Rightarrow> Inl NeedsArgument
                                | v # args \<Rightarrow> (case setFlag fl name v of Inl e \<Rightarrow> Inl e | Inr fl \<Rightarrow> fs_Parse fl args))))"

definition showZone :: "('e + zone_msg) \<times> 's \<Rightarrow> 'e outcome \<times> 's" where
  "showZone r = (case r of (Inl e, s) \<Rightarrow> (Die (CallFailed e), s) | (Inr z, s) \<Rightarrow> (PrintZones [z], s))"

definition zoneWrite :: "('s, 'e) client \<Rightarrow> string \<Rightarrow> string \<Rightarrow> string list \<Rightarrow> 's \<Rightarrow> 'e outcome \<times> 's" where
  "zoneWrite c op name args s =
    (case fs_Parse \<lparr>zf_ns = [], zf_email = [], zf_refresh = 0, zf_retry = 0, zf_expire = 0, zf_ttl = 0\<rparr> args of
       Inl e \<Rightarrow> (Die (BadFlags e), s)
     | Inr fl \<Rightarrow>
        (let req = \<lparr>zq_Name = name, zq_PrimaryNs = zf_ns fl, zq_AdminEmail = zf_email fl, zq_Refresh = int32 (zf_refresh fl),
                    zq_Retry = int32 (zf_retry fl), zq_Expire = int32 (zf_expire fl), zq_MinimumTtl = int32 (zf_ttl fl)\<rparr>
         in showZone (if op = ''create'' then ct_CreateZone c req s else ct_UpdateZone c req s)))"

text \<open>The loop over pages, for zones and for records. It may go on as long as the server sends tokens.\<close>

partial_function (option) list_loop ::
  "(string \<Rightarrow> 's \<Rightarrow> ('e + 'm list \<times> string) \<times> 's) \<Rightarrow> 'm list \<Rightarrow> string \<Rightarrow> 's \<Rightarrow> (('e + 'm list) \<times> 's) option" where
  "list_loop fetch acc token s =
    (case fetch token s of
       (Inl e, s) \<Rightarrow> Some (Inl e, s)
     | (Inr (page, token), s) \<Rightarrow>
         if token = [] then Some (Inr (acc @ page), s) else list_loop fetch (acc @ page) token s)"

definition cli_zone :: "('s, 'e) client \<Rightarrow> string list \<Rightarrow> 's \<Rightarrow> ('e outcome \<times> 's) option" where
  "cli_zone c args s =
    (case args of
       [] \<Rightarrow> Some (Die SubcommandRequired, s)
     | sub # rest \<Rightarrow>
        if sub = ''create'' \<or> sub = ''update'' then
          (case rest of [] \<Rightarrow> Some (Die ArgumentsRequired, s) | name # flags \<Rightarrow> Some (zoneWrite c sub name flags s))
        else if sub = ''list'' then
          map_option (\<lambda>(r, s). (case r of Inl e \<Rightarrow> Die (CallFailed e) | Inr zones \<Rightarrow> PrintZones zones, s))
            (list_loop (ct_ListZones c 500) [] [] s)
        else if sub = ''get'' then
          (case rest of [] \<Rightarrow> Some (Die ArgumentsRequired, s) | name # _ \<Rightarrow> Some (showZone (ct_GetZone c name s)))
        else if sub = ''delete'' \<or> sub = ''del'' \<or> sub = ''rm'' then
          (case rest of
             [] \<Rightarrow> Some (Die ArgumentsRequired, s)
           | name # _ \<Rightarrow>
               (case ct_DeleteZone c name s of
                  (Inl e, s) \<Rightarrow> Some (Die (CallFailed e), s)
                | (Inr _, s) \<Rightarrow> Some (PrintDeletedZone name, s)))
        else Some (Die (UnknownSubcommand sub), s))"

section \<open>Records\<close>

definition cli_record :: "('s, 'e) client \<Rightarrow> string list \<Rightarrow> 's \<Rightarrow> ('e outcome \<times> 's) option" where
  "cli_record c args s =
    (case args of
       [] \<Rightarrow> Some (Die SubcommandRequired, s)
     | sub # _ \<Rightarrow>
        if sub = ''add'' \<or> sub = ''create'' then
          (if length args < 6 then Some (Die ArgumentsRequired, s)
           else case ParseInt (args ! 4) of
                  None \<Rightarrow> Some (Die BadTTL, s)
                | Some ttl \<Rightarrow>
                    (case ct_CreateRecord c \<lparr>rq_Zone = args ! 1, rq_Name = args ! 2, rq_Type = args ! 3, rq_Ttl = int32 ttl,
                                             rq_Rdata = Join (drop 5 args) '' ''\<rparr> s of
                       (Inl e, s) \<Rightarrow> Some (Die (CallFailed e), s)
                     | (Inr r, s) \<Rightarrow> Some (PrintRecords [r], s)))
        else if sub = ''list'' then
          (if length args < 2 then Some (Die ArgumentsRequired, s)
           else map_option (\<lambda>(r, s). (case r of Inl e \<Rightarrow> Die (CallFailed e) | Inr records \<Rightarrow> PrintRecords records, s))
                  (list_loop (ct_ListRecords c (args ! 1) 1000) [] [] s))
        else if sub = ''get'' then
          (if length args < 4 then Some (Die ArgumentsRequired, s)
           else case ct_GetRecords c (args ! 1) (args ! 2) (args ! 3) s of
                  (Inl e, s) \<Rightarrow> Some (Die (CallFailed e), s)
                | (Inr rs, s) \<Rightarrow> Some (PrintRecords rs, s))
        else if sub = ''delete'' \<or> sub = ''del'' \<or> sub = ''rm'' then
          (if length args < 5 then Some (Die ArgumentsRequired, s)
           else let rdata = Join (drop 4 args) '' ''
                in case ct_DeleteRecord c \<lparr>rq_Zone = args ! 1, rq_Name = args ! 2, rq_Type = args ! 3, rq_Ttl = 0, rq_Rdata = rdata\<rparr> s of
                     (Inl e, s) \<Rightarrow> Some (Die (CallFailed e), s)
                   | (Inr _, s) \<Rightarrow> Some (PrintDeletedRecord (args ! 1) (args ! 2) (args ! 3) rdata, s))
        else Some (Die (UnknownSubcommand sub), s))"

section \<open>\<open>main\<close>\<close>

definition envOr :: "environ \<Rightarrow> string \<Rightarrow> string \<Rightarrow> string" where
  "envOr env k d = (if Getenv env k \<noteq> [] then Getenv env k else d)"

datatype parsed = MissingValue string | HelpAsked | Parsed string string "string list"

fun parseArgs :: "string \<Rightarrow> string \<Rightarrow> string list \<Rightarrow> string list \<Rightarrow> parsed" where
  "parseArgs addr token args [] = Parsed addr token args"
| "parseArgs addr token args (a # rest) =
    (if a = ''--addr'' \<or> a = ''-addr'' then
       (case rest of [] \<Rightarrow> MissingValue ''--addr'' | v # rest \<Rightarrow> parseArgs v token args rest)
     else if a = ''--token'' \<or> a = ''-token'' then
       (case rest of [] \<Rightarrow> MissingValue ''--token'' | v # rest \<Rightarrow> parseArgs addr v args rest)
     else if a = ''--help'' \<or> a = ''-h'' \<or> a = ''help'' then HelpAsked
     else parseArgs addr token (args @ [a]) rest)"

text \<open>The value of the \<open>Authorization\<close> header; without a token there is none.\<close>

definition bearer :: "string \<Rightarrow> string" where
  "bearer token = ''Bearer '' @ token"

text \<open>\<open>dial addr authorization\<close> is the client for an address.\<close>

definition cli_main ::
  "environ \<Rightarrow> (string \<Rightarrow> string \<Rightarrow> ('s, 'e) client) \<Rightarrow> string list \<Rightarrow> 's \<Rightarrow> ('e outcome \<times> 's) option" where
  "cli_main env dial osArgs s =
    (case parseArgs (envOr env ''SHARDDNS_ADDR'' ''http://localhost:9053'') (Getenv env ''SHARDDNS_TOKEN'') [] osArgs of
       MissingValue f \<Rightarrow> Some (Die (ValueRequired f), s)
     | HelpAsked \<Rightarrow> Some (PrintUsage, s)
     | Parsed addr token args \<Rightarrow>
        (case args of
           [] \<Rightarrow> Some (Die NoCommand, s)
         | cmd # rest \<Rightarrow>
            if cmd = ''version'' then Some (PrintVersion, s)
            else let addr = (if \<not> sublist ''://'' addr then ''http://'' @ addr else addr);
                     c = dial addr (if token \<noteq> [] then bearer token else [])
                 in if cmd = ''zone'' then cli_zone c rest s
                    else if cmd = ''record'' then cli_record c rest s
                    else Some (Die (UnknownCommand cmd), s)))"

section \<open>The client ends\<close>





section \<open>Listing against a server\<close>

text \<open>The service of \<open>Api_Service\<close> as a client meets it, behind the authentication of \<open>newAPIServer\<close>, while nothing else changes the
  database.\<close>

definition guarded :: "config \<Rightarrow> string \<Rightarrow> (db \<Rightarrow> (code + 'a) \<times> db) \<Rightarrow> db \<Rightarrow> (code + 'a) \<times> db" where
  "guarded cfg auth f db = (case apiHandler cfg (\<lambda>_. Inr ()) auth () of Inl e \<Rightarrow> (Inl e, db) | Inr _ \<Rightarrow> f db)"

definition wrote :: "'r \<times> db \<times> change list \<Rightarrow> 'r \<times> db" where
  "wrote r = (case r of (res, db, _) \<Rightarrow> (res, db))"

definition serverClient :: "unicode_case \<Rightarrow> encoder option \<Rightarrow> pgenv \<Rightarrow> config \<Rightarrow> string \<Rightarrow> (db, code) client" where
  "serverClient u enc pg cfg auth =
    \<lparr>ct_CreateZone = \<lambda>m. guarded cfg auth (\<lambda>db. wrote (api_CreateZone u pg db m)),
     ct_GetZone = \<lambda>n. guarded cfg auth (\<lambda>db. (api_GetZone u pg db n, db)),
     ct_UpdateZone = \<lambda>m. guarded cfg auth (\<lambda>db. wrote (api_UpdateZone u pg pg db db m)),
     ct_DeleteZone = \<lambda>n. guarded cfg auth (\<lambda>db. wrote (api_DeleteZone u pg db n)),
     ct_ListZones = \<lambda>n t. guarded cfg auth (\<lambda>db. (api_ListZones pg db n t, db)),
     ct_CreateRecord = \<lambda>m. guarded cfg auth (\<lambda>db. wrote (api_CreateRecord u pg enc db m)),
     ct_DeleteRecord = \<lambda>m. guarded cfg auth (\<lambda>db. wrote (api_DeleteRecord u pg db m)),
     ct_ListRecords = \<lambda>z n t. guarded cfg auth (\<lambda>db. (api_ListRecords u pg pg enc db db z n t, db)),
     ct_GetRecords = \<lambda>z n t. guarded cfg auth (\<lambda>db. (api_GetRecords u pg enc db z n t, db))\<rparr>"

lemma guarded_bearer:
  "APIToken cfg \<noteq> [] \<Longrightarrow> guarded cfg (bearer (APIToken cfg)) f = f"
  "APIToken cfg = [] \<Longrightarrow> guarded cfg auth f = f"
  by (simp_all add: fun_eq_iff guarded_def apiHandler_def NewAuthInterceptor_def bearer_def)

lemma list_loop_pages:
  assumes "\<And>token. ok token \<Longrightarrow> \<exists>page nxt. fetch token s = (Inr (page, nxt), s) \<and>
      (nxt = [] \<longrightarrow> rest token = page) \<and> (nxt \<noteq> [] \<longrightarrow> ok nxt \<and> page \<noteq> [] \<and> rest token = page @ rest nxt)"
    and "ok token"
  shows "list_loop fetch acc token s = Some (Inr (acc @ rest token), s)"
  using assms(2)
proof (induction "length (rest token)" arbitrary: acc token rule: less_induct)
  case less
  obtain page nxt where p: "fetch token s = (Inr (page, nxt), s)" "nxt = [] \<longrightarrow> rest token = page"
      "nxt \<noteq> [] \<longrightarrow> ok nxt \<and> page \<noteq> [] \<and> rest token = page @ rest nxt"
    using assms(1) [OF less.prems] by blast
  show ?case
  proof (cases "nxt = []")
    case True
    then show ?thesis using p by (subst list_loop.simps) simp
  next
    case False
    then have "list_loop fetch (acc @ page) nxt s = Some (Inr ((acc @ page) @ rest nxt), s)"
      using p by (intro less.hyps) auto
    then show ?thesis using p False by (subst list_loop.simps) simp
  qed
qed

lemma list_loop_zones:
  assumes "dbInv md5 db" "pg_fault pg 0 = None" "collation (pg_less pg)"
  shows "list_loop (\<lambda>token db. (api_ListZones pg db 500 token, db)) acc token db =
    Some (Inr (acc @ map zoneToProto (zonesAfter (pg_less pg) db token)), db)"
proof (rule list_loop_pages [where ok = "\<lambda>_. True" and rest = "\<lambda>t. map zoneToProto (zonesAfter (pg_less pg) db t)"])
  fix token
  let ?R = "zonesAfter (pg_less pg) db token"
  obtain nxt where n: "ListZones pg db 500 token = Inr (take 500 ?R, nxt)" "nxt = [] \<longleftrightarrow> length ?R \<le> 500"
      "nxt \<noteq> [] \<longrightarrow> zonesAfter (pg_less pg) db nxt = drop 500 ?R"
    using ListZones_pages [OF assms(1,2) _ assms(3), of 500 token] by auto
  have "nxt \<noteq> [] \<Longrightarrow> map zoneToProto ?R = map zoneToProto (take 500 ?R) @ map zoneToProto (zonesAfter (pg_less pg) db nxt)"
    using n(3) by (metis append_take_drop_id map_append)
  then show "\<exists>page nxt. (api_ListZones pg db 500 token, db) = (Inr (page, nxt), db) \<and>
      (nxt = [] \<longrightarrow> map zoneToProto ?R = page) \<and>
      (nxt \<noteq> [] \<longrightarrow> True \<and> page \<noteq> [] \<and> map zoneToProto ?R = page @ map zoneToProto (zonesAfter (pg_less pg) db nxt))"
    using n(1,2) by (intro exI [of _ "map zoneToProto (take 500 ?R)"] exI [of _ nxt]) (auto simp: api_ListZones_def pageSize_def)
qed simp

definition tokenId :: "string \<Rightarrow> int option" where
  "tokenId t = (if t = [] then Some 0 else case ParseInt t of None \<Rightarrow> None | Some a \<Rightarrow> if 0 \<le> a then Some a else None)"

lemma list_loop_records:
  assumes "dbInv md5 db" "\<And>n. pg_fault pg n = None" "d_next db \<le> 2 ^ 63" "zoneNamed db (NormalizeZone u zone) \<noteq> None" "zone \<noteq> []"
    and "tokenId token = Some a"
  shows "list_loop (\<lambda>token db. (api_ListRecords u pg pg enc db db zone 1000 token, db)) acc token db =
    Some (Inr (acc @ map (recordToProto \<circ> scanRecord enc) (recordsAfter db (NormalizeZone u zone) a)), db)"
proof -
  let ?R = "\<lambda>a. recordsAfter db (NormalizeZone u zone) a" and ?m = "recordToProto \<circ> scanRecord enc"
  have page: "\<exists>nxt. api_ListRecords u pg pg enc db db zone 1000 t = Inr (map ?m (take 1000 (?R b)), nxt) \<and>
      (nxt = [] \<longleftrightarrow> length (?R b) \<le> 1000) \<and> (nxt \<noteq> [] \<longrightarrow> (\<exists>b'. tokenId nxt = Some b' \<and> ?R b' = drop 1000 (?R b)))"
    if "tokenId t = Some b" for t b
  proof -
    have "t = [] \<and> b = 0 \<or> ParseInt t = Some b \<and> 0 \<le> b \<and> t \<noteq> []" using that by (auto simp: tokenId_def split: if_splits option.splits)
    then obtain nxt where n: "ListRecords u pg enc db zone 1000 t = Inr (map (scanRecord enc) (take 1000 (?R b)), nxt)"
        "nxt = [] \<longleftrightarrow> length (?R b) \<le> 1000" "nxt \<noteq> [] \<longrightarrow> (\<exists>b'. ParseInt nxt = Some b' \<and> 0 \<le> b' \<and> ?R b' = drop 1000 (?R b))"
      using ListRecords_pages [OF assms(1,2) _ assms(3), of 1000 t b u enc zone] by auto
    have "isl (GetZone u pg db zone) = False" using assms(2,4) by (auto simp: GetZone_def query_def scanZone_def)
    then show ?thesis using n assms(5)
      by (intro exI [of _ nxt]) (auto simp: api_ListRecords_def pageSize_def tokenId_def split: sum.splits)
  qed
  have "list_loop (\<lambda>token db. (api_ListRecords u pg pg enc db db zone 1000 token, db)) acc token db =
      Some (Inr (acc @ map ?m (?R (the (tokenId token)))), db)"
  proof (rule list_loop_pages [where ok = "\<lambda>t. tokenId t \<noteq> None"])
    fix t assume "tokenId t \<noteq> None"
    then obtain b where b: "tokenId t = Some b" by auto
    obtain nxt where n: "api_ListRecords u pg pg enc db db zone 1000 t = Inr (map ?m (take 1000 (?R b)), nxt)"
        "nxt = [] \<longleftrightarrow> length (?R b) \<le> 1000" "nxt \<noteq> [] \<longrightarrow> (\<exists>b'. tokenId nxt = Some b' \<and> ?R b' = drop 1000 (?R b))"
      using page [OF b] by blast
    have "nxt \<noteq> [] \<Longrightarrow> map ?m (?R b) = map ?m (take 1000 (?R b)) @ map ?m (?R (the (tokenId nxt)))"
      using n(3) by (metis append_take_drop_id map_append option.sel)
    then show "\<exists>page nxt. (api_ListRecords u pg pg enc db db zone 1000 t, db) = (Inr (page, nxt), db) \<and>
        (nxt = [] \<longrightarrow> map ?m (?R (the (tokenId t))) = page) \<and>
        (nxt \<noteq> [] \<longrightarrow> tokenId nxt \<noteq> None \<and> page \<noteq> [] \<and> map ?m (?R (the (tokenId t))) = page @ map ?m (?R (the (tokenId nxt))))"
      using n b by (intro exI [of _ "map ?m (take 1000 (?R b))"] exI [of _ nxt]) auto
  qed (use assms(6) in simp)
  then show ?thesis using assms(6) by simp
qed

lemma cli_main_list:
  assumes "Getenv env ''SHARDDNS_TOKEN'' = APIToken cfg"
  shows "cli_main env (\<lambda>_. serverClient u enc pg cfg) [''zone'', ''list''] db =
      map_option (\<lambda>(r, db). (case r of Inl e \<Rightarrow> Die (CallFailed e) | Inr zones \<Rightarrow> PrintZones zones, db))
        (list_loop (\<lambda>token db. (api_ListZones pg db 500 token, db)) [] [] db)"
    and "zone \<notin> {''--addr'', ''-addr'', ''--token'', ''-token'', ''--help'', ''-h'', ''help''} \<Longrightarrow>
      cli_main env (\<lambda>_. serverClient u enc pg cfg) [''record'', ''list'', zone] db =
      map_option (\<lambda>(r, db). (case r of Inl e \<Rightarrow> Die (CallFailed e) | Inr records \<Rightarrow> PrintRecords records, db))
        (list_loop (\<lambda>token db. (api_ListRecords u pg pg enc db db zone 1000 token, db)) [] [] db)"
  using assms by (simp_all add: cli_main_def cli_zone_def cli_record_def serverClient_def Let_def guarded_bearer)

text \<open>Claim C33. \<open>sharddns zone list\<close> prints every zone once: against a server whose token it has, and while the database stays as it is
  and answers, it follows the page tokens to the end and prints the zones of the table in the order of the collation.\<close>

theorem zone_list_complete:
  assumes "dbInv md5 db" "pg_fault pg 0 = None" "collation (pg_less pg)" "Getenv env ''SHARDDNS_TOKEN'' = APIToken cfg"
  shows "\<exists>zones. cli_main env (\<lambda>_. serverClient u enc pg cfg) [''zone'', ''list''] db = Some (PrintZones (map zoneToProto zones), db) \<and>
    mset zones = mset (d_zones db) \<and> zones = zonesAfter (pg_less pg) db []"
  using list_loop_zones [OF assms(1-3), of "[]" "[]"] cli_main_list(1) [OF assms(4)]
    ListZones_pages [OF assms(1,2) _ assms(3), of 1] by simp

text \<open>Claim C32. \<open>sharddns record list\<close> prints every record of a zone once, in the order of the identifiers, however many pages that
  takes: against a server whose token it has, for a zone that exists, and while the database stays as it is and answers.\<close>

theorem record_list_complete:
  assumes "dbInv md5 db" "\<And>n. pg_fault pg n = None" "d_next db \<le> 2 ^ 63" "\<And>w. w \<in> set (d_records db) \<Longrightarrow> 0 < w_id w"
    and "zoneNamed db (NormalizeZone u zone) \<noteq> None" "zone \<noteq> []"
    and "zone \<notin> {''--addr'', ''-addr'', ''--token'', ''-token'', ''--help'', ''-h'', ''help''}"
    and "Getenv env ''SHARDDNS_TOKEN'' = APIToken cfg"
  shows "cli_main env (\<lambda>_. serverClient u enc pg cfg) [''record'', ''list'', zone] db =
    Some (PrintRecords (map (recordToProto \<circ> scanRecord enc)
      (sort_key w_id (filter (\<lambda>w. w_zone w = NormalizeZone u zone) (d_records db)))), db)"
proof -
  have "filter (\<lambda>w. w_zone w = NormalizeZone u zone \<and> w_id w > 0) (d_records db) = filter (\<lambda>w. w_zone w = NormalizeZone u zone) (d_records db)"
    using assms(4) by (auto intro: filter_cong)
  then show ?thesis
    using list_loop_records [OF assms(1-3,5,6), of "[]" 0 enc "[]"] cli_main_list(2) [OF assms(8,7)]
    by (simp add: tokenId_def recordsAfter_def)
qed

section \<open>Two surprises\<close>

text \<open>A TTL outside 32 bits is sent modulo \<open>2\<^sup>3\<^sup>2\<close> and not refused.\<close>

lemma record_add_wraps:
  "cli_record c [''add'', z, n, t, FormatInt (2 ^ 32 + 60), d] s =
    (case ct_CreateRecord c \<lparr>rq_Zone = z, rq_Name = n, rq_Type = t, rq_Ttl = 60, rq_Rdata = d\<rparr> s of
       (Inl e, s) \<Rightarrow> Some (Die (CallFailed e), s) | (Inr r, s) \<Rightarrow> Some (PrintRecords [r], s))"
  using ParseInt_FormatInt [of "2 ^ 32 + 60"] by (simp add: cli_record_def int32_def)

text \<open>The word \<open>help\<close> anywhere among the arguments, be it the text of a record, only prints the usage.\<close>

lemma help_swallows:
  "cli_main env dial [''record'', ''add'', ''a.b'', ''w'', ''TXT'', ''60'', ''help''] s = Some (PrintUsage, s)"
  by (simp add: cli_main_def)

section \<open>Examples\<close>

lemma quietPg_collation: "collation (pg_less quietPg)"
  by (simp add: quietPg_def collation_bytes)

theorem zone_list_complete_witness:
  "cli_main Map.empty (\<lambda>_. serverClient asciiCase None quietPg demoConfig) [''zone'', ''list''] exampleDb =
    Some (PrintZones [zoneToProto exampleZone], exampleDb)"
  using zone_list_complete [OF exampleDb_inv _ quietPg_collation, of Map.empty demoConfig asciiCase None]
  by (auto simp: quietPg_def Getenv_def demoConfig_def exampleDb_def)

theorem record_list_complete_witness:
  "cli_main Map.empty (\<lambda>_. serverClient asciiCase None quietPg demoConfig) [''record'', ''list'', ''a.b''] exampleDb =
    Some (PrintRecords [recordToProto (scanRecord None exampleRow)], exampleDb)"
proof -
  have "zoneNamed exampleDb ''a.b'' \<noteq> None" by (simp add: zoneNamed_def exampleDb_def exampleZone_def)
  then show ?thesis
    using record_list_complete [OF exampleDb_inv, of quietPg asciiCase "''a.b''" Map.empty demoConfig None]
    by (simp add: NormalizeZone_example quietPg_def Getenv_def demoConfig_def exampleDb_def exampleRow_def)
qed



end
