(* ===== verification/Spec2Isabelle.thy ===== *)
theory Spec2Isabelle
  imports Dns_Rdata Handler_Calm Server Cluster_Props Cli
begin

text \<open>
  ShardDNS is an authoritative DNS server over PostgreSQL. A daemon (\<open>src/cmd/sharddnsd\<close>) answers DNS queries over UDP and TCP and
  offers an API to manage zones and records; several daemons share one database, each with a cache of its own, and
  tell each other of changes over NATS. A command-line client (\<open>src/cmd/sharddns\<close>) calls the API.

  \<^bold>\<open>How a query flows.\<close> \<open>server.go\<close> reads a datagram or a framed request and parses it (\<open>message.go\<close>); \<open>handler.go\<close> resolves it
  through the interface \<open>Resolver\<close>, which is the store (\<open>store.go\<close>, \<open>zone.go\<close>, \<open>record.go\<close>) or the caching resolver over it
  (\<open>cached.go\<close>, with the sharded cache of \<open>cache.go\<close>); the response is packed and sent back. A write goes through
  \<open>service.go\<close>, which checks it (\<open>names.go\<close>, \<open>rdata.go\<close>), runs it on the store and calls \<open>notify\<close>, which invalidates the
  instance's own cache and publishes an event on the bus (\<open>bus.go\<close>) for the others.

  \<^bold>\<open>The theories.\<close>
  \<^item> \<open>Prelude\<close>, \<open>Go_Strings\<close>, \<open>Go_Encoding\<close>: machine integers, byte slices and what the sources use of Go's \<open>strings\<close>, \<open>strconv\<close>,
    \<open>encoding\<close> and \<open>net/netip\<close>. A Go string is a list of 8-bit characters, a byte slice a list of 8-bit words, a fixed-width
    integer a word, or an \<open>int\<close> with its range or wrap-around written out. Case mapping beyond ASCII is the parameter \<open>u\<close>.
  \<^item> \<open>Dns_Message\<close>, \<open>Dns_Names\<close>, \<open>Dns_Rdata\<close>: \<open>message.go\<close>, \<open>names.go\<close>, \<open>rdata.go\<close>. Messages and names survive packing and parsing;
    packing for UDP keeps its limit and says when it truncates; validated names can be served.
  \<^item> \<open>Cache\<close>, \<open>Cache_Interleaving\<close>: \<open>cache.go\<close>; its capacity, its interface as the locale \<open>epoch_cache\<close>, and a step relation in
    which loads and the sweeps of invalidations interleave: no value loaded before an invalidation outlives it.
  \<^item> \<open>Store\<close>, \<open>Store_Invariant\<close>, \<open>Store_Props\<close>: the operations of the store on the tables of \<open>schema.sql\<close>, one SQL statement after the
    other. The record \<open>pgenv\<close> gives what is not determined by the tables: the clock, the collation, the order of rows,
    and which statement fails. Shown are the invariant of the tables, atomicity, exact lookups, paging and serials.
  \<^item> \<open>Cached_Resolver\<close>: \<open>cached.go\<close> and the interface \<open>Resolver\<close>, whose contract is the locale \<open>resolver_spec\<close>, interpreted for the
    store and for the caching resolver over it: the cache never changes an answer, and invalidating with what a write
    announces makes it coherent again.
  \<^item> \<open>Handler\<close>, \<open>Handler_Turns\<close>, \<open>Handler_Refinement\<close>, \<open>Handler_Props\<close>, \<open>Handler_Calm\<close>: \<open>handler.go\<close> over any resolver. The locales
    \<open>db_resolver\<close> and \<open>calm_resolver\<close> extend the contract; \<open>lookup\<close> refines what the database says of a name, and answers,
    denials and referrals are exactly those of the database.
  \<^item> \<open>Server\<close>: \<open>server.go\<close>, the handling of requests as functions of bytes, and queue, workers, connections and shutdown as a
    step relation.
  \<^item> \<open>Api_Service\<close>, \<open>Api_Props\<close>: \<open>service.go\<close>; what a call stores can be served, and what it announces covers what it changed.
  \<^item> \<open>Daemon\<close>, \<open>Cluster\<close>, \<open>Cluster_Props\<close>: \<open>bus.go\<close> and the wiring in \<open>run\<close>; several instances with their messages, lost
    connections and reconnections as a step relation: stale data is served only while a correction is under way.
  \<^item> \<open>Config\<close>, \<open>Startup\<close>: \<open>config.go\<close>, and \<open>run\<close> up to serving, with \<open>connectStore\<close>, \<open>Open\<close>, \<open>Migrate\<close>, the probes and the health
    check; the processes that start form an initial state of \<open>Cluster\<close>.
  \<^item> \<open>Cli\<close>: the client's arguments, flags, commands and loops over pages; listing is complete and a run ends.
  \<^item> This theory: what a query gets from the handler over the caching resolver over the store.

  \<^bold>\<open>Parameters.\<close> PostgreSQL, NATS, protobuf and the generated client are arguments of the definitions that use them. What is relied on
  is stated where it is used: a collation is a strict total order with the empty text first, decoding inverts encoding
  (\<open>codecOk\<close>), zone names in the database have no zero byte and the column of reversed names holds them (\<open>dbText\<close>), instances draw different identifiers, identifiers of
  records are positive, and the calls of the client can succeed only finitely often before its deadline.

  \<^bold>\<open>Loops and bounds.\<close> There is no fuel. Loops are structural or have a termination proof by a measure: names by the bytes left and
  the pointers followed (at most 16), the chain of aliases by its turns (at most 9), \<open>connectStore\<close> by its 30 attempts. The client's
  loop over pages is a \<open>partial_function\<close>, as a server may send tokens for ever; that it returns is proved.

  \<^bold>\<open>Not modelled.\<close> Logging; \<open>Listen\<close>, \<open>Close\<close>, \<open>Ping\<close> and \<open>Healthy\<close>, which only call the operating system or a client library; the HTTP server
  and reflection in \<open>newAPIServer\<close>, and the end of \<open>run\<close>, which waits for a signal or the first error and shuts the HTTP
  server down; the columns in which the client prints, with the format of times; and the generated code under \<open>src/api\<close>.
  In \<open>Cluster\<close> all instances start together, and calls and lookups of an instance run one at a time; the concurrency inside the cache
  is that of \<open>Cache_Interleaving\<close>.
\<close>

text \<open>The state of a server: the caching resolver over the store.\<close>

abbreviation server_ok :: "unicode_case \<Rightarrow> encoder option \<Rightarrow> store_state cres_state \<Rightarrow> bool" where
  "server_ok u enc \<equiv> csInv storeOk (\<lambda>s. zoneIs u (ss_db s)) (\<lambda>s. setIs enc (ss_db s))"

abbreviation server_db :: "store_state cres_state hstate \<Rightarrow> db" where
  "server_db h \<equiv> ss_db (cr_next (cs_res (hs_res h)))"

abbreviation server :: "unicode_case \<Rightarrow> encoder option \<Rightarrow> store_state cres_state resolver" where
  "server u enc \<equiv> cachedResolver (storeResolver u enc)"

definition demoRow :: "int \<Rightarrow> string \<Rightarrow> string \<Rightarrow> string \<Rightarrow> srow" where
  "demoRow i name t rdata = \<lparr>w_id = i, w_zone = ''a.b'', w_name = name, w_name_rev = reverseName name, w_type = t,
     w_ttl = 60, w_rdata = rdata, w_created = 0\<rparr>"

definition demoDb :: db where
  "demoDb = \<lparr>d_zones = [exampleZone],
     d_records = [demoRow 1 ''w.a.b'' ''A'' ''1.2.3.4'', demoRow 2 ''s.a.b'' ''NS'' ''n.s.a.b'', demoRow 3 ''n.s.a.b'' ''A'' ''5.6.7.8''],
     d_next = 4\<rparr>"

definition demoServer :: "store_state cres_state hstate" where
  "demoServer = NewHandler \<lparr>cs_res = NewCachedResolver (\<lambda>_. 1) (\<lambda>_. 2) \<lparr>ss_db = demoDb, ss_envs = \<lambda>_. quietPg, ss_tick = 0\<rparr> 64 0,
     cs_envs = \<lambda>_. quietCenv, cs_tick = 0\<rparr>"

definition demoQuestion :: "string \<Rightarrow> question" where
  "demoQuestion name = \<lparr>q_Name = name, q_Type = TypeA, q_Class = ClassIN\<rparr>"

definition demoQuery :: "string \<Rightarrow> message" where
  "demoQuery name = zero_message\<lparr>ID := 7, Flags := FlagRD, Questions := [demoQuestion name]\<rparr>"

lemma demoServer_ok: "server_ok asciiCase None (hs_res demoServer)" "server_db demoServer = demoDb"
proof -
  have "storeOk \<lparr>ss_db = demoDb, ss_envs = \<lambda>_. quietPg, ss_tick = 0\<rparr>"
    by (simp add: storeOk_def demoDb_def demoRow_def exampleZone_def)
  then show "server_ok asciiCase None (hs_res demoServer)"
    by (simp add: csInv_def Let_def demoServer_def NewHandler_def cachesOk_New envOk_def quietCenv_def) (simp add: NewCachedResolver_def)
  show "server_db demoServer = demoDb" by (simp add: demoServer_def NewHandler_def NewCachedResolver_def)
qed

lemma demo_soa: "\<exists>soa. soaRR exampleZone = Inr soa"
proof -
  have "isl (soaRR exampleZone) = False" by code_simp
  then show ?thesis by (cases "soaRR exampleZone") auto
qed

lemma demo_types: "TypeCode asciiCase ''A'' = TypeA" "TypeCode asciiCase ''NS'' = TypeNS"
  by code_simp+

lemma demo_calm:
  "csCalm (calmStore demoDb) (\<lambda>z. z \<in> set (d_zones demoDb)) (\<lambda>r. r \<in> scanRecord None ` set (d_records demoDb)) (hs_res demoServer)"
proof -
  have "calmStore demoDb \<lparr>ss_db = demoDb, ss_envs = \<lambda>_. quietPg, ss_tick = 0\<rparr>" by (simp add: calmStore_def)
  then show ?thesis
    by (simp add: csCalm_def demoServer_def NewHandler_def NewCachedResolver_def cachesCalm_def envCalm_def quietCenv_def coherent_def)
qed

lemma demo_answered: "Rcode (fst (Handle (server asciiCase None) asciiCase demoServer req)) \<noteq> RcodeServerFailure"
proof -
  have "\<exists>soa. soaRR z = Inr soa" if "z \<in> set (d_zones demoDb)" for z using that demo_soa by (simp add: demoDb_def)
  moreover have "TypeCode asciiCase (r_Type r) \<noteq> TypeDNAME" if "r \<in> scanRecord None ` set (d_records demoDb)" for r
    using that by (auto simp: demoDb_def demoRow_def scanRecord_def demo_types)
  ultimately show ?thesis using cca.Handle_calm [OF _ _ demo_calm, of asciiCase asciiCase req] by blast
qed

lemma demo_names:
  assumes "n \<in> {''w.a.b'', ''x.a.b'', ''y.s.a.b''}"
  shows "standard (demoQuery n) (demoQuestion n)" "qnameOf asciiCase (demoQuestion n) = n" "ownerOf (demoQuestion n) = n"
    "within n ''a.b''" "zoneIs asciiCase demoDb n (Some exampleZone)"
proof -
  show "standard (demoQuery n) (demoQuestion n)"
    by (simp add: standard_def demoQuery_def demoQuestion_def Opcode_def zero_message_def)
  show o: "ownerOf (demoQuestion n) = n" using assms by (auto simp: ownerOf_def demoQuestion_def TrimSuffix_def HasSuffix_single)
  show "qnameOf asciiCase (demoQuestion n) = n"
    unfolding qnameOf_def o using assms by (auto simp: ToLower_def is_ascii_def lower_char_def)
  show w: "within n ''a.b''" using assms by (auto simp: within_def HasSuffix_iff)
  have "NormalizeZone asciiCase n = n"
    using assms by (auto simp: NormalizeZone_def TrimSpace_id visible_def ToLower_def is_ascii_def lower_char_def TrimSuffix_def HasSuffix_single)
  then show "zoneIs asciiCase demoDb n (Some exampleZone)"
    using w by (simp add: zoneIs_def demoDb_def enclosing_def exampleZone_def)
qed

lemma demo_fields: "q_Type (demoQuestion n) = TypeA" "z_Name exampleZone = ''a.b''"
  by (simp_all add: demoQuestion_def exampleZone_def)

lemmas demo_simps = demoServer_ok demo_names demo_answered demo_fields

lemmas demo_db = demo_types demoDb_def demoRow_def recsAt_def ofType_def scanRecord_def

text \<open>Claim C7. Positive answers: a query for records that the closest zone has at the very name, with no
  delegation there, is answered, through the cache, with exactly those records that can be served, each
  once and under the name as it was asked, with authority and no error.\<close>

theorem answer_exact:
  assumes "server_ok u enc (hs_res h)" "standard req q" "Handle (server u enc) u h req = (resp, h')" "Rcode resp \<noteq> RcodeServerFailure"
    and "zoneIs u (server_db h) (qnameOf u q) (Some zone)" "within (qnameOf u q) (z_Name zone)"
    and "rs = ofType u (q_Type q) (recsAt enc (server_db h) (z_Name zone) (qnameOf u q))" "rs \<noteq> {#}"
    and "\<not> delegated enc u (server_db h) (z_Name zone) (qnameOf u q) (q_Type q) (qnameOf u q)"
    and "q_Type q \<noteq> TypeANY" "\<not> (qnameOf u q = z_Name zone \<and> q_Type q = TypeSOA)"
  shows "mset (Answers resp) = served u (ownerOf q) rs \<and> Authority resp = [] \<and> AA resp \<and> Rcode resp = RcodeNoError"
  using csd.answer [OF assms] .




text \<open>Claim C13. The server always answers: as long as no statement of the database fails, every zone has an SOA
  that can be packed and there is no DNAME, no query of any kind ends in \<open>SERVFAIL\<close>, and the state stays
  one in which this holds.\<close>

theorem always_answers:
  assumes "csCalm (calmStore db) (\<lambda>z. z \<in> set (d_zones db)) (\<lambda>r. r \<in> scanRecord enc ` set (d_records db)) (hs_res h)"
    and "\<And>z. z \<in> set (d_zones db) \<Longrightarrow> \<exists>soa. soaRR z = Inr soa"
    and "\<And>w. w \<in> set (d_records db) \<Longrightarrow> TypeCode u (w_type w) \<noteq> TypeDNAME"
  shows "Rcode (fst (Handle (server u enc) u h req)) \<noteq> RcodeServerFailure \<and>
    csCalm (calmStore db) (\<lambda>z. z \<in> set (d_zones db)) (\<lambda>r. r \<in> scanRecord enc ` set (d_records db))
      (hs_res (snd (Handle (server u enc) u h req)))"
proof -
  have "TypeCode u (r_Type r) \<noteq> TypeDNAME" if "r \<in> scanRecord enc ` set (d_records db)" for r
    using that assms(3) by (auto simp: scanRecord_def Let_def case_prod_beta split: option.splits)
  then show ?thesis using cca.Handle_calm [OF assms(2) _ assms(1)] by blast
qed

abbreviation demoResp :: "string \<Rightarrow> message" where
  "demoResp n \<equiv> fst (Handle (server asciiCase None) asciiCase demoServer (demoQuery n))"

abbreviation demoNext :: "string \<Rightarrow> store_state cres_state hstate" where
  "demoNext n \<equiv> snd (Handle (server asciiCase None) asciiCase demoServer (demoQuery n))"

theorem answer_exact_witness:
  "mset (Answers (demoResp ''w.a.b'')) = served asciiCase ''w.a.b'' {#scanRecord None (demoRow 1 ''w.a.b'' ''A'' ''1.2.3.4'')#} \<and>
   AA (demoResp ''w.a.b'')"
proof -
  have rs: "ofType asciiCase TypeA (recsAt None demoDb ''a.b'' ''w.a.b'') = {#scanRecord None (demoRow 1 ''w.a.b'' ''A'' ''1.2.3.4'')#}"
    "\<not> delegated None asciiCase demoDb ''a.b'' ''w.a.b'' TypeA ''w.a.b''"
    by (simp_all add: delegated_def demo_db closest_def inUse_def)
  show ?thesis
    using answer_exact [OF demoServer_ok(1) demo_names(1), of "''w.a.b''" "demoResp ''w.a.b''" "demoNext ''w.a.b''" exampleZone] rs
    by (simp add: demo_simps)
qed




theorem always_answers_witness:
  "Rcode (demoResp ''y.s.a.b'') \<noteq> RcodeServerFailure \<and>
   csCalm (calmStore demoDb) (\<lambda>z. z \<in> set (d_zones demoDb)) (\<lambda>r. r \<in> scanRecord None ` set (d_records demoDb)) (hs_res (demoNext ''y.s.a.b''))"
  by (rule always_answers [OF demo_calm]) (use demo_soa in \<open>auto simp: demoDb_def demoRow_def demo_types\<close>)

text \<open>Claim C11. Whatever the resolver does, a response mirrors its query: same identifier and questions,
  EDNS exactly if the query has it, QR set, opcode and RD as in the query, TC clear, and one of the
  response codes the server uses.\<close>

theorem Handle_mirrors:
  "let resp = fst (Handle R u h req) in ID resp = ID req \<and> Questions resp = Questions req \<and> EDNS0 resp = EDNS0 req \<and>
    bit (Flags resp) 15 \<and> \<not> bit (Flags resp) 9 \<and> Opcode resp = Opcode req \<and>
    (bit (Flags resp) 8 \<longleftrightarrow> bit (Flags req) 8) \<and> Rcode resp \<in> {0, 1, 2, 3, 4, 5}"
proof -
  define resp where "resp = fst (Handle R u h req)"
  have f: "sameFrame (NewResponse req) resp" "Rcode resp \<in> {0, 1, 2, 3, 4, 5}" using Handle_frame unfolding resp_def by blast+
  have k: "keepBits (Flags resp) = keepBits (Flags (NewResponse req))" using f(1) by (simp add: sameFrame_def)
  have b: "bit (Flags resp) n = bit (Flags (NewResponse req)) n" if "4 \<le> n" "n \<noteq> 10" for n by (rule keepBits_bit [OF k that])
  have "drop_bit 11 (Flags resp) = drop_bit 11 (Flags (NewResponse req))"
    by (rule bit_word_eqI) (simp add: bit_drop_bit_eq b)
  then have "Opcode resp = Opcode (NewResponse req)" by (simp add: Opcode_def)
  then have "Opcode resp = Opcode req" using NewResponse_mirrors_query [of req] by simp
  then show ?thesis using f unfolding Let_def resp_def [symmetric] by (auto simp: b NewResponse_flag_bits sameFrame_def)
qed





end
